(* ===== verification/Prelude.thy ===== *)
theory Prelude
  imports Main "HOL-Library.Word" "HOL-Library.Multiset"
begin

text \<open>
  Shared vocabulary of the development: the machine integer types of the C++ sources, the
  shape of a fallible operation, and the facts about lists and machine words that several
  components use. A C++ exception is a value \<open>Inl e\<close> of a sum type; an operation that
  also changes an object returns the object next to that value, because the fields assigned
  before a \<open>throw\<close> keep their new values.
\<close>

section \<open>Types\<close>

type_synonym u8 = "8 word"
type_synonym u32 = "32 word"
type_synonym u64 = "64 word"

section \<open>Fallible operations\<close>

definition bind_result :: "'e + 'a \<Rightarrow> ('a \<Rightarrow> 'e + 'b) \<Rightarrow> 'e + 'b" where
  "bind_result r f = (case r of Inl e \<Rightarrow> Inl e | Inr a \<Rightarrow> f a)"

lemma bind_result_simps [simp]:
  "bind_result (Inl e) f = Inl e"
  "bind_result (Inr a) f = f a"
  by (simp_all add: bind_result_def)

lemma bind_result_eq_Inr [simp]:
  "bind_result r f = Inr b \<longleftrightarrow> (\<exists>a. r = Inr a \<and> f a = Inr b)"
  by (cases r) simp_all

lemma throw_if_eq_Inr: "(if c then Inl e else r) = Inr b \<longleftrightarrow> \<not> c \<and> r = Inr b"
  by simp

lemma bind_unit_eq_Inr: "bind_result r (\<lambda>_. k) = Inr b \<longleftrightarrow> r = Inr () \<and> k = Inr b"
  by (cases r) simp_all

lemma bind_result_assoc: "bind_result (bind_result r f) g = bind_result r (\<lambda>x. bind_result (f x) g)"
  by (cases r) simp_all

text \<open>A loop that stops at the first failure.\<close>

fun for_each :: "('a \<Rightarrow> 'e + unit) \<Rightarrow> 'a list \<Rightarrow> 'e + unit" where
  "for_each f [] = Inr ()"
| "for_each f (x # xs) = bind_result (f x) (\<lambda>_. for_each f xs)"

lemma for_each_eq_Inr [simp]: "for_each f xs = Inr () \<longleftrightarrow> (\<forall>x \<in> set xs. f x = Inr ())"
  by (induction xs) (auto simp: bind_unit_eq_Inr)

section \<open>Lists\<close>

named_theorems slice_simps

text \<open>Copying a run of elements over a list, \<open>std::copy_n\<close> into an array.\<close>

definition splice :: "nat \<Rightarrow> 'a list \<Rightarrow> 'a list \<Rightarrow> 'a list" where
  "splice start ys xs = take start xs @ ys @ drop (start + length ys) xs"

lemma length_splice [slice_simps]:
  "start + length ys \<le> length xs \<Longrightarrow> length (splice start ys xs) = length xs"
  by (simp add: splice_def)

lemma nth_splice [slice_simps]:
  assumes "start + length ys \<le> length xs" "i < length xs"
  shows "splice start ys xs ! i
    = (if start \<le> i \<and> i < start + length ys then ys ! (i - start) else xs ! i)"
  using assms by (auto simp: splice_def nth_append min_def)

lemma map_upt_append:
  "map f [0..<m + n] = map f [0..<m] @ map (\<lambda>i. f (m + i)) [0..<n]"
proof -
  have "[0..<m + n] = [0..<m] @ map (\<lambda>i. i + m) [0..<n]"
    by (metis add.commute add_0 map_add_upt upt_add_eq_append zero_le)
  then show ?thesis
    by (simp add: comp_def add.commute)
qed

lemma list_eq_map_upt:
  "length xs = n \<Longrightarrow> (\<And>i. i < n \<Longrightarrow> xs ! i = f i) \<Longrightarrow> xs = map f [0..<n]"
  by (rule nth_equalityI) simp_all

text \<open>A symmetric relation between all elements of a list does not depend on their order.\<close>

lemma sorted_wrt_mset:
  assumes sym: "\<And>x y. P x y \<Longrightarrow> P y x"
  shows "sorted_wrt P xs \<Longrightarrow> mset xs = mset ys \<Longrightarrow> sorted_wrt P ys"
proof (induction ys arbitrary: xs)
  case (Cons y ys)
  from Cons.prems(2) have "y \<in> set xs" by (metis list.set_intros(1) mset_eq_setD)
  then obtain as bs where xs: "xs = as @ y # bs" by (meson split_list)
  with Cons.prems have "sorted_wrt P (as @ bs)" "mset (as @ bs) = mset ys"
    by (auto simp: sorted_wrt_append)
  moreover from this(2) have "set ys = set as \<union> set bs" by (metis mset_eq_setD set_append)
  then have "\<forall>z\<in>set ys. P y z"
    using Cons.prems(1) xs sym by (auto simp: sorted_wrt_append)
  ultimately show ?case using Cons.IH by simp
qed simp

lemma sorted_wrt_conj:
  "sorted_wrt (\<lambda>x y. P x y \<and> Q x y) xs \<longleftrightarrow> sorted_wrt P xs \<and> sorted_wrt Q xs"
  by (induction xs) auto

section \<open>Machine words\<close>

named_theorems unat_simps

lemma unat_add_no_wrap:
  fixes a b :: "'a::len word"
  shows "unat a + unat b < 2 ^ LENGTH('a) \<Longrightarrow> unat (a + b) = unat a + unat b"
  by (simp add: unat_word_ariths)

lemma unat_add_of_nat [unat_simps]:
  fixes a :: u64
  assumes "unat a + n < 2 ^ 64"
  shows "unat (a + of_nat n) = unat a + n"
proof -
  have "unat (of_nat n :: u64) = n"
    using assms by (simp add: unsigned_of_nat take_bit_nat_eq_self)
  with assms show ?thesis
    by (simp add: unat_word_ariths)
qed

lemma unat_sub_le [unat_simps]:
  fixes a b :: "'a::len word"
  shows "b \<le> a \<Longrightarrow> unat (a - b) = unat a - unat b"
  by (rule unat_sub)

lemma word_le_unat_iff [unat_simps]:
  fixes a b :: "'a::len word"
  shows "a \<le> b \<longleftrightarrow> unat a \<le> unat b"
  by (rule word_le_nat_alt)

lemma word_less_unat_iff [unat_simps]:
  fixes a b :: "'a::len word"
  shows "a < b \<longleftrightarrow> unat a < unat b"
  by (rule word_less_nat_alt)

lemma unat_lt64: "unat (a::u64) < 2 ^ 64"
  using unsigned_less [of a] by simp

lemma unat_of_nat64: "m < 2 ^ 64 \<Longrightarrow> unat (of_nat m :: u64) = m"
  by (simp add: unsigned_of_nat take_bit_nat_eq_self)

lemma unat_lt32: "unat (a::u32) < 2 ^ 32"
  using unsigned_less [of a] by simp

lemma unat_ucast_32_64 [simp]: "unat (ucast (x::u32) :: u64) = unat x"
  using unat_lt32 [of x] by (simp add: unsigned_ucast_eq take_bit_nat_eq_self)

lemma unat_pow2_64: "k < 64 \<Longrightarrow> unat (2 ^ k :: u64) = 2 ^ k"
proof -
  assume k: "k < 64"
  then have "(2::nat) ^ k < 2 ^ 64" by (intro power_strict_increasing) auto
  then have "unat (of_nat (2 ^ k) :: u64) = 2 ^ k"
    using take_bit_nat_eq_self [of "2 ^ k" 64] by (simp only: unsigned_of_nat len_num1 len_num0 len_bit0 len_bit1) simp
  then show ?thesis by simp
qed


section \<open>Flat byte arrays\<close>

text \<open>
  The abstract view of every byte store: a total map from addresses to bytes, over which a
  write replaces a run of bytes. \<open>in_run\<close> reads the run without wrapping.
\<close>

definition in_run :: "u64 \<Rightarrow> nat \<Rightarrow> u64 \<Rightarrow> bool" where
  "in_run a n x \<longleftrightarrow> unat a \<le> unat x \<and> unat x < unat a + n"

definition overwrite :: "(u64 \<Rightarrow> u8) \<Rightarrow> u64 \<Rightarrow> u8 list \<Rightarrow> u64 \<Rightarrow> u8" where
  "overwrite c a bs x = (if in_run a (length bs) x then bs ! (unat x - unat a) else c x)"

definition bytes_at :: "(u64 \<Rightarrow> u8) \<Rightarrow> u64 \<Rightarrow> nat \<Rightarrow> u8 list" where
  "bytes_at c a n = map (\<lambda>i. c (a + of_nat i)) [0..<n]"

named_theorems flat_simps

lemma length_bytes_at [simp]: "length (bytes_at c a n) = n"
  by (simp add: bytes_at_def)

lemma nth_bytes_at [simp]: "i < n \<Longrightarrow> bytes_at c a n ! i = c (a + of_nat i)"
  by (simp add: bytes_at_def)

lemma bytes_at_0 [simp]: "bytes_at c a 0 = []"
  by (simp add: bytes_at_def)

lemma bytes_at_add: "bytes_at c a (m + n) = bytes_at c a m @ bytes_at c (a + of_nat m) n"
  by (simp add: bytes_at_def map_upt_append add.assoc)

lemma bytes_at_cong:
  assumes "unat a + n \<le> 2 ^ 64" "\<And>x. in_run a n x \<Longrightarrow> c x = d x"
  shows "bytes_at c a n = bytes_at d a n"
proof (rule nth_equalityI)
  fix i assume "i < length (bytes_at c a n)"
  moreover from this assms(1) have "unat (a + of_nat i) = unat a + i"
    by (intro unat_add_of_nat) simp
  ultimately show "bytes_at c a n ! i = bytes_at d a n ! i"
    using assms(2) [of "a + of_nat i"] by (simp add: in_run_def)
qed simp

lemma in_run_0 [simp]: "\<not> in_run a 0 x"
  by (simp add: in_run_def)

lemma overwrite_Nil [simp]: "overwrite c a [] = c"
  by (simp add: overwrite_def fun_eq_iff)

lemma overwrite_nth:
  assumes "i < length bs" "unat a + length bs \<le> 2 ^ 64"
  shows "overwrite c a bs (a + of_nat i) = bs ! i"
proof -
  have "unat (a + of_nat i) = unat a + i"
    using assms by (intro unat_add_of_nat) simp
  with assms show ?thesis by (simp add: overwrite_def in_run_def)
qed

lemma bytes_at_overwrite [flat_simps]:
  assumes "unat a + length bs \<le> 2 ^ 64"
  shows "bytes_at (overwrite c a bs) a (length bs) = bs"
  using assms by (intro nth_equalityI) (simp_all add: overwrite_nth)

lemma overwrite_bytes_at [flat_simps]:
  assumes "unat a + n \<le> 2 ^ 64"
  shows "overwrite c a (bytes_at c a n) = c"
proof
  fix x
  show "overwrite c a (bytes_at c a n) x = c x"
    using assms
    by (auto simp: overwrite_def in_run_def word_unat_eq_iff unat_add_of_nat unat_lt64
        intro!: arg_cong [where f = c])
qed

lemma overwrite_append:
  assumes "unat a + length bs < 2 ^ 64"
  shows "overwrite (overwrite c a bs) (a + of_nat (length bs)) cs = overwrite c a (bs @ cs)"
  using assms
  by (auto simp: overwrite_def in_run_def fun_eq_iff nth_append unat_add_of_nat)


section \<open>Address windows\<close>

text \<open>Inclusive windows that do not wrap, and two windows apart, over unbounded numbers.\<close>

definition window_ok :: "u64 \<Rightarrow> u64 \<Rightarrow> bool" where
  "window_ok base n \<longleftrightarrow> n \<noteq> 0 \<and> unat base + unat n \<le> 2 ^ 64"

definition windows_apart :: "u64 \<Rightarrow> u64 \<Rightarrow> u64 \<Rightarrow> u64 \<Rightarrow> bool" where
  "windows_apart a m b n \<longleftrightarrow> unat a + unat m \<le> unat b \<or> unat b + unat n \<le> unat a"

lemma windows_apart_sym: "windows_apart a m b n \<longleftrightarrow> windows_apart b n a m"
  by (auto simp: windows_apart_def)

lemma unat_window_last: "window_ok base n \<Longrightarrow> unat (base + n - 1) = unat base + unat n - 1"
proof -
  assume "window_ok base n"
  then have "0 < unat n" "unat base + unat n \<le> 2 ^ 64" "(1::u64) \<le> n"
    by (auto simp: window_ok_def unat_gt_0 word_le_unat_iff Suc_le_eq)
  then have "unat (base + (n - 1)) = unat base + unat (n - 1)"
    by (intro unat_add_no_wrap) (simp add: unat_sub_le)
  with \<open>0 < unat n\<close> \<open>1 \<le> n\<close> show ?thesis
    by (simp add: unat_sub_le add_diff_eq)
qed

text \<open>The three comparisons the sources use for these notions.\<close>

lemma window_ok_check: "n \<noteq> 0 \<Longrightarrow> window_ok base n \<longleftrightarrow> \<not> base > - 1 - (n - 1)"
proof -
  assume "n \<noteq> 0"
  then have "0 < unat n" "(1::u64) \<le> n"
    by (auto simp: unat_gt_0 word_le_unat_iff Suc_le_eq)
  moreover have "unat (- 1 - (n - 1)) = unat (- 1 :: u64) - unat (n - 1)"
    by (rule unat_sub_le) (rule word_order.extremum)
  moreover have "unat (- 1 :: u64) = 2 ^ 64 - 1"
    by (simp add: unsigned_minus_1_eq_mask mask_eq_exp_minus_1)
  ultimately show ?thesis
    using \<open>n \<noteq> 0\<close> unat_lt64 [of n] by (auto simp: window_ok_def word_less_unat_iff unat_sub_le)
qed

lemma windows_overlap_check:
  assumes "window_ok a m" "window_ok b n"
  shows "a \<le> b + n - 1 \<and> b \<le> a + m - 1 \<longleftrightarrow> \<not> windows_apart a m b n"
proof -
  have "0 < unat m" "0 < unat n"
    using assms by (auto simp: window_ok_def unat_gt_0)
  then show ?thesis
    unfolding word_le_unat_iff unat_window_last [OF assms(1)] unat_window_last [OF assms(2)]
    by (auto simp: windows_apart_def)
qed

end
