(* ===== verification/Byte_Store.thy ===== *)
theory Byte_Store
  imports Prelude
begin

text \<open>
  The contract between a bounded byte store and its clients (the CHI beat adapter and the
  image loader): an access inside the capacity succeeds and behaves like the same access to a
  flat array, any other access fails. The lemmas of the locale are what those clients need.
\<close>

definition in_bounds :: "u64 \<Rightarrow> u64 \<Rightarrow> nat \<Rightarrow> bool" where
  "in_bounds capacity a n \<longleftrightarrow> unat a + n \<le> unat capacity"

text \<open>Replacing the bytes of the lanes a mask enables.\<close>

definition merge_lanes :: "(nat \<Rightarrow> bool) \<Rightarrow> u8 list \<Rightarrow> u8 list \<Rightarrow> u8 list" where
  "merge_lanes enabled new old = map (\<lambda>i. if enabled i then new ! i else old ! i) [0..<length old]"

lemma length_merge_lanes [simp]: "length (merge_lanes e new old) = length old"
  by (simp add: merge_lanes_def)

locale byte_store =
  fixes capacity :: "'m \<Rightarrow> u64"
    and rd :: "'m \<Rightarrow> u64 \<Rightarrow> nat \<Rightarrow> 'e + u8 list"
    and wr :: "'m \<Rightarrow> u64 \<Rightarrow> u8 list \<Rightarrow> 'e + 'm"
    and clr :: "'m \<Rightarrow> u64 \<Rightarrow> u64 \<Rightarrow> 'e + 'm"
    and contents :: "'m \<Rightarrow> u64 \<Rightarrow> u8"
    and ok :: "'m \<Rightarrow> bool"
  assumes rd_in: "ok m \<Longrightarrow> in_bounds (capacity m) a n \<Longrightarrow> rd m a n = Inr (bytes_at (contents m) a n)"
    and rd_out: "ok m \<Longrightarrow> \<not> in_bounds (capacity m) a n \<Longrightarrow> \<exists>e. rd m a n = Inl e"
    and wr_in: "ok m \<Longrightarrow> in_bounds (capacity m) a (length bs) \<Longrightarrow>
      \<exists>m'. wr m a bs = Inr m' \<and> ok m' \<and> capacity m' = capacity m
         \<and> contents m' = overwrite (contents m) a bs"
    and wr_out: "ok m \<Longrightarrow> \<not> in_bounds (capacity m) a (length bs) \<Longrightarrow> \<exists>e. wr m a bs = Inl e"
    and clr_in: "ok m \<Longrightarrow> in_bounds (capacity m) a (unat k) \<Longrightarrow>
      \<exists>m'. clr m a k = Inr m' \<and> ok m' \<and> capacity m' = capacity m
         \<and> contents m' = overwrite (contents m) a (replicate (unat k) 0)"
    and clr_out: "ok m \<Longrightarrow> \<not> in_bounds (capacity m) a (unat k) \<Longrightarrow> \<exists>e. clr m a k = Inl e"
begin

lemma in_bounds_64: "in_bounds (capacity m) a n \<Longrightarrow> unat a + n \<le> 2 ^ 64"
  using unat_lt64 [of "capacity m"] by (simp add: in_bounds_def)

lemma wr_InrD:
  assumes "ok m" "wr m a bs = Inr m'"
  shows "in_bounds (capacity m) a (length bs)" "ok m'" "capacity m' = capacity m"
    "contents m' = overwrite (contents m) a bs"
  using wr_in [OF assms(1)] wr_out [OF assms(1)] assms(2) by (metis Inl_Inr_False Inr_inject)+

lemma clr_InrD:
  assumes "ok m" "clr m a n = Inr m'"
  shows "in_bounds (capacity m) a (unat n)" "ok m'" "capacity m' = capacity m"
    "contents m' = overwrite (contents m) a (replicate (unat n) 0)"
  using clr_in [OF assms(1)] clr_out [OF assms(1)] assms(2) by (metis Inl_Inr_False Inr_inject)+

lemma rd_InrD:
  assumes "ok m" "rd m a n = Inr bs"
  shows "in_bounds (capacity m) a n" "bs = bytes_at (contents m) a n"
  using rd_in [OF assms(1)] rd_out [OF assms(1)] assms(2) by (metis Inl_Inr_False Inr_inject)+

lemma rd_after_wr:
  assumes "ok m" "wr m a bs = Inr m'"
  shows "rd m' a (length bs) = Inr bs"
  using wr_InrD [OF assms] in_bounds_64 [of m a "length bs"] rd_in [of m' a "length bs"]
  by (simp add: flat_simps)

lemma rd_after_wr_disjoint:
  assumes "ok m" "wr m a bs = Inr m'" "unat b + n \<le> unat a \<or> unat a + length bs \<le> unat b"
  shows "rd m' b n = rd m b n \<or> (\<exists>e f. rd m' b n = Inl e \<and> rd m b n = Inl f)"
proof (cases "in_bounds (capacity m) b n")
  case True
  then have "bytes_at (contents m') b n = bytes_at (contents m) b n"
    using wr_InrD [OF assms(1,2)] assms(3) in_bounds_64 [of m b n]
    by (intro bytes_at_cong) (auto simp: overwrite_def in_run_def)
  with True wr_InrD [OF assms(1,2)] show ?thesis
    using rd_in [of m' b n] rd_in [of m b n] assms(1) by simp
next
  case False
  with wr_InrD [OF assms(1,2)] rd_out [of m' b n] rd_out [of m b n] assms(1)
  show ?thesis by simp
qed

lemma rd_after_clr:
  assumes "ok m" "clr m a n = Inr m'"
  shows "rd m' a (unat n) = Inr (replicate (unat n) 0)"
  using clr_InrD [OF assms] in_bounds_64 [of m a "unat n"] rd_in [of m' a "unat n"]
    bytes_at_overwrite [of a "replicate (unat n) 0" "contents m"]
  by simp

text \<open>Read, merge the enabled lanes, write back: disabled lanes keep their bytes.\<close>

lemma masked_write:
  assumes "ok m" "in_bounds (capacity m) a n" "n \<le> length new"
  shows "\<exists>m'. wr m a (merge_lanes e new (bytes_at (contents m) a n)) = Inr m' \<and> ok m'
    \<and> capacity m' = capacity m
    \<and> (\<forall>x. contents m' x =
        (if in_run a n x \<and> e (unat x - unat a) then new ! (unat x - unat a) else contents m x))"
proof -
  let ?bs = "merge_lanes e new (bytes_at (contents m) a n)"
  obtain m' where m': "wr m a ?bs = Inr m'" "ok m'" "capacity m' = capacity m"
      "contents m' = overwrite (contents m) a ?bs"
    using wr_in [of m a ?bs] assms by auto
  have "a + of_nat (unat x - unat a) = x" if "in_run a n x" for x
    using that by (simp add: in_run_def word_unat_eq_iff unat_add_of_nat unat_lt64)
  then have "overwrite (contents m) a ?bs x =
      (if in_run a n x \<and> e (unat x - unat a) then new ! (unat x - unat a) else contents m x)" for x
    using assms(3) by (auto simp: overwrite_def merge_lanes_def in_run_def)
  with m' show ?thesis by auto
qed

end

end
