(* ===== verification/Chi_Memory.thy ===== *)
theory Chi_Memory
  imports Byte_Store
begin

text \<open>
  The sparse bounded byte store of \<open>chi/subordinate/dpi/chi_memory.h\<close> and
  \<open>chi_memory.cc\<close> (class \<open>rhodium::chi::Memory\<close>): pages of 4096 bytes, created by the
  first write, read as zero while absent, erased when a clear covers them. The contract
  \<open>byte_store\<close> says what a client may rely on; the last section shows that the paged
  implementation provides it.
\<close>

section \<open>The class\<close>

datatype memory_error =
    Capacity_not_positive       \<comment> \<open>CHI memory capacity must be positive\<close>
  | Access_exceeds_capacity     \<comment> \<open>CHI memory access exceeds capacity\<close>

definition page_size :: nat where
  "page_size = 4096"

type_synonym page = "u8 list"

record memory =
  mem_size :: u64
  mem_pages :: "u64 \<rightharpoonup> page"

definition new_memory :: "u64 \<Rightarrow> memory_error + memory" where
  "new_memory capacity = (if capacity = 0 then Inl Capacity_not_positive
     else Inr \<lparr>mem_size = capacity, mem_pages = Map.empty\<rparr>)"

definition mem_check :: "memory \<Rightarrow> u64 \<Rightarrow> nat \<Rightarrow> memory_error + unit" where
  "mem_check m offset len =
     (if offset > mem_size m \<or> len > unat (mem_size m - offset)
      then Inl Access_exceeds_capacity else Inr ())"

definition page_index :: "u64 \<Rightarrow> u64" where
  "page_index offset = offset div of_nat page_size"

definition page_start :: "u64 \<Rightarrow> nat" where
  "page_start offset = unat (offset mod of_nat page_size)"

lemma page_start_less: "page_start a < page_size"
  by (simp add: page_start_def page_size_def unat_mod)

text \<open>One iteration copies \<open>amount\<close> bytes out of the page that holds \<open>offset\<close>.\<close>

definition read_page :: "memory \<Rightarrow> u64 \<Rightarrow> nat \<Rightarrow> u8 list" where
  "read_page m offset amount =
     (case mem_pages m (page_index offset) of
        None \<Rightarrow> replicate amount 0
      | Some p \<Rightarrow> take amount (drop (page_start offset) p))"

function read_loop :: "memory \<Rightarrow> u64 \<Rightarrow> nat \<Rightarrow> u8 list" where
  "read_loop m offset n =
     (if n = 0 then []
      else let amount = min n (page_size - page_start offset)
           in read_page m offset amount @ read_loop m (offset + of_nat amount) (n - amount))"
  by pat_completeness auto
termination
  using page_start_less by (relation "measure (\<lambda>(m, offset, n). n)") auto

definition mem_read :: "memory \<Rightarrow> u64 \<Rightarrow> nat \<Rightarrow> memory_error + u8 list" where
  "mem_read m offset n = bind_result (mem_check m offset n) (\<lambda>_. Inr (read_loop m offset n))"

text \<open>\<open>pages_[index]\<close> creates a zero page where there was none.\<close>

definition page_or_zero :: "memory \<Rightarrow> u64 \<Rightarrow> page" where
  "page_or_zero m i = (case mem_pages m i of None \<Rightarrow> replicate page_size 0 | Some p \<Rightarrow> p)"

definition write_page :: "memory \<Rightarrow> u64 \<Rightarrow> u8 list \<Rightarrow> memory" where
  "write_page m offset bytes =
     (let index = page_index offset
      in m\<lparr>mem_pages := (mem_pages m)
             (index \<mapsto> splice (page_start offset) bytes (page_or_zero m index))\<rparr>)"

function write_loop :: "memory \<Rightarrow> u64 \<Rightarrow> u8 list \<Rightarrow> memory" where
  "write_loop m offset bytes =
     (if bytes = [] then m
      else let amount = min (length bytes) (page_size - page_start offset)
           in write_loop (write_page m offset (take amount bytes))
                (offset + of_nat amount) (drop amount bytes))"
  by pat_completeness auto
termination
  using page_start_less by (relation "measure (\<lambda>(m, offset, bytes). length bytes)") auto

declare read_loop.simps [simp del] write_loop.simps [simp del]

lemma read_loop_0 [simp]: "read_loop m offset 0 = []"
  by (simp add: read_loop.simps [of m offset 0])

lemma write_loop_Nil [simp]: "write_loop m offset [] = m"
  by (simp add: write_loop.simps [of m offset "[]"])

definition mem_write :: "memory \<Rightarrow> u64 \<Rightarrow> u8 list \<Rightarrow> memory_error + memory" where
  "mem_write m offset bytes =
     bind_result (mem_check m offset (length bytes)) (\<lambda>_. Inr (write_loop m offset bytes))"

text \<open>
  \<open>zero\<close> visits every stored page once and treats it on its own: a page outside the range is
  kept, a page the range covers is erased, a page it covers in part is filled there. The
  container is unordered, so the visit is the same function applied to every stored page.
\<close>

definition zero_page :: "u64 \<Rightarrow> u64 \<Rightarrow> u64 \<Rightarrow> page \<Rightarrow> page option" where
  "zero_page offset last_byte index p =
     (let base = index * of_nat page_size
      in if index < page_index offset \<or> index > page_index last_byte then Some p
         else let first = (if offset > base then unat (offset - base) else 0);
                  stop = (if index = page_index last_byte then page_start last_byte + 1 else page_size)
              in if first = 0 \<and> stop = page_size then None
                 else Some (splice first (replicate (stop - first) 0) p))"

definition mem_zero :: "memory \<Rightarrow> u64 \<Rightarrow> u64 \<Rightarrow> memory_error + memory" where
  "mem_zero m offset len =
     bind_result (mem_check m offset (unat len)) (\<lambda>_.
       if len = 0 then Inr m
       else let last_byte = offset + len - 1
            in Inr (m\<lparr>mem_pages := (\<lambda>i. Option.bind (mem_pages m i) (zero_page offset last_byte i))\<rparr>))"

section \<open>Well-formed stores and the bytes they hold\<close>

definition mem_wf :: "memory \<Rightarrow> bool" where
  "mem_wf m \<longleftrightarrow> mem_size m \<noteq> 0 \<and>
     (\<forall>i p. mem_pages m i = Some p \<longrightarrow>
        length p = page_size \<and> unat i * page_size < unat (mem_size m))"

definition byte_at :: "memory \<Rightarrow> u64 \<Rightarrow> u8" where
  "byte_at m a = (case mem_pages m (page_index a) of None \<Rightarrow> 0 | Some p \<Rightarrow> p ! page_start a)"


section \<open>Addresses, pages and offsets\<close>

lemma unat_page_index: "unat (page_index a) = unat a div page_size"
  by (simp add: page_index_def page_size_def unat_div)

lemma page_start_unat: "page_start a = unat a mod page_size"
  by (simp add: page_start_def page_size_def unat_mod)

lemma page_decompose: "unat a = unat (page_index a) * page_size + page_start a"
  by (simp add: unat_page_index page_start_unat)

lemma page_index_eq_iff: "page_index a = page_index b \<longleftrightarrow> unat (page_index a) = unat (page_index b)"
  by (simp add: word_unat_eq_iff)

lemma within_page:
  assumes "page_start a + i < page_size"
  shows "page_index (a + of_nat i) = page_index a" "page_start (a + of_nat i) = page_start a + i"
proof -
  have "unat a div 4096 < 2 ^ 52"
    using unat_lt64 [of a] by (intro less_mult_imp_div_less) simp
  then have "unat (page_index a) * page_size + page_size \<le> 2 ^ 64"
    unfolding unat_page_index page_size_def by simp
  with assms have "unat a + i < 2 ^ 64"
    using page_decompose [of a] by simp
  then have u: "unat (a + of_nat i) = unat (page_index a) * page_size + (page_start a + i)"
    using page_decompose [of a] by (simp add: unat_add_of_nat)
  show "page_index (a + of_nat i) = page_index a"
    unfolding word_unat_eq_iff unat_page_index [of "a + of_nat i"] u
    using assms by (simp add: page_size_def)
  show "page_start (a + of_nat i) = page_start a + i"
    unfolding page_start_unat [of "a + of_nat i"] u using assms by simp
qed

lemma same_page_range:
  assumes "page_start a + n \<le> page_size"
  shows "page_index x = page_index a \<and> page_start a \<le> page_start x \<and> page_start x < page_start a + n
    \<longleftrightarrow> unat a \<le> unat x \<and> unat x < unat a + n" (is "?l \<longleftrightarrow> ?r")
proof
  assume ?l
  then show ?r using page_decompose [of a] page_decompose [of x] by simp
next
  assume r: ?r
  define i where "i = unat x - unat a"
  have i: "page_start a + i < page_size" and "unat x = unat a + i"
    using r assms by (auto simp: i_def)
  then have "x = a + of_nat i"
    using unat_lt64 [of x] by (simp add: word_unat_eq_iff unat_simps)
  then show ?l
    using within_page [OF i] \<open>unat x = unat a + i\<close> r by simp
qed

section \<open>The operations, byte by byte\<close>

lemma mem_wf_page_length:
  "mem_wf m \<Longrightarrow> mem_pages m i = Some p \<Longrightarrow> length p = page_size"
  by (auto simp: mem_wf_def)

lemma length_page_or_zero: "mem_wf m \<Longrightarrow> length (page_or_zero m i) = page_size"
  by (auto simp: page_or_zero_def mem_wf_page_length split: option.split)

lemma byte_at_page_or_zero: "byte_at m a = page_or_zero m (page_index a) ! page_start a"
  using page_start_less [of a] by (simp add: byte_at_def page_or_zero_def split: option.split)

lemma read_page_bytes:
  assumes "mem_wf m" "page_start a + n \<le> page_size"
  shows "read_page m a n = bytes_at (byte_at m) a n"
proof (rule nth_equalityI)
  show len: "length (read_page m a n) = length (bytes_at (byte_at m) a n)"
    using assms by (auto simp: read_page_def mem_wf_page_length split: option.split)
  fix i assume "i < length (read_page m a n)"
  then have "i < n" using len by simp
  then show "read_page m a n ! i = bytes_at (byte_at m) a n ! i"
    using assms within_page [of a i]
    by (auto simp: read_page_def byte_at_def mem_wf_page_length split: option.split)
qed

lemma read_loop_bytes: "mem_wf m \<Longrightarrow> read_loop m a n = bytes_at (byte_at m) a n"
proof (induction m a n rule: read_loop.induct)
  case (1 m a n)
  show ?case
  proof (cases "n = 0")
    case True
    then show ?thesis by simp
  next
    case False
    define c where "c = min n (page_size - page_start a)"
    have "page_start a + c \<le> page_size"
      using page_start_less [of a] by (simp add: c_def)
    moreover have "n = c + (n - c)" by (simp add: c_def)
    ultimately show ?thesis
      using False "1.IH" [OF False c_def "1.prems"] "1.prems" bytes_at_add [of "byte_at m" a c "n - c"]
      by (simp add: read_loop.simps [of m a n] Let_def read_page_bytes flip: c_def)
  qed
qed

lemma write_page_wf:
  assumes "mem_wf m" "page_start a + length bs \<le> page_size" "unat a < unat (mem_size m)"
  shows "mem_wf (write_page m a bs)"
  using assms page_decompose [of a]
  by (auto simp: mem_wf_def write_page_def Let_def slice_simps length_page_or_zero)

lemma byte_at_write_page:
  assumes "mem_wf m" "page_start a + length bs \<le> page_size"
  shows "byte_at (write_page m a bs) = overwrite (byte_at m) a bs"
proof
  fix x
  show "byte_at (write_page m a bs) x = overwrite (byte_at m) a bs x"
  proof (cases "page_index x = page_index a")
    case True
    then have "byte_at (write_page m a bs) x =
      splice (page_start a) bs (page_or_zero m (page_index a)) ! page_start x"
      by (simp add: byte_at_def write_page_def Let_def)
    moreover have "unat x - unat a = page_start x - page_start a" if "page_start a \<le> page_start x"
      using True page_decompose [of a] page_decompose [of x] by simp
    ultimately show ?thesis
      using assms page_start_less [of x] True same_page_range [OF assms(2), of x]
      by (auto simp: slice_simps length_page_or_zero byte_at_page_or_zero overwrite_def in_run_def)
  next
    case False
    then show ?thesis
      using same_page_range [OF assms(2), of x]
      by (auto simp: byte_at_def write_page_def Let_def overwrite_def in_run_def)
  qed
qed

lemma mem_size_write_page [simp]: "mem_size (write_page m a bs) = mem_size m"
  by (simp add: write_page_def Let_def)

lemma write_loop_bytes:
  assumes "mem_wf m" "unat a + length bs \<le> unat (mem_size m)"
  shows "mem_wf (write_loop m a bs) \<and> mem_size (write_loop m a bs) = mem_size m
    \<and> byte_at (write_loop m a bs) = overwrite (byte_at m) a bs"
  using assms
proof (induction m a bs rule: write_loop.induct)
  case (1 m a bs)
  show ?case
  proof (cases "bs = []")
    case True
    with "1.prems" show ?thesis by simp
  next
    case False
    define c where "c = min (length bs) (page_size - page_start a)"
    let ?m = "write_page m a (take c bs)"
    have c: "page_start a + length (take c bs) \<le> page_size" "0 < c" "c \<le> length bs"
      using page_start_less [of a] False by (auto simp: c_def)
    have wf: "mem_wf ?m"
      using c "1.prems" False by (intro write_page_wf) auto
    have step: "write_loop m a bs = write_loop ?m (a + of_nat c) (drop c bs)"
      using False by (simp add: write_loop.simps [of m a bs] Let_def flip: c_def)
    show ?thesis
    proof (cases "c = length bs")
      case True
      with wf byte_at_write_page [OF "1.prems"(1) c(1)] step show ?thesis by simp
    next
      case rest: False
      have lt: "unat a + length (take c bs) < 2 ^ 64"
        using rest c "1.prems" unat_lt64 [of "mem_size m"] by auto
      then have "unat (a + of_nat c) = unat a + c"
        using c by (intro unat_add_of_nat) auto
      then show ?thesis
        using "1.IH" [OF False c_def wf] "1.prems"(2) c step
          overwrite_append [OF lt, of "byte_at m" "drop c bs"]
        by (simp add: byte_at_write_page [OF "1.prems"(1) c(1)])
    qed
  qed
qed

section \<open>Clearing\<close>

lemma zero_window:
  fixes off fin i s :: nat
  assumes "off div 4096 \<le> i" "i \<le> fin div 4096" "s < 4096"
  shows "(if i * 4096 < off then off - i * 4096 else 0) \<le> s
      \<and> s < (if i = fin div 4096 then fin mod 4096 + 1 else 4096)
    \<longleftrightarrow> off \<le> i * 4096 + s \<and> i * 4096 + s \<le> fin"
proof -
  define q r p t where "q = fin div 4096" "r = fin mod 4096" "p = off div 4096" "t = off mod 4096"
  then have "fin = q * 4096 + r" "off = p * 4096 + t" "r < 4096" "t < 4096"
    by simp_all
  with assms show ?thesis
    unfolding q_r_p_t_def(1,2) [symmetric] by (cases "i = q"; cases "i = p") auto
qed

lemma zero_window_le:
  fixes off fin i :: nat
  assumes "off div 4096 \<le> i" "i \<le> fin div 4096" "off \<le> fin"
  shows "(if i * 4096 < off then off - i * 4096 else 0)
    \<le> (if i = fin div 4096 then fin mod 4096 + 1 else 4096)"
proof -
  define q r p t where "q = fin div 4096" "r = fin mod 4096" "p = off div 4096" "t = off mod 4096"
  then have "fin = q * 4096 + r" "off = p * 4096 + t" "r < 4096" "t < 4096"
    by simp_all
  with assms show ?thesis
    unfolding q_r_p_t_def(1,2) [symmetric] by (cases "i = q"; cases "i = p") auto
qed

definition zero_first :: "u64 \<Rightarrow> u64 \<Rightarrow> nat" where
  "zero_first offset i = (if unat i * page_size < unat offset then unat offset - unat i * page_size else 0)"

definition zero_stop :: "u64 \<Rightarrow> u64 \<Rightarrow> nat" where
  "zero_stop last_byte i = (if i = page_index last_byte then page_start last_byte + 1 else page_size)"

lemma zero_page_nat:
  assumes "unat i * page_size < 2 ^ 64"
  shows "zero_page offset last_byte i p =
    (if i < page_index offset \<or> page_index last_byte < i then Some p
     else if zero_first offset i = 0 \<and> zero_stop last_byte i = page_size then None
     else Some (splice (zero_first offset i)
       (replicate (zero_stop last_byte i - zero_first offset i) 0) p))"
proof -
  have "unat (i * of_nat page_size) = unat i * page_size"
    using assms by (simp add: unat_word_ariths page_size_def)
  then have "(if offset > i * of_nat page_size then unat (offset - i * of_nat page_size) else 0)
    = zero_first offset i"
    by (simp add: zero_first_def word_less_unat_iff unat_sub_le word_le_unat_iff)
  then show ?thesis
    by (simp add: zero_page_def zero_stop_def Let_def del: of_nat_mult)
qed

lemma zero_page_bytes:
  assumes "length p = page_size" "page_index x = i" "offset \<le> last_byte"
  shows "(case zero_page offset last_byte i p of None \<Rightarrow> 0 | Some q \<Rightarrow> q ! page_start x)
    = (if offset \<le> x \<and> x \<le> last_byte then 0 else p ! page_start x)"
    and "zero_page offset last_byte i p = Some q \<Longrightarrow> length q = page_size"
proof -
  have x: "unat x = unat i * page_size + page_start x"
    using page_decompose [of x] assms(2) by simp
  then have np: "unat i * page_size < 2 ^ 64" using unat_lt64 [of x] by simp
  have pl: "page_start x < page_size" by (rule page_start_less)
  have zf: "zero_first offset i = (if unat i * 4096 < unat offset then unat offset - unat i * 4096 else 0)"
    by (simp add: zero_first_def page_size_def)
  have zs: "zero_stop last_byte i
      = (if unat i = unat last_byte div 4096 then unat last_byte mod 4096 + 1 else 4096)"
    by (simp add: zero_stop_def word_unat_eq_iff [of i] unat_page_index page_start_unat page_size_def)
  have win: "zero_first offset i \<le> page_start x \<and> page_start x < zero_stop last_byte i
      \<longleftrightarrow> offset \<le> x \<and> x \<le> last_byte"
    if inside: "\<not> (i < page_index offset \<or> page_index last_byte < i)"
  proof -
    have "unat offset div 4096 \<le> unat i" "unat i \<le> unat last_byte div 4096" "page_start x < 4096"
      using inside pl by (simp_all add: word_less_unat_iff unat_page_index page_size_def)
    from zero_window [OF this] show ?thesis
      unfolding zf zs word_le_unat_iff x by (simp add: page_size_def)
  qed
  have out: "\<not> (offset \<le> x \<and> x \<le> last_byte)"
    if "i < page_index offset \<or> page_index last_byte < i"
    using that assms(2) by (auto simp: word_less_unat_iff word_le_unat_iff unat_page_index
        dest: div_le_mono [where k = page_size])
  have stop: "zero_stop last_byte i \<le> page_size"
    using page_start_less [of last_byte] by (simp add: zero_stop_def)
  have le: "zero_first offset i \<le> zero_stop last_byte i"
    if "\<not> (i < page_index offset \<or> page_index last_byte < i)"
    using zero_window_le [of "unat offset" "unat i" "unat last_byte"] that assms(3)
    unfolding zf zs by (simp add: word_less_unat_iff word_le_unat_iff unat_page_index page_size_def)
  show "zero_page offset last_byte i p = Some q \<Longrightarrow> length q = page_size"
    using assms(1) le stop by (auto simp: zero_page_nat [OF np] slice_simps split: if_splits)
  show "(case zero_page offset last_byte i p of None \<Rightarrow> 0 | Some q \<Rightarrow> q ! page_start x)
    = (if offset \<le> x \<and> x \<le> last_byte then 0 else p ! page_start x)"
    using assms(1) le stop win out pl
    by (auto simp: zero_page_nat [OF np] slice_simps)
qed

lemma zeroed_pages:
  assumes wf: "mem_wf m" and le: "offset \<le> last_byte"
  defines "m' \<equiv> m\<lparr>mem_pages := (\<lambda>i. Option.bind (mem_pages m i) (zero_page offset last_byte i))\<rparr>"
  shows "byte_at m' x = (if offset \<le> x \<and> x \<le> last_byte then 0 else byte_at m x)"
    and "mem_wf m'"
proof -
  show "byte_at m' x = (if offset \<le> x \<and> x \<le> last_byte then 0 else byte_at m x)"
    using zero_page_bytes(1) [OF mem_wf_page_length [OF wf] refl le]
    by (auto simp: byte_at_def m'_def split: option.split)
  have "length q = page_size \<and> unat i * page_size < unat (mem_size m)"
    if p: "mem_pages m i = Some p" and q: "zero_page offset last_byte i p = Some q" for i p q
  proof -
    have lt: "unat i * page_size < unat (mem_size m)"
      using wf p by (simp add: mem_wf_def)
    then have "unat i * page_size < 2 ^ 64"
      using unat_lt64 [of "mem_size m"] by linarith
    then have "unat (i * of_nat page_size) = unat i * page_size"
      by (simp add: unat_word_ariths page_size_def)
    then have "page_index (i * of_nat page_size) = i"
      by (simp add: word_unat_eq_iff unat_page_index page_size_def)
    with zero_page_bytes(2) [OF mem_wf_page_length [OF wf p] _ le q] lt show ?thesis by blast
  qed
  with wf show "mem_wf m'"
    by (auto simp: mem_wf_def m'_def bind_eq_Some_conv)
qed

section \<open>The store provides the contract\<close>

lemma mem_check_bounds:
  "mem_check m a n = (if in_bounds (mem_size m) a n then Inr () else Inl Access_exceeds_capacity)"
  by (cases "a \<le> mem_size m")
    (auto simp: mem_check_def in_bounds_def word_less_unat_iff word_le_unat_iff unat_sub_le)

lemma mem_zero_in:
  assumes wf: "mem_wf m" and b: "in_bounds (mem_size m) a (unat n)"
  shows "\<exists>m'. mem_zero m a n = Inr m' \<and> mem_wf m' \<and> mem_size m' = mem_size m
    \<and> byte_at m' = overwrite (byte_at m) a (replicate (unat n) 0)"
proof (cases "n = 0")
  case True
  with wf b show ?thesis by (simp add: mem_zero_def mem_check_bounds)
next
  case False
  define l where "l = a + n - 1"
  have s: "unat (a + n) = unat a + unat n"
    using b unat_lt64 [of "mem_size m"] by (intro unat_add_no_wrap) (simp add: in_bounds_def)
  have pos: "0 < unat n" using False by (simp add: unat_gt_0)
  then have "1 \<le> a + n" using s by (simp add: word_le_unat_iff)
  then have ul: "unat l = unat a + unat n - 1"
    using s by (simp add: l_def unat_sub_le)
  then have "a \<le> l" using pos by (simp add: word_le_unat_iff)
  note z = zeroed_pages [OF wf this]
  have "(if a \<le> x \<and> x \<le> l then 0 else byte_at m x)
    = overwrite (byte_at m) a (replicate (unat n) 0) x" for x
    using ul pos by (auto simp: overwrite_def in_run_def word_le_unat_iff)
  then show ?thesis
    using False b z by (auto simp: mem_zero_def mem_check_bounds Let_def l_def)
qed

interpretation chi: byte_store mem_size mem_read mem_write mem_zero byte_at mem_wf
proof (unfold_locales, goal_cases)
  case (1 m a n)
  then show ?case by (simp add: mem_read_def mem_check_bounds read_loop_bytes)
next
  case (2 m a n)
  then show ?case by (simp add: mem_read_def mem_check_bounds)
next
  case (3 m a bs)
  then show ?case
    using write_loop_bytes [of m a bs] by (simp add: mem_write_def mem_check_bounds in_bounds_def)
next
  case (4 m a bs)
  then show ?case by (simp add: mem_write_def mem_check_bounds)
next
  case (5 m a n)
  then show ?case by (rule mem_zero_in)
next
  case (6 m a n)
  then show ?case by (simp add: mem_zero_def mem_check_bounds)
qed


lemma new_memory_wf: "new_memory n = Inr m \<Longrightarrow> mem_wf m \<and> mem_size m = n \<and> byte_at m = (\<lambda>_. 0)"
  by (auto simp: new_memory_def mem_wf_def byte_at_def fun_eq_iff split: if_splits)

section \<open>Properties\<close>

text \<open>C2: on every well-formed store a write either is in range and then changes exactly the
  bytes of its run, or is out of range and fails with the capacity error.\<close>

theorem chi_write_flat_array:
  assumes "mem_wf m"
  shows "case mem_write m a bs of
      Inl e \<Rightarrow> e = Access_exceeds_capacity \<and> \<not> in_bounds (mem_size m) a (length bs)
    | Inr m' \<Rightarrow> in_bounds (mem_size m) a (length bs) \<and> mem_wf m' \<and> mem_size m' = mem_size m
        \<and> byte_at m' = overwrite (byte_at m) a bs"
proof (cases "in_bounds (mem_size m) a (length bs)")
  case True
  with chi.wr_in [OF assms True] show ?thesis by auto
next
  case False
  then show ?thesis by (simp add: mem_write_def mem_check_bounds)
qed

lemma empty_memory_wf: "c \<noteq> 0 \<Longrightarrow> mem_wf \<lparr>mem_size = c, mem_pages = Map.empty\<rparr>"
  by (simp add: mem_wf_def)

theorem chi_write_flat_array_witness:
  "case mem_write \<lparr>mem_size = 8192, mem_pages = Map.empty\<rparr> 4095 [1, 2] of
      Inl e \<Rightarrow> False
    | Inr m' \<Rightarrow> byte_at m' = overwrite (\<lambda>_. 0) 4095 [1, 2]"
proof -
  have "byte_at \<lparr>mem_size = 8192, mem_pages = Map.empty\<rparr> = (\<lambda>_. 0)"
    by (simp add: byte_at_def fun_eq_iff)
  with chi_write_flat_array [OF empty_memory_wf, of 8192 4095 "[1, 2]"]
  show ?thesis by (simp add: in_bounds_def split: sum.splits)
qed

text \<open>C3: clearing a range that fits zeroes exactly that range whatever pages it erases, fills or
  leaves absent; every other clear fails.\<close>

theorem chi_zero_flat_array:
  assumes "mem_wf m"
  shows "case mem_zero m a n of
      Inl e \<Rightarrow> e = Access_exceeds_capacity \<and> \<not> in_bounds (mem_size m) a (unat n)
    | Inr m' \<Rightarrow> in_bounds (mem_size m) a (unat n) \<and> mem_wf m' \<and> mem_size m' = mem_size m
        \<and> byte_at m' = overwrite (byte_at m) a (replicate (unat n) 0)"
proof (cases "in_bounds (mem_size m) a (unat n)")
  case True
  with chi.clr_in [OF assms True] show ?thesis by auto
next
  case False
  then show ?thesis by (simp add: mem_zero_def mem_check_bounds)
qed

theorem chi_zero_flat_array_witness:
  "\<exists>m'. mem_zero \<lparr>mem_size = 8192, mem_pages = Map.empty\<rparr> 16 4096 = Inr m' \<and> mem_wf m'"
  using chi_zero_flat_array [OF empty_memory_wf, of 8192 16 4096]
  by (auto simp: in_bounds_def split: sum.splits)

text \<open>C4: a read returns the bytes the last write to its range stored, and a write leaves every
  read of other addresses as it was.\<close>

theorem chi_read_write:
  assumes "mem_wf m" "mem_write m a bs = Inr m'"
  shows "mem_read m' a (length bs) = Inr bs
    \<and> (\<forall>b n. unat b + n \<le> unat a \<or> unat a + length bs \<le> unat b
        \<longrightarrow> mem_read m' b n = mem_read m b n)"
proof (intro conjI allI impI)
  show "mem_read m' a (length bs) = Inr bs"
    using assms by (rule chi.rd_after_wr)
  fix b :: u64 and n :: nat assume "unat b + n \<le> unat a \<or> unat a + length bs \<le> unat b"
  from chi.rd_after_wr_disjoint [OF assms this] chi.wr_InrD [OF assms]
  show "mem_read m' b n = mem_read m b n"
    by (auto simp: mem_read_def mem_check_bounds split: if_splits)
qed

theorem chi_read_write_witness:
  "\<exists>m'. mem_write \<lparr>mem_size = 8192, mem_pages = Map.empty\<rparr> 4095 [7, 9] = Inr m'
    \<and> mem_read m' 4095 2 = Inr [7, 9]
    \<and> mem_read m' 0 16 = mem_read \<lparr>mem_size = 8192, mem_pages = Map.empty\<rparr> 0 16"
proof -
  let ?m = "\<lparr>mem_size = 8192, mem_pages = Map.empty\<rparr>"
  have wf: "mem_wf ?m" by (simp add: empty_memory_wf)
  obtain m' where m': "mem_write ?m 4095 [7, 9] = Inr m'"
    using chi.wr_in [OF wf, of 4095 "[7, 9]"] by (auto simp: in_bounds_def)
  show ?thesis
    using m' chi_read_write [OF wf m'] by (auto simp flip: numeral_2_eq_2)
qed

end
