(* ===== verification/Chi_Registry.thy ===== *)
theory Chi_Registry
  imports Chi_Memory
begin

text \<open>
  The process-wide tables of \<open>chi_memory.cc\<close>: the stores created on first use by
  \<open>memory()\<close> and the reset-time registrations (\<open>register_memory\<close>, \<open>initialized_memory\<close>,
  \<open>freeze_memory_registrations\<close>). A registration's \<open>Memory*\<close> is the key of the store in the
  table, whose nodes never move. The text of the first error is kept and fails every later call.
\<close>

section \<open>State\<close>

datatype registry_error =
    Invalid_identity_or_range       \<comment> \<open>invalid CHI image memory identity or range\<close>
  | Conflicting_model_or_window     \<comment> \<open>conflicting CHI memory model ID or window\<close>
  | Instance_changed_model          \<comment> \<open>CHI memory instance changed model ID\<close>
  | Overlapping_windows             \<comment> \<open>overlapping CHI image memory windows\<close>
  | Registration_after_loading      \<comment> \<open>CHI memory registration after loading started\<close>
  | Inconsistent_capacity           \<comment> \<open>CHI memory identity has inconsistent capacity\<close>
  | Accessed_before_initialization  \<comment> \<open>CHI memory accessed before initialization or \<dots>\<close>
  | Store_error memory_error

record registered_memory =
  model_id :: u32
  reg_base :: u64
  owner :: string
  storage :: u32

record registrations =
  memories :: "registered_memory list"
  frozen :: bool
  reg_error :: "registry_error option"
  stores :: "u32 \<rightharpoonup> memory"

definition no_registrations :: registrations where
  "no_registrations = \<lparr>memories = [], frozen = False, reg_error = None, stores = Map.empty\<rparr>"

definition stored :: "registrations \<Rightarrow> registered_memory \<Rightarrow> memory" where
  "stored g e = the (stores g (storage e))"

abbreviation stored_size :: "registrations \<Rightarrow> registered_memory \<Rightarrow> u64" where
  "stored_size g e \<equiv> mem_size (stored g e)"

section \<open>Operations\<close>

text \<open>\<open>memory(model_id, size)\<close>: \<open>try_emplace\<close>, then the capacity check.\<close>

definition memory_of :: "registrations \<Rightarrow> u32 \<Rightarrow> u64 \<Rightarrow> registry_error + registrations" where
  "memory_of g i n =
     (case stores g i of
        Some m \<Rightarrow> if mem_size m \<noteq> n then Inl Inconsistent_capacity else Inr g
      | None \<Rightarrow> (case new_memory n of
            Inl e \<Rightarrow> Inl (Store_error e)
          | Inr m \<Rightarrow> Inr (g\<lparr>stores := (stores g)(i \<mapsto> m)\<rparr>)))"

text \<open>The loop over the registered entries: an error, an early return or the end of the list.\<close>

fun scan_entries :: "registrations \<Rightarrow> u32 \<Rightarrow> u64 \<Rightarrow> u64 \<Rightarrow> string \<Rightarrow> registered_memory list
    \<Rightarrow> registry_error + bool" where
  "scan_entries g i base n who [] = Inr False"
| "scan_entries g i base n who (e # es) =
     (if model_id e = i then
        (if owner e \<noteq> who \<or> reg_base e \<noteq> base \<or> stored_size g e \<noteq> n
         then Inl Conflicting_model_or_window else Inr True)
      else if owner e = who then Inl Instance_changed_model
      else if base \<le> reg_base e + stored_size g e - 1 \<and> reg_base e \<le> base + n - 1
      then Inl Overlapping_windows
      else scan_entries g i base n who es)"

definition try_register :: "registrations \<Rightarrow> u32 \<Rightarrow> u64 \<Rightarrow> u64 \<Rightarrow> string
    \<Rightarrow> registry_error + registrations" where
  "try_register g i base n who =
     (case reg_error g of
        Some e \<Rightarrow> Inl e
      | None \<Rightarrow>
          if who = [] \<or> n = 0 \<or> base > - 1 - (n - 1) then Inl Invalid_identity_or_range
          else bind_result (scan_entries g i base n who (memories g)) (\<lambda>known.
            if known then Inr g
            else if frozen g then Inl Registration_after_loading
            else bind_result (memory_of g i n) (\<lambda>g'.
              Inr (g'\<lparr>memories := memories g' @
                [\<lparr>model_id = i, reg_base = base, owner = who, storage = i\<rparr>]\<rparr>))))"

definition register_memory :: "registrations \<Rightarrow> u32 \<Rightarrow> u64 \<Rightarrow> u64 \<Rightarrow> string
    \<Rightarrow> registrations \<times> (registry_error + unit)" where
  "register_memory g i base n who =
     (case try_register g i base n who of
        Inl e \<Rightarrow> (g\<lparr>reg_error := Some e\<rparr>, Inl e)
      | Inr g' \<Rightarrow> (g', Inr ()))"

definition initialized_memory :: "registrations \<Rightarrow> u32 \<Rightarrow> u64 \<Rightarrow> registry_error + u32" where
  "initialized_memory g i n =
     (case reg_error g of
        Some e \<Rightarrow> Inl e
      | None \<Rightarrow>
          (case find (\<lambda>e. model_id e = i \<and> stored_size g e = n) (memories g) of
             Some e \<Rightarrow> Inr (storage e)
           | None \<Rightarrow> Inl Accessed_before_initialization))"

definition freeze_memory_registrations ::
    "registrations \<Rightarrow> registrations \<times> (registry_error + registered_memory list)" where
  "freeze_memory_registrations g =
     (case reg_error g of
        Some e \<Rightarrow> (g, Inl e)
      | None \<Rightarrow> (g\<lparr>frozen := True\<rparr>, Inr (memories g)))"

text \<open>A write through the reference that \<open>initialized_memory\<close> or a \<open>storage\<close> pointer gives.\<close>

definition update_store :: "registrations \<Rightarrow> u32 \<Rightarrow> memory \<Rightarrow> registrations" where
  "update_store g k m = g\<lparr>stores := (stores g)(k \<mapsto> m)\<rparr>"

section \<open>Invariant\<close>

definition entry_ok :: "registrations \<Rightarrow> registered_memory \<Rightarrow> bool" where
  "entry_ok g e \<longleftrightarrow> owner e \<noteq> [] \<and> storage e = model_id e \<and> stores g (storage e) \<noteq> None
     \<and> window_ok (reg_base e) (stored_size g e)"

definition entries_apart :: "registrations \<Rightarrow> registered_memory \<Rightarrow> registered_memory \<Rightarrow> bool" where
  "entries_apart g d e \<longleftrightarrow> model_id d \<noteq> model_id e \<and> owner d \<noteq> owner e
     \<and> windows_apart (reg_base d) (stored_size g d) (reg_base e) (stored_size g e)"

definition registry_wf :: "registrations \<Rightarrow> bool" where
  "registry_wf g \<longleftrightarrow> (\<forall>i m. stores g i = Some m \<longrightarrow> mem_wf m)
     \<and> (\<forall>e\<in>set (memories g). entry_ok g e) \<and> sorted_wrt (entries_apart g) (memories g)"


lemma registry_wf_init: "registry_wf no_registrations"
  by (simp add: registry_wf_def no_registrations_def)

text \<open>Stores may be added or replaced as long as the registered ones keep their capacity.\<close>

lemma registry_wf_frame:
  assumes wf: "registry_wf g" and "memories g' = memories g"
    and new: "\<And>i m. stores g' i = Some m \<Longrightarrow> mem_wf m"
    and keep: "\<And>i m. stores g i = Some m \<Longrightarrow> \<exists>m'. stores g' i = Some m' \<and> mem_size m' = mem_size m"
  shows "registry_wf g'"
proof -
  have st: "stores g' (storage e) \<noteq> None" "stored_size g' e = stored_size g e"
    if "e \<in> set (memories g)" for e
  proof -
    have "entry_ok g e"
      using wf that by (simp add: registry_wf_def)
    then obtain m where "stores g (storage e) = Some m"
      unfolding entry_ok_def by blast
    with keep [of "storage e" m] show "stores g' (storage e) \<noteq> None" "stored_size g' e = stored_size g e"
      by (auto simp: stored_def)
  qed
  then have "sorted_wrt (entries_apart g') (memories g)"
    using wf by (intro sorted_wrt_mono_rel [of _ "entries_apart g" "entries_apart g'"])
      (auto simp: entries_apart_def registry_wf_def)
  with wf st new assms(2) show ?thesis
    by (auto simp: registry_wf_def entry_ok_def)
qed

lemma registry_wf_memory_of:
  assumes "registry_wf g" "memory_of g i n = Inr g'"
  shows "registry_wf g'" "memories g' = memories g" "frozen g' = frozen g" "reg_error g' = reg_error g"
    "\<exists>m. stores g' i = Some m \<and> mem_size m = n"
    "\<And>k. k \<noteq> i \<Longrightarrow> stores g' k = stores g k"
proof -
  show rest: "memories g' = memories g" "frozen g' = frozen g" "reg_error g' = reg_error g"
    "\<exists>m. stores g' i = Some m \<and> mem_size m = n" "\<And>k. k \<noteq> i \<Longrightarrow> stores g' k = stores g k"
    using assms(2)
    by (auto simp: memory_of_def new_memory_def split: option.splits sum.splits if_splits)
  show "registry_wf g'"
    using assms rest(4,5)
    by (intro registry_wf_frame [OF assms(1) rest(1)])
      (auto simp: memory_of_def registry_wf_def dest: new_memory_wf
        split: option.splits sum.splits if_splits)
qed

lemma scan_entries_new:
  assumes "\<forall>e\<in>set es. entry_ok g e" "window_ok base n" "scan_entries g i base n who es = Inr False"
  shows "\<forall>e\<in>set es. model_id e \<noteq> i \<and> owner e \<noteq> who
    \<and> windows_apart (reg_base e) (stored_size g e) base n"
  using assms
proof (induction es)
  case (Cons e es)
  have e: "window_ok (reg_base e) (stored_size g e)"
    using Cons.prems(1) by (simp add: entry_ok_def)
  with Cons show ?case
    using windows_overlap_check [OF Cons.prems(2) e] windows_apart_sym
    by (auto split: if_splits)
qed simp

lemma scan_entries_known:
  "scan_entries g i base n who es = Inr True \<Longrightarrow>
    \<exists>e\<in>set es. model_id e = i \<and> owner e = who \<and> reg_base e = base \<and> stored_size g e = n"
  by (induction es) (auto split: if_splits)

lemma registry_wf_add:
  assumes wf: "registry_wf g" and "who \<noteq> []" "window_ok base n"
    and new: "scan_entries g i base n who (memories g) = Inr False"
    and mem: "memory_of g i n = Inr g'"
  shows "registry_wf (g'\<lparr>memories := memories g' @
    [\<lparr>model_id = i, reg_base = base, owner = who, storage = i\<rparr>]\<rparr>)" (is "registry_wf ?g")
proof -
  note m = registry_wf_memory_of [OF wf mem]
  have sizes: "stored_size ?g e = stored_size g e \<and> model_id e \<noteq> i \<and> owner e \<noteq> who
      \<and> windows_apart (reg_base e) (stored_size g e) base n \<and> entry_ok g' e"
    if "e \<in> set (memories g)" for e
  proof -
    have ok: "entry_ok g e" using wf that by (simp add: registry_wf_def)
    have new_e: "model_id e \<noteq> i \<and> owner e \<noteq> who \<and> windows_apart (reg_base e) (stored_size g e) base n"
      using scan_entries_new [OF _ assms(3) new] wf that by (simp add: registry_wf_def)
    with ok m(6) have "stores g' (storage e) = stores g (storage e)"
      by (simp add: entry_ok_def)
    with ok new_e show ?thesis by (auto simp: entry_ok_def stored_def)
  qed
  have "sorted_wrt (entries_apart ?g) (memories g)"
    using m(1,2) by (auto simp: registry_wf_def entries_apart_def stored_def
        intro: sorted_wrt_mono_rel [of _ "entries_apart g'"])
  with m sizes assms(2,3) show ?thesis
    by (auto simp: registry_wf_def sorted_wrt_append entry_ok_def entries_apart_def stored_def)
qed

lemma try_register_cases:
  assumes "try_register g i base n who = Inr g'"
  obtains (known) "g' = g" "scan_entries g i base n who (memories g) = Inr True"
      "reg_error g = None"
    | (added) g1 where "memory_of g i n = Inr g1" "who \<noteq> []" "window_ok base n"
      "reg_error g = None" "\<not> frozen g" "scan_entries g i base n who (memories g) = Inr False"
      "g' = g1\<lparr>memories := memories g1 @
         [\<lparr>model_id = i, reg_base = base, owner = who, storage = i\<rparr>]\<rparr>"
  using assms window_ok_check [of n base]
  by (auto simp: try_register_def split: option.splits if_splits)

lemma register_memory_wf:
  assumes "registry_wf g"
  shows "registry_wf (fst (register_memory g i base n who))"
proof (cases "try_register g i base n who")
  case (Inl e)
  then show ?thesis
    using registry_wf_frame [OF assms, of "g\<lparr>reg_error := Some e\<rparr>"] assms
    by (simp add: register_memory_def registry_wf_def)
next
  case (Inr g')
  then have "registry_wf g'"
    by (cases rule: try_register_cases) (auto intro: registry_wf_add assms)
  with Inr show ?thesis by (simp add: register_memory_def)
qed

lemma freeze_wf: "registry_wf g \<Longrightarrow> registry_wf (fst (freeze_memory_registrations g))"
  using registry_wf_frame [of g "g\<lparr>frozen := True\<rparr>"]
  by (auto simp: freeze_memory_registrations_def registry_wf_def split: option.split)

lemma update_store_wf:
  assumes "registry_wf g" "mem_wf m" "stores g k = Some m0" "mem_size m = mem_size m0"
  shows "registry_wf (update_store g k m)"
  using assms by (intro registry_wf_frame [OF assms(1)])
    (auto simp: update_store_def registry_wf_def split: if_splits)

text \<open>Registering the same memory again finds it.\<close>

lemma scan_entries_cong:
  assumes "\<And>e. e \<in> set es \<Longrightarrow> stored_size g' e = stored_size g e"
  shows "scan_entries g' i base n who es = scan_entries g i base n who es"
  using assms by (induction es) auto

lemma scan_entries_append:
  "scan_entries g i base n who es = Inr False \<Longrightarrow>
    scan_entries g i base n who (es @ fs) = scan_entries g i base n who fs"
  by (induction es) (auto split: if_splits)

lemma try_register_found:
  assumes "try_register g i base n who = Inr g1" "reg_error g' = None"
    and "scan_entries g' i base n who (memories g') = Inr True"
  shows "try_register g' i base n who = Inr g'"
  using assms by (auto simp: try_register_def split: option.splits if_splits)

lemma register_again:
  assumes wf: "registry_wf g" and r: "register_memory g i base n who = (g', Inr ())"
  shows "register_memory (g'\<lparr>frozen := f\<rparr>) i base n who = (g'\<lparr>frozen := f\<rparr>, Inr ())"
proof -
  have t: "try_register g i base n who = Inr g'"
    using r by (simp add: register_memory_def split: sum.splits)
  have "reg_error g' = None \<and> scan_entries g' i base n who (memories g') = Inr True"
    using t
  proof (cases rule: try_register_cases)
    case known
    then show ?thesis by simp
  next
    case (added g1)
    note m = registry_wf_memory_of [OF wf added(1)]
    have "stored_size g' e = stored_size g e" if "e \<in> set (memories g)" for e
    proof -
      have "entry_ok g e" "model_id e \<noteq> i"
        using scan_entries_new [OF _ added(3,6)] wf that by (auto simp: registry_wf_def)
      with m(6) [of "storage e"] added(7) show ?thesis by (simp add: entry_ok_def stored_def)
    qed
    then have "scan_entries g' i base n who (memories g) = Inr False"
      using added(6) scan_entries_cong [of "memories g" g' g] by simp
    then show ?thesis
      using m added(4,7) by (auto simp: scan_entries_append stored_def)
  qed
  moreover have "scan_entries (g'\<lparr>frozen := f\<rparr>) i base n who (memories g')
      = scan_entries g' i base n who (memories g')"
    by (rule scan_entries_cong) (simp add: stored_def)
  ultimately show ?thesis
    using try_register_found [OF t, of "g'\<lparr>frozen := f\<rparr>"] by (simp add: register_memory_def)
qed

end
