(* ===== verification/Chi_Dpi.thy ===== *)
theory Chi_Dpi
  imports Chi_Registry
begin

unbundle bit_operations_syntax

text \<open>
  The DPI functions of \<open>chi/subordinate/dpi/chi_dpi_memory_dpi.cc\<close>: registration at reset and
  one clocked CHI beat. The beat is read first, so a partial write keeps the disabled lanes
  and an access that does not fit changes nothing. A \<open>svBitVecVal*\<close> argument is an optional
  list of sixteen 32-bit words, \<open>None\<close> for a null pointer; what the simulator reports as the
  name of the calling scope is an argument.
\<close>

section \<open>Packed vectors\<close>

definition dpi_data_words :: nat where
  "dpi_data_words = 512 div 32"

definition supported_beat_bytes :: "u8 \<Rightarrow> bool" where
  "supported_beat_bytes n \<longleftrightarrow> n = 16 \<or> n = 32 \<or> n = 64"

definition packed_byte :: "u32 list \<Rightarrow> nat \<Rightarrow> u8" where
  "packed_byte v i = ucast (drop_bit ((i mod 4) * 8) (v ! (i div 4)))"

definition set_packed_byte :: "nat \<Rightarrow> u8 \<Rightarrow> u32 list \<Rightarrow> u32 list" where
  "set_packed_byte i b v = v[i div 4 := v ! (i div 4) OR push_bit ((i mod 4) * 8) (ucast b)]"

definition zero_words :: "u32 list" where
  "zero_words = replicate dpi_data_words 0"

text \<open>The loops over the lanes of a beat.\<close>

definition write_lanes :: "u32 list \<Rightarrow> u64 \<Rightarrow> u8 list \<Rightarrow> u8 list" where
  "write_lanes wd wmask beat =
     fold (\<lambda>lane bs. if drop_bit lane wmask AND 1 \<noteq> 0 then bs[lane := packed_byte wd lane] else bs)
       [0..<length beat] beat"

definition read_lanes :: "u8 list \<Rightarrow> u32 list \<Rightarrow> u32 list" where
  "read_lanes beat rd = fold (\<lambda>lane v. set_packed_byte lane (beat ! lane) v) [0..<length beat] rd"

section \<open>The DPI functions\<close>

definition rhodium_chi_memory_init ::
    "registrations \<Rightarrow> string option \<Rightarrow> u32 \<Rightarrow> u64 \<Rightarrow> u64 \<Rightarrow> registrations \<times> u8" where
  "rhodium_chi_memory_init g scope i n base =
     (case register_memory g i base n (case scope of None \<Rightarrow> [] | Some s \<Rightarrow> s) of
        (g', Inr _) \<Rightarrow> (g', 0)
      | (g', Inl _) \<Rightarrow> (g', 3))"

definition beat_base :: "u64 \<Rightarrow> u8 \<Rightarrow> u64" where
  "beat_base address n = address AND NOT (ucast n - 1)"

definition access_store ::
    "registrations \<Rightarrow> u32 \<Rightarrow> u8 \<Rightarrow> bool \<Rightarrow> u64 \<Rightarrow> u32 list \<Rightarrow> u64 \<Rightarrow> registrations \<times> u32 list \<times> u8" where
  "access_store g k n is_write address wd wmask =
     (let m = the (stores g k); base = beat_base address n
      in case mem_read m base (unat n) of
           Inl _ \<Rightarrow> (g, zero_words, 3)
         | Inr beat \<Rightarrow>
             if is_write then
               (case mem_write m base (write_lanes wd wmask beat) of
                  Inl _ \<Rightarrow> (g, zero_words, 3)
                | Inr m' \<Rightarrow> (update_store g k m', zero_words, 0))
             else (g, read_lanes beat zero_words, 0))"

definition rhodium_chi_memory_access ::
    "registrations \<Rightarrow> u32 \<Rightarrow> u64 \<Rightarrow> u8 \<Rightarrow> u8 \<Rightarrow> u64 \<Rightarrow> u32 list option \<Rightarrow> u64 \<Rightarrow> u32 list option
      \<Rightarrow> registrations \<times> u32 list option \<times> u8" where
  "rhodium_chi_memory_access g i n beat_bytes is_write address write_data write_mask read_data =
     (case (write_data, read_data) of
        (Some wd, Some rd) \<Rightarrow>
          if \<not> supported_beat_bytes beat_bytes then (g, Some zero_words, 1)
          else (case initialized_memory g i n of
                  Inl _ \<Rightarrow> (g, Some zero_words, 3)
                | Inr k \<Rightarrow>
                    (case access_store g k beat_bytes (is_write \<noteq> 0) address wd write_mask of
                       (g', v, status) \<Rightarrow> (g', Some v, status)))
      | _ \<Rightarrow> (g, read_data, 2))"

section \<open>Lanes\<close>

lemma bit_test: "drop_bit lane (wmask::u64) AND 1 \<noteq> 0 \<longleftrightarrow> bit wmask lane"
  by (simp add: and_one_eq bit_iff_odd_drop_bit odd_iff_mod_2_eq_one)

lemma write_lanes_merge:
  "write_lanes wd wmask beat = merge_lanes (bit wmask) (map (packed_byte wd) [0..<length beat]) beat"
proof -
  have *: "n \<le> length beat \<Longrightarrow>
      fold (\<lambda>lane bs. if bit wmask lane then bs[lane := packed_byte wd lane] else bs) [0..<n] beat
      = map (\<lambda>i. if i < n \<and> bit wmask i then packed_byte wd i else beat ! i) [0..<length beat]" for n
  proof (induction n)
    case 0
    then show ?case by (simp add: map_nth)
  next
    case (Suc n)
    then have IH: "fold (\<lambda>lane bs. if bit wmask lane then bs[lane := packed_byte wd lane] else bs) [0..<n] beat
      = map (\<lambda>i. if i < n \<and> bit wmask i then packed_byte wd i else beat ! i) [0..<length beat]"
      by simp
    show ?case
      unfolding upt_Suc_append [OF le0] fold_append comp_apply IH
      using Suc.prems by (intro nth_equalityI) (auto simp: nth_list_update less_Suc_eq split: if_splits)
  qed
  show ?thesis
    unfolding write_lanes_def bit_test * [OF order_refl]
    by (intro nth_equalityI) (auto simp: merge_lanes_def)
qed

lemma length_set_packed_byte [simp]: "length (set_packed_byte i b v) = length v"
  by (simp add: set_packed_byte_def)

lemma bit_packed_byte: "bit (packed_byte v i) j \<longleftrightarrow> j < 8 \<and> bit (v ! (i div 4)) (i mod 4 * 8 + j)"
  by (auto simp: packed_byte_def bit_simps)

lemma packed_set_packed_same:
  assumes "i div 4 < length v"
  shows "packed_byte (set_packed_byte i b v) i = packed_byte v i OR b"
proof -
  have "i mod 4 * 8 + j < 32" if "j < 8" for j
  proof -
    have "i mod 4 < 4" by simp
    with that show ?thesis by linarith
  qed
  then show ?thesis
    using assms by (intro bit_word_eqI) (auto simp: bit_packed_byte set_packed_byte_def bit_simps)
qed

lemma packed_set_packed_other:
  assumes "i \<noteq> j"
  shows "packed_byte (set_packed_byte i b v) j = packed_byte v j"
proof -
  have ne: "i div 4 \<noteq> j div 4 \<or> i mod 4 \<noteq> j mod 4"
    using assms by (metis div_mult_mod_eq)
  show ?thesis
  proof (cases "i div 4 = j div 4 \<and> j div 4 < length v")
    case True
    with ne have "i mod 4 < j mod 4 \<or> j mod 4 < i mod 4" by auto
    then have "\<not> bit (push_bit (i mod 4 * 8) (ucast b :: u32)) (j mod 4 * 8 + k)" if "k < 8" for k
      using that by (auto simp: bit_simps dest!: bit_imp_le_length)
    with True show ?thesis
      by (intro bit_word_eqI) (auto simp: bit_packed_byte set_packed_byte_def bit_or_iff)
  next
    case False
    then show ?thesis
      by (cases "i div 4 = j div 4")
        (auto simp: packed_byte_def set_packed_byte_def list_update_beyond)
  qed
qed

lemma packed_zero_words [simp]: "i < 64 \<Longrightarrow> packed_byte zero_words i = 0"
  by (simp add: packed_byte_def zero_words_def dpi_data_words_def)

lemma length_zero_words [simp]: "length zero_words = 16"
  by (simp add: zero_words_def dpi_data_words_def)

lemma length_fold_set_packed [simp]:
  "length (fold (\<lambda>lane. set_packed_byte lane (beat ! lane)) xs v) = length v"
  by (induction xs arbitrary: v) simp_all

lemma read_lanes_packed:
  assumes "length beat \<le> 64" "i < 64"
  shows "packed_byte (read_lanes beat zero_words) i = (if i < length beat then beat ! i else 0)"
proof -
  have "n \<le> 64 \<Longrightarrow>
      packed_byte (fold (\<lambda>lane. set_packed_byte lane (beat ! lane)) [0..<n] zero_words) i
      = (if i < n then beat ! i else 0)" for n
  proof (induction n)
    case (Suc n)
    then show ?case
      using assms(2)
      by (cases "i = n") (auto simp: packed_set_packed_other packed_set_packed_same less_Suc_eq)
  qed (simp add: assms)
  with assms show ?thesis
    by (simp add: read_lanes_def)
qed

section \<open>Beats\<close>

lemma unat_and_not_mask: "unat (a AND NOT (mask k)) = unat a - unat a mod 2 ^ k" for a :: u64
proof -
  have "(a AND NOT (mask k)) + take_bit k a = (a AND NOT (mask k)) OR take_bit k a"
    by (rule disjunctive_add) (auto simp: bit_simps)
  also have "\<dots> = a"
    by (rule bit_word_eqI) (auto simp: bit_simps)
  finally have sum: "a AND NOT (mask k) = a - take_bit k a"
    by (simp add: eq_diff_eq)
  have "unat (take_bit k a) = unat a mod 2 ^ k"
    unfolding unsigned_take_bit_eq by (simp add: take_bit_eq_mod)
  then show ?thesis
    unfolding sum by (subst unat_sub_le) (simp_all add: word_le_unat_iff)
qed

lemma supported_mask:
  assumes "supported_beat_bytes n"
  obtains k where "unat n = 2 ^ k" "(ucast n :: u64) - 1 = mask k" "k \<le> 6"
proof -
  have "(mask 4 :: u64) = 15" "(mask 5 :: u64) = 31" "(mask 6 :: u64) = 63"
    by (simp_all add: mask_eq_exp_minus_1)
  with assms that [of 4] that [of 5] that [of 6] show thesis
    by (auto simp: supported_beat_bytes_def)
qed

lemma beat_base_aligned:
  assumes "supported_beat_bytes n"
  shows "unat (beat_base a n) = unat a - unat a mod unat n"
    and "unat (beat_base a n) \<le> unat a" "unat a < unat (beat_base a n) + unat n"
proof -
  obtain k where k: "unat n = 2 ^ k" "(ucast n :: u64) - 1 = mask k"
    using assms by (rule supported_mask)
  then show base: "unat (beat_base a n) = unat a - unat a mod unat n"
    by (simp add: beat_base_def unat_and_not_mask)
  then show "unat (beat_base a n) \<le> unat a" by simp
  show "unat a < unat (beat_base a n) + unat n"
  proof -
    have "0 < unat n" using k(1) by simp
    from mod_less_divisor [OF this, of "unat a"] show ?thesis
      unfolding base using mod_less_eq_dividend [of "unat a" "unat n"] by linarith
  qed
qed

lemma supported_le_64: "supported_beat_bytes n \<Longrightarrow> unat n \<le> 64 \<and> 0 < unat n"
  by (auto simp: supported_beat_bytes_def)

text \<open>The store an initialized model names.\<close>

lemma initialized_memory_stored:
  assumes "registry_wf g" "initialized_memory g i n = Inr k"
  obtains m where "stores g k = Some m" "mem_wf m" "mem_size m = n" "k = i"
proof -
  obtain e where e: "find (\<lambda>e. model_id e = i \<and> stored_size g e = n) (memories g) = Some e" "storage e = k"
    using assms(2) by (auto simp: initialized_memory_def split: option.splits)
  then have "e \<in> set (memories g)" "model_id e = i" "stored_size g e = n"
    by (auto simp: find_Some_iff)
  moreover from this assms(1) have "entry_ok g e" by (simp add: registry_wf_def)
  ultimately show thesis
    using e assms(1) that by (auto simp: entry_ok_def registry_wf_def stored_def)
qed

lemma access_store_out:
  assumes "stores g k = Some m" "mem_wf m" "\<not> in_bounds (mem_size m) (beat_base a n) (unat n)"
  shows "access_store g k n w a wd en = (g, zero_words, 3)"
  using chi.rd_out [OF assms(2,3)] assms(1) by (auto simp: access_store_def)

lemma access_store_read:
  assumes "stores g k = Some m" "mem_wf m" "in_bounds (mem_size m) (beat_base a n) (unat n)"
  shows "access_store g k n False a wd en
    = (g, read_lanes (bytes_at (byte_at m) (beat_base a n) (unat n)) zero_words, 0)"
  using chi.rd_in [OF assms(2,3)] assms(1) by (simp add: access_store_def Let_def)

lemma access_store_write:
  assumes "stores g k = Some m" "mem_wf m" "in_bounds (mem_size m) (beat_base a n) (unat n)"
  shows "\<exists>m'. access_store g k n True a wd en = (update_store g k m', zero_words, 0)
    \<and> mem_wf m' \<and> mem_size m' = mem_size m
    \<and> (\<forall>x. byte_at m' x =
        (if in_run (beat_base a n) (unat n) x \<and> bit en (unat x - unat (beat_base a n))
         then packed_byte wd (unat x - unat (beat_base a n)) else byte_at m x))"
proof -
  let ?b = "beat_base a n" and ?new = "map (packed_byte wd) [0..<unat n]"
  obtain m' where m': "mem_write m ?b (merge_lanes (bit en) ?new (bytes_at (byte_at m) ?b (unat n))) = Inr m'"
      "mem_wf m'" "mem_size m' = mem_size m"
      "\<forall>x. byte_at m' x = (if in_run ?b (unat n) x \<and> bit en (unat x - unat ?b)
         then ?new ! (unat x - unat ?b) else byte_at m x)"
    using chi.masked_write [OF assms(2,3), of ?new "bit en"] by auto
  moreover have "?new ! (unat x - unat ?b) = packed_byte wd (unat x - unat ?b)" if "in_run ?b (unat n) x" for x
  proof -
    have "unat x - unat ?b < unat n" using that unfolding in_run_def by linarith
    then show ?thesis by simp
  qed
  ultimately show ?thesis
    using chi.rd_in [OF assms(2,3)] assms(1)
    by (intro exI [of _ m']) (simp add: access_store_def Let_def write_lanes_merge)
qed

section \<open>Every run keeps the registry consistent\<close>

text \<open>
  The calls the simulator and the image loader make on the tables, in any order: DPI
  registrations and beats, the freeze, and loader writes and clears through the storage
  pointer of a registered memory.
\<close>

inductive chi_step :: "registrations \<Rightarrow> registrations \<Rightarrow> bool" where
  init: "chi_step g (fst (rhodium_chi_memory_init g scope i n base))"
| beat: "chi_step g (fst (rhodium_chi_memory_access g i n beat w a wd en rd))"
| freeze: "chi_step g (fst (freeze_memory_registrations g))"
| load: "e \<in> set (memories g) \<Longrightarrow> mem_write (stored g e) a bs = Inr m
    \<Longrightarrow> chi_step g (update_store g (storage e) m)"
| clear: "e \<in> set (memories g) \<Longrightarrow> mem_zero (stored g e) a c = Inr m
    \<Longrightarrow> chi_step g (update_store g (storage e) m)"

inductive chi_reachable :: "registrations \<Rightarrow> bool" where
  start: "chi_reachable no_registrations"
| step: "chi_reachable g \<Longrightarrow> chi_step g g' \<Longrightarrow> chi_reachable g'"

lemma registered_store:
  assumes "registry_wf g" "e \<in> set (memories g)"
  shows "stores g (storage e) = Some (stored g e)" "mem_wf (stored g e)"
proof -
  have "entry_ok g e" using assms by (simp add: registry_wf_def)
  then show "stores g (storage e) = Some (stored g e)"
    unfolding entry_ok_def stored_def by auto
  with assms(1) show "mem_wf (stored g e)" by (simp add: registry_wf_def)
qed

lemma init_state:
  "fst (rhodium_chi_memory_init g scope i n base)
    = fst (register_memory g i base n (case scope of None \<Rightarrow> [] | Some s \<Rightarrow> s))"
  by (simp add: rhodium_chi_memory_init_def split: prod.split sum.split)

lemma access_wf:
  assumes wf: "registry_wf g"
  shows "registry_wf (fst (rhodium_chi_memory_access g i n beat w a wd en rd))"
proof (cases "\<exists>v r k. wd = Some v \<and> rd = Some r \<and> supported_beat_bytes beat
    \<and> initialized_memory g i n = Inr k")
  case True
  then obtain v r k where k: "wd = Some v" "rd = Some r" "supported_beat_bytes beat"
    "initialized_memory g i n = Inr k" by blast
  obtain m where m: "stores g k = Some m" "mem_wf m"
    using wf k(4) by (rule initialized_memory_stored)
  show ?thesis
  proof (cases "in_bounds (mem_size m) (beat_base a beat) (unat beat)")
    case True
    from access_store_write [OF m True, of v en] access_store_read [OF m True, of v en] k m wf
    show ?thesis
      by (cases "w = 0") (auto simp: rhodium_chi_memory_access_def intro: update_store_wf)
  next
    case False
    with access_store_out [OF m False] k wf show ?thesis
      by (simp add: rhodium_chi_memory_access_def)
  qed
next
  case False
  with wf show ?thesis
    by (auto simp: rhodium_chi_memory_access_def split: option.splits sum.splits)
qed

lemma chi_step_wf: "chi_step g g' \<Longrightarrow> registry_wf g \<Longrightarrow> registry_wf g'"
proof (induction rule: chi_step.induct)
  case (init g scope i n base)
  then show ?case
    by (simp add: init_state register_memory_wf)
next
  case (beat g i n beat w a wd en rd)
  then show ?case by (intro access_wf)
next
  case (freeze g)
  then show ?case by (rule freeze_wf)
next
  case (load e g a bs m)
  with registered_store [of g e] chi.wr_InrD [of "stored g e" a bs m] show ?case
    by (auto intro: update_store_wf)
next
  case (clear e g a c m)
  with registered_store [of g e] chi.clr_InrD [of "stored g e" a c m] show ?case
    by (auto intro: update_store_wf)
qed

section \<open>Properties\<close>

text \<open>C5: in every state the DPI calls and the image loader can reach, the registered memories
  have distinct identities and owners, disjoint windows that do not wrap, and well-formed stores.\<close>

theorem chi_registrations_invariant: "chi_reachable g \<Longrightarrow> registry_wf g"
  by (induction rule: chi_reachable.induct) (auto simp: registry_wf_init intro: chi_step_wf)

theorem chi_registrations_invariant_witness:
  "\<exists>g. registry_wf g \<and> length (memories g) = 1"
proof -
  let ?g = "fst (rhodium_chi_memory_init no_registrations (Some ''ram'') 1 64 4096)"
  have "chi_reachable ?g"
    by (rule chi_reachable.step [OF chi_reachable.start chi_step.init])
  then have "registry_wf ?g" by (rule chi_registrations_invariant)
  moreover have "length (memories ?g) = 1"
    by (simp add: rhodium_chi_memory_init_def register_memory_def try_register_def
        no_registrations_def memory_of_def new_memory_def)
  ultimately show ?thesis by blast
qed

text \<open>C6: a beat write to an initialized model stores exactly the enabled lanes at the aligned
  beat address when the whole beat fits; otherwise it reports status 3 and changes nothing.\<close>

theorem chi_beat_write:
  fixes a :: u64
  assumes "registry_wf g" "supported_beat_bytes n" "initialized_memory g i cap = Inr k" "w \<noteq> 0"
  defines "b \<equiv> beat_base a n"
  shows "\<exists>m. stores g k = Some m \<and>
    (if in_bounds cap b (unat n)
     then \<exists>m'. rhodium_chi_memory_access g i cap n w a (Some wd) en (Some rd)
            = (update_store g k m', Some zero_words, 0)
          \<and> (\<forall>x. byte_at m' x = (if in_run b (unat n) x \<and> bit en (unat x - unat b)
                then packed_byte wd (unat x - unat b) else byte_at m x))
     else rhodium_chi_memory_access g i cap n w a (Some wd) en (Some rd) = (g, Some zero_words, 3))"
proof -
  obtain m where m: "stores g k = Some m" "mem_wf m" "mem_size m = cap"
    using assms(1,3) by (rule initialized_memory_stored)
  have step: "rhodium_chi_memory_access g i cap n w a (Some wd) en (Some rd)
    = (case access_store g k n True a wd en of (g', v, s) \<Rightarrow> (g', Some v, s))"
    using assms(2,3,4) by (simp add: rhodium_chi_memory_access_def)
  show ?thesis
  proof (cases "in_bounds cap b (unat n)")
    case True
    from access_store_write [OF m(1,2), of a n wd en] True m show ?thesis
      unfolding step by (force simp: b_def)
  next
    case False
    with access_store_out [OF m(1,2)] m show ?thesis unfolding step by (simp add: b_def)
  qed
qed

definition example_registry :: registrations where
  "example_registry = fst (rhodium_chi_memory_init no_registrations (Some ''ram'') 1 64 4096)"

lemma example_registry_wf:
  "registry_wf example_registry" "initialized_memory example_registry 1 64 = Inr 1"
proof -
  show "registry_wf example_registry"
    by (simp add: example_registry_def init_state register_memory_wf registry_wf_init)
  show "initialized_memory example_registry 1 64 = Inr 1"
    by (simp add: example_registry_def rhodium_chi_memory_init_def register_memory_def
        try_register_def no_registrations_def memory_of_def new_memory_def initialized_memory_def
        stored_def)
qed

theorem chi_beat_write_witness:
  "\<exists>g'. rhodium_chi_memory_access example_registry 1 64 16 1 20 (Some zero_words) 3 (Some zero_words)
    = (g', Some zero_words, 0)"
proof -
  have "beat_base 20 16 = 16"
    by (simp add: beat_base_def)
  then have "in_bounds 64 (beat_base 20 16) (unat (16::u8))"
    by (simp add: in_bounds_def)
  with chi_beat_write [OF example_registry_wf(1) _ example_registry_wf(2), of 16 1 20 zero_words 3 zero_words]
  show ?thesis by (auto simp: supported_beat_bytes_def)
qed

text \<open>a beat read returns every byte of the aligned beat in its lane with zeros above, and
  never changes a store.\<close>

theorem chi_beat_read:
  fixes a :: u64
  assumes "registry_wf g" "supported_beat_bytes n" "initialized_memory g i cap = Inr k"
  defines "b \<equiv> beat_base a n"
  shows "\<exists>m v s. stores g k = Some m
    \<and> rhodium_chi_memory_access g i cap n 0 a (Some wd) en (Some rd) = (g, Some v, s)
    \<and> s = (if in_bounds cap b (unat n) then 0 else 3)
    \<and> (\<forall>lane < 64. packed_byte v lane =
        (if s = 0 \<and> lane < unat n then byte_at m (b + of_nat lane) else 0))"
proof -
  obtain m where m: "stores g k = Some m" "mem_wf m" "mem_size m = cap"
    using assms(1,3) by (rule initialized_memory_stored)
  have step: "rhodium_chi_memory_access g i cap n 0 a (Some wd) en (Some rd)
    = (case access_store g k n False a wd en of (g', v, s) \<Rightarrow> (g', Some v, s))"
    using assms(2,3) by (simp add: rhodium_chi_memory_access_def)
  have le: "unat n \<le> 64" using supported_le_64 [OF assms(2)] by simp
  show ?thesis
  proof (cases "in_bounds cap b (unat n)")
    case True
    with access_store_read [OF m(1,2)] m le show ?thesis
      unfolding step by (auto simp: b_def read_lanes_packed)
  next
    case False
    with access_store_out [OF m(1,2)] m show ?thesis unfolding step by (simp add: b_def)
  qed
qed

theorem chi_beat_read_witness:
  "\<exists>v. rhodium_chi_memory_access example_registry 1 64 16 0 20 (Some zero_words) 0 (Some zero_words)
    = (example_registry, Some v, 0)"
proof -
  have "beat_base 20 16 = 16"
    by (simp add: beat_base_def)
  then have "in_bounds 64 (beat_base 20 16) (unat (16::u8))"
    by (simp add: in_bounds_def)
  with chi_beat_read [OF example_registry_wf(1) _ example_registry_wf(2), of 16 20 zero_words 0 zero_words]
  show ?thesis by (auto simp: supported_beat_bytes_def)
qed



end
