(* ===== verification/Image_Memory.thy ===== *)
theory Image_Memory
  imports Prelude
begin

text \<open>
  The map from physical ranges to native byte stores of \<open>sims/fesvr/image_memory.h\<close>. A region's
  callbacks are optional functions on the state \<open>'s\<close> the native stores live in; \<open>None\<close> is an
  empty \<open>std::function\<close>. Regions are kept sorted by base address.
\<close>

section \<open>Regions and the map\<close>

datatype image_error =
    Registrations_frozen              \<comment> \<open>image memory registrations are frozen\<close>
  | Invalid_region                    \<comment> \<open>invalid image memory region\<close>
  | Duplicate_or_overlapping_regions  \<comment> \<open>duplicate or overlapping image memory regions\<close>

record ('s, 'e) image_region =
  region_name :: string
  region_base :: u64
  region_size :: u64
  storage_size :: u64
  region_offset :: u64
  region_read :: "('s \<Rightarrow> u64 \<Rightarrow> nat \<Rightarrow> 'e + u8 list) option"
  region_write :: "('s \<Rightarrow> u64 \<Rightarrow> u8 list \<Rightarrow> 's \<times> ('e + unit)) option"
  region_zero :: "('s \<Rightarrow> u64 \<Rightarrow> nat \<Rightarrow> 's \<times> ('e + unit)) option"

record ('s, 'e) image_map =
  map_frozen :: bool
  regions :: "('s, 'e) image_region list"

definition empty_image_map :: "('s, 'e) image_map" where
  "empty_image_map = \<lparr>map_frozen = False, regions = []\<rparr>"

definition region_invalid :: "('s, 'e) image_region \<Rightarrow> bool" where
  "region_invalid r \<longleftrightarrow> region_name r = [] \<or> region_size r = 0
     \<or> region_base r > - 1 - (region_size r - 1)
     \<or> region_offset r > storage_size r \<or> region_size r > storage_size r - region_offset r
     \<or> region_read r = None \<or> region_write r = None \<or> region_zero r = None"

definition region_conflict :: "('s, 'e) image_region \<Rightarrow> ('s, 'e) image_region \<Rightarrow> bool" where
  "region_conflict r d \<longleftrightarrow> region_name r = region_name d
     \<or> (region_base r \<le> region_base d + region_size d - 1
        \<and> region_base d \<le> region_base r + region_size r - 1)"

definition image_add :: "('s, 'e) image_map \<Rightarrow> ('s, 'e) image_region \<Rightarrow> image_error + ('s, 'e) image_map" where
  "image_add m r =
     (if map_frozen m then Inl Registrations_frozen
      else if region_invalid r then Inl Invalid_region
      else if \<exists>d\<in>set (regions m). region_conflict r d then Inl Duplicate_or_overlapping_regions
      else Inr (m\<lparr>regions := sort_key region_base (regions m @ [r])\<rparr>))"

definition image_freeze :: "('s, 'e) image_map \<Rightarrow> ('s, 'e) image_map" where
  "image_freeze m = m\<lparr>map_frozen := True\<rparr>"

definition image_empty :: "('s, 'e) image_map \<Rightarrow> bool" where
  "image_empty m \<longleftrightarrow> regions m = []"

record ('s, 'e) segment =
  seg_region :: "('s, 'e) image_region option"
  seg_offset :: u64
  seg_length :: nat

fun find_segment :: "('s, 'e) image_region list \<Rightarrow> u64 \<Rightarrow> nat \<Rightarrow> ('s, 'e) segment" where
  "find_segment [] address len = \<lparr>seg_region = None, seg_offset = 0, seg_length = len\<rparr>"
| "find_segment (r # rs) address len =
     (if address < region_base r
      then \<lparr>seg_region = None, seg_offset = 0, seg_length = min len (unat (region_base r - address))\<rparr>
      else let relative = address - region_base r
           in if relative < region_size r
              then \<lparr>seg_region = Some r, seg_offset = region_offset r + relative,
                    seg_length = min len (unat (region_size r - relative))\<rparr>
              else find_segment rs address len)"

definition image_segment :: "('s, 'e) image_map \<Rightarrow> u64 \<Rightarrow> nat \<Rightarrow> ('s, 'e) segment" where
  "image_segment m address len = find_segment (regions m) address len"

section \<open>Invariant\<close>

definition region_ok :: "('s, 'e) image_region \<Rightarrow> bool" where
  "region_ok r \<longleftrightarrow> region_name r \<noteq> [] \<and> window_ok (region_base r) (region_size r)
     \<and> unat (region_offset r) + unat (region_size r) \<le> unat (storage_size r)
     \<and> region_read r \<noteq> None \<and> region_write r \<noteq> None \<and> region_zero r \<noteq> None"

text \<open>One region ends before the next begins.\<close>

definition region_before :: "('s, 'e) image_region \<Rightarrow> ('s, 'e) image_region \<Rightarrow> bool" where
  "region_before r d \<longleftrightarrow> unat (region_base r) + unat (region_size r) \<le> unat (region_base d)
     \<and> region_name r \<noteq> region_name d"

definition image_wf :: "('s, 'e) image_map \<Rightarrow> bool" where
  "image_wf m \<longleftrightarrow> (\<forall>r\<in>set (regions m). region_ok r) \<and> sorted_wrt region_before (regions m)"

lemma image_wf_empty [simp]: "image_wf empty_image_map"
  by (simp add: image_wf_def empty_image_map_def)

lemma region_invalid_iff: "region_invalid r \<longleftrightarrow> \<not> region_ok r"
proof (cases "region_size r = 0")
  case True
  then show ?thesis by (simp add: region_invalid_def region_ok_def window_ok_def)
next
  case False
  have "unat (region_offset r) + unat (region_size r) \<le> unat (storage_size r)
    \<longleftrightarrow> \<not> (region_offset r > storage_size r \<or> region_size r > storage_size r - region_offset r)"
    by (cases "region_offset r \<le> storage_size r")
      (auto simp: word_less_unat_iff word_le_unat_iff unat_sub_le)
  with False window_ok_check [OF False] show ?thesis
    by (auto simp: region_invalid_def region_ok_def)
qed

definition regions_apart :: "('s, 'e) image_region \<Rightarrow> ('s, 'e) image_region \<Rightarrow> bool" where
  "regions_apart r d \<longleftrightarrow> region_name r \<noteq> region_name d
     \<and> windows_apart (region_base r) (region_size r) (region_base d) (region_size d)"

lemma region_conflict_iff:
  "region_ok r \<Longrightarrow> region_ok d \<Longrightarrow> region_conflict r d \<longleftrightarrow> \<not> regions_apart r d"
  using windows_overlap_check [of "region_base r" "region_size r" "region_base d" "region_size d"]
  by (auto simp: region_conflict_def regions_apart_def region_ok_def)

lemma region_before_apart:
  "region_ok r \<Longrightarrow> region_ok d \<Longrightarrow> regions_apart r d \<Longrightarrow> region_base r \<le> region_base d \<Longrightarrow> region_before r d"
  by (auto simp: region_before_def regions_apart_def windows_apart_def region_ok_def window_ok_def
      word_le_unat_iff unat_gt_0 dest: unat_gt_0 [THEN iffD2])

lemma image_add_wf:
  assumes "image_wf m" "image_add m r = Inr m'"
  shows "image_wf m'" "set (regions m') = insert r (set (regions m))" "map_frozen m' = map_frozen m"
proof -
  let ?rs = "regions m @ [r]" let ?ss = "sort_key region_base ?rs"
  have m': "m' = m\<lparr>regions := ?ss\<rparr>" and r: "region_ok r"
    and new: "\<forall>d\<in>set (regions m). \<not> region_conflict r d"
    using assms(2) by (auto simp: image_add_def region_invalid_iff split: if_splits)
  then show sets: "set (regions m') = insert r (set (regions m))" "map_frozen m' = map_frozen m"
    by auto
  have ok: "\<forall>d\<in>set ?ss. region_ok d"
    using assms(1) r by (auto simp: image_wf_def)
  have "regions_apart a b" if "region_before a b" for a b :: "('a, 'b) image_region"
    using that by (auto simp: region_before_def regions_apart_def windows_apart_def)
  then have "sorted_wrt regions_apart (regions m)"
    using assms(1) by (auto simp: image_wf_def intro: sorted_wrt_mono_rel [of _ region_before])
  moreover have "regions_apart d r" if "d \<in> set (regions m)" for d
    using that new r assms(1) region_conflict_iff [of r d]
    by (auto simp: image_wf_def regions_apart_def windows_apart_def)
  ultimately have "sorted_wrt regions_apart ?rs"
    by (simp add: sorted_wrt_append)
  then have "sorted_wrt regions_apart ?ss"
    by (rule sorted_wrt_mset [rotated]) (auto simp: regions_apart_def windows_apart_def)
  moreover have "sorted_wrt (\<lambda>a b. region_base a \<le> region_base b) ?ss"
    using sorted_sort_key [of region_base ?rs] by (simp add: sorted_map)
  ultimately have "sorted_wrt (\<lambda>a b. regions_apart a b \<and> region_base a \<le> region_base b) ?ss"
    by (simp only: sorted_wrt_conj)
  then have "sorted_wrt region_before ?ss"
  proof (rule sorted_wrt_mono_rel [rotated])
    fix a b assume "a \<in> set ?ss" "b \<in> set ?ss" "regions_apart a b \<and> region_base a \<le> region_base b"
    with ok show "region_before a b" by (blast intro: region_before_apart)
  qed
  with ok m' show "image_wf m'" by (simp add: image_wf_def)
qed

section \<open>Segments\<close>

text \<open>What a segment promises about the addresses it stands for.\<close>

definition in_region :: "('s, 'e) image_region \<Rightarrow> u64 \<Rightarrow> bool" where
  "in_region r x \<longleftrightarrow> in_run (region_base r) (unat (region_size r)) x"

definition segment_ok :: "('s, 'e) image_region list \<Rightarrow> u64 \<Rightarrow> nat \<Rightarrow> ('s, 'e) segment \<Rightarrow> bool" where
  "segment_ok rs a n s \<longleftrightarrow> seg_length s \<le> n \<and> (0 < n \<longrightarrow> 0 < seg_length s) \<and>
     (case seg_region s of
        None \<Rightarrow> \<forall>r\<in>set rs. \<forall>x. in_run a (seg_length s) x \<longrightarrow> \<not> in_region r x
      | Some r \<Rightarrow> r \<in> set rs \<and> unat (region_base r) \<le> unat a
          \<and> unat a + seg_length s \<le> unat (region_base r) + unat (region_size r)
          \<and> unat (seg_offset s) = unat (region_offset r) + (unat a - unat (region_base r))
          \<and> unat (seg_offset s) + seg_length s \<le> unat (storage_size r))"

lemma find_segment_ok:
  "\<forall>r\<in>set rs. region_ok r \<Longrightarrow> sorted_wrt region_before rs \<Longrightarrow> segment_ok rs a n (find_segment rs a n)"
proof (induction rs)
  case Nil
  show ?case by (simp add: segment_ok_def)
next
  case (Cons r rs)
  have ok: "region_ok r" using Cons.prems(1) by simp
  consider (gap) "a < region_base r"
    | (inside) "region_base r \<le> a" "a - region_base r < region_size r"
    | (after) "region_base r \<le> a" "\<not> a - region_base r < region_size r"
    by fastforce
  then show ?case
  proof cases
    case gap
    then have "unat (region_base r) \<le> unat (region_base d)" if "d \<in> set rs" for d
      using Cons.prems that by (auto simp: region_before_def)
    with gap show ?thesis
      by (fastforce simp: segment_ok_def in_region_def in_run_def word_less_unat_iff
          word_le_unat_iff unat_sub_le)
  next
    case inside
    let ?d = "unat a - unat (region_base r)"
    have d: "unat (a - region_base r) = ?d" "?d < unat (region_size r)"
      using inside by (simp_all add: unat_sub_le word_less_unat_iff)
    have "unat (region_offset r + (a - region_base r)) = unat (region_offset r) + ?d"
      using ok d unat_lt64 [of "storage_size r"]
      by (subst unat_add_no_wrap) (auto simp: region_ok_def)
    moreover have "unat (region_size r - (a - region_base r)) = unat (region_size r) - ?d"
      using d by (subst unat_sub_le) (auto simp: word_le_unat_iff)
    ultimately show ?thesis
      using inside d ok by (auto simp: segment_ok_def word_less_unat_iff word_le_unat_iff region_ok_def)
  next
    case after
    then have "\<not> in_region r x" if "in_run a k x" for k x
      using that by (auto simp: in_region_def in_run_def word_less_unat_iff word_le_unat_iff unat_sub_le)
    moreover have "segment_ok rs a n (find_segment rs a n)"
      using Cons by simp
    ultimately show ?thesis
      using after by (auto simp: segment_ok_def not_less [symmetric] split: option.split)
  qed
qed

section \<open>Properties\<close>

text \<open>C8: looking an address range up yields a non-empty prefix of it that lies wholly inside
  one registered region, with the storage offset of its first byte and in the bounds of that
  storage, or that meets no registered region at all.\<close>

theorem image_segment_correct:
  assumes "image_wf m"
  shows "segment_ok (regions m) address len (image_segment m address len)"
  using assms find_segment_ok [of "regions m" address len] by (simp add: image_wf_def image_segment_def)

definition example_image_map :: "(unit, unit) image_map" where
  "example_image_map = \<lparr>map_frozen = False, regions =
     [\<lparr>region_name = ''ram'', region_base = 4096, region_size = 64, storage_size = 64, region_offset = 0,
       region_read = Some (\<lambda>_ _ n. Inr (replicate n 0)), region_write = Some (\<lambda>_ _ _. ((), Inr ())),
       region_zero = Some (\<lambda>_ _ _. ((), Inr ()))\<rparr>]\<rparr>"

theorem image_segment_correct_witness:
  "segment_ok (regions example_image_map) 4150 32 (image_segment example_image_map 4150 32)
    \<and> seg_length (image_segment example_image_map 4150 32) = 10
    \<and> seg_offset (image_segment example_image_map 4150 32) = 54"
proof -
  have "image_wf example_image_map"
    by (simp add: example_image_map_def image_wf_def region_ok_def window_ok_def)
  from image_segment_correct [OF this, of 4150 32] show ?thesis
    by (simp add: example_image_map_def image_segment_def Let_def)
qed

end
