(* ===== verification/Chi_Image.thy ===== *)
theory Chi_Image
  imports Chi_Dpi Image_Memory
begin

text \<open>
  \<open>sims/verilator/chi_image_memory.h\<close> and \<open>image_memory_map.cc\<close>: every registered CHI memory
  becomes an image region whose callbacks reach the store through its pointer. The state the
  callbacks act on is the registration table.
\<close>

definition chi_region :: "registrations \<Rightarrow> registered_memory \<Rightarrow> (registrations, memory_error) image_region" where
  "chi_region g e =
     (let n = stored_size g e; k = storage e
      in \<lparr>region_name = owner e, region_base = reg_base e, region_size = n, storage_size = n,
          region_offset = 0,
          region_read = Some (\<lambda>s offset len. mem_read (the (stores s k)) offset len),
          region_write = Some (\<lambda>s offset bytes.
            case mem_write (the (stores s k)) offset bytes of
              Inl x \<Rightarrow> (s, Inl x) | Inr m \<Rightarrow> (update_store s k m, Inr ())),
          region_zero = Some (\<lambda>s offset len.
            case mem_zero (the (stores s k)) offset (of_nat len) of
              Inl x \<Rightarrow> (s, Inl x) | Inr m \<Rightarrow> (update_store s k m, Inr ()))\<rparr>)"

fun add_regions :: "registrations \<Rightarrow> (registrations, memory_error) image_map \<Rightarrow> registered_memory list
    \<Rightarrow> image_error + (registrations, memory_error) image_map" where
  "add_regions g m [] = Inr m"
| "add_regions g m (e # es) =
     bind_result (image_add m (chi_region g e)) (\<lambda>m'. add_regions g m' es)"

text \<open>The registration errors of the freeze, or the map.\<close>

definition chi_image_memory_map :: "registrations
    \<Rightarrow> registrations \<times> ((registry_error + image_error) + (registrations, memory_error) image_map)" where
  "chi_image_memory_map g =
     (case freeze_memory_registrations g of
        (g', Inl e) \<Rightarrow> (g', Inl (Inl e))
      | (g', Inr es) \<Rightarrow>
          (g', case add_regions g' empty_image_map es of Inl e \<Rightarrow> Inl (Inr e) | Inr m \<Rightarrow> Inr m))"

text \<open>The build option \<open>RHODIUM_CHI_MEMORY\<close> selects the native backend.\<close>

definition make_image_memory_map :: "bool \<Rightarrow> registrations
    \<Rightarrow> registrations \<times> ((registry_error + image_error) + (registrations, memory_error) image_map)" where
  "make_image_memory_map rhodium_chi_memory g =
     (if rhodium_chi_memory then chi_image_memory_map g else (g, Inr empty_image_map))"

section \<open>Every consistent registry makes a map\<close>

lemma chi_region_ok: "entry_ok g e \<Longrightarrow> region_ok (chi_region g e)"
  by (simp add: entry_ok_def region_ok_def chi_region_def Let_def)

lemma chi_region_apart:
  "entries_apart g d e \<Longrightarrow> regions_apart (chi_region g d) (chi_region g e)"
  by (simp add: entries_apart_def regions_apart_def chi_region_def Let_def)

lemma add_regions_ok:
  assumes "image_wf m" "\<not> map_frozen m" "\<forall>e\<in>set es. entry_ok g e" "sorted_wrt (entries_apart g) es"
    and "\<forall>r\<in>set (regions m). \<forall>e\<in>set es. regions_apart r (chi_region g e)"
  shows "\<exists>m'. add_regions g m es = Inr m' \<and> image_wf m' \<and> \<not> map_frozen m'
    \<and> set (regions m') = set (regions m) \<union> chi_region g ` set es"
  using assms
proof (induction es arbitrary: m)
  case (Cons e es)
  let ?r = "chi_region g e"
  have r: "region_ok ?r" using Cons.prems(3) by (simp add: chi_region_ok)
  have "\<not> region_conflict ?r d" if "d \<in> set (regions m)" for d
    using that Cons.prems(1,5) region_conflict_iff [OF r, of d]
    by (auto simp: image_wf_def regions_apart_def windows_apart_def)
  then obtain m1 where m1: "image_add m ?r = Inr m1"
    using Cons.prems(2) r by (simp add: image_add_def region_invalid_iff)
  note w = image_add_wf [OF Cons.prems(1) m1]
  have "\<exists>m'. add_regions g m1 es = Inr m' \<and> image_wf m' \<and> \<not> map_frozen m'
    \<and> set (regions m') = set (regions m1) \<union> chi_region g ` set es"
    using Cons.prems w by (intro Cons.IH) (auto simp: chi_region_apart)
  with m1 w(2) show ?case by auto
qed auto

lemma chi_image_memory_map_wf:
  assumes "registry_wf g" "reg_error g = None"
  obtains m where "chi_image_memory_map g = (g\<lparr>frozen := True\<rparr>, Inr m)" "image_wf m"
    "\<not> map_frozen m" "set (regions m) = chi_region (g\<lparr>frozen := True\<rparr>) ` set (memories g)"
proof -
  let ?g = "g\<lparr>frozen := True\<rparr>"
  have f: "freeze_memory_registrations g = (?g, Inr (memories g))"
    using assms(2) by (simp add: freeze_memory_registrations_def)
  have "registry_wf ?g" using freeze_wf [OF assms(1)] f by simp
  then obtain m where "add_regions ?g empty_image_map (memories g) = Inr m" "image_wf m"
    "\<not> map_frozen m" "set (regions m) = chi_region ?g ` set (memories g)"
    using add_regions_ok [of empty_image_map "memories g" ?g]
    by (auto simp: registry_wf_def empty_image_map_def image_wf_def)
  with f that show thesis by (simp add: chi_image_memory_map_def)
qed

section \<open>Properties\<close>

text \<open>C9: from every reachable registration table without an error the image map is built without
  a region error, its regions are exactly the registered memories, and the table is frozen; with
  an error the construction reports it.\<close>

theorem chi_image_map_total:
  assumes "chi_reachable g"
  shows "case reg_error g of
      Some e \<Rightarrow> chi_image_memory_map g = (g, Inl (Inl e))
    | None \<Rightarrow> \<exists>m. chi_image_memory_map g = (g\<lparr>frozen := True\<rparr>, Inr m) \<and> image_wf m
        \<and> set (regions m) = chi_region (g\<lparr>frozen := True\<rparr>) ` set (memories g)"
proof (cases "reg_error g")
  case None
  have "registry_wf g"
    using assms by (induction rule: chi_reachable.induct) (auto simp: registry_wf_init intro: chi_step_wf)
  with None show ?thesis
    by (auto elim: chi_image_memory_map_wf [of g])
next
  case (Some e)
  then show ?thesis by (simp add: chi_image_memory_map_def freeze_memory_registrations_def)
qed

theorem chi_image_map_total_witness:
  "\<exists>m r. chi_image_memory_map example_registry = (example_registry\<lparr>frozen := True\<rparr>, Inr m)
    \<and> set (regions m) = {r} \<and> region_name r = ''ram''"
proof -
  have g: "example_registry = no_registrations\<lparr>
      memories := [\<lparr>model_id = 1, reg_base = 4096, owner = ''ram'', storage = 1\<rparr>],
      stores := [1 \<mapsto> \<lparr>mem_size = 64, mem_pages = Map.empty\<rparr>]\<rparr>"
    by (simp add: example_registry_def rhodium_chi_memory_init_def register_memory_def
        try_register_def no_registrations_def memory_of_def new_memory_def)
  have "chi_reachable example_registry"
    unfolding example_registry_def by (rule chi_reachable.step [OF chi_reachable.start chi_step.init])
  moreover have "reg_error example_registry = None" "length (memories example_registry) = 1"
    "map owner (memories example_registry) = [''ram'']"
    by (simp_all add: g no_registrations_def)
  ultimately obtain m where m: "chi_image_memory_map example_registry = (example_registry\<lparr>frozen := True\<rparr>, Inr m)"
    "set (regions m) = chi_region (example_registry\<lparr>frozen := True\<rparr>) ` set (memories example_registry)"
    using chi_image_map_total [of example_registry] by auto
  obtain e where "memories example_registry = [e]" "owner e = ''ram''"
    by (simp add: g)
  then have "set (regions m) = {chi_region (example_registry\<lparr>frozen := True\<rparr>) e}"
    "region_name (chi_region (example_registry\<lparr>frozen := True\<rparr>) e) = ''ram''"
    using m(2) by (simp_all add: chi_region_def Let_def)
  with m(1) show ?thesis by blast
qed

end
