(* ===== verification/Ordered.thy ===== *)
theory Ordered
  imports Prelude "HOL-Library.Product_Lexorder"
begin

text \<open>
  \<open>std::map\<close> and \<open>std::set\<close> as lists in strictly increasing key order: iteration is the list,
  a lookup and an update are recursions. The locale \<open>ordered_container\<close> is what the components
  rely on: the lookup laws of a finite map and that two containers with the same lookups are
  equal, which is what makes results independent of the order of insertions.
\<close>

section \<open>Operations\<close>

fun om_find :: "('k::linorder \<times> 'v) list \<Rightarrow> 'k \<Rightarrow> 'v option" where
  "om_find [] k = None"
| "om_find ((a, b) # m) k = (if k = a then Some b else om_find m k)"

fun om_put :: "'k::linorder \<Rightarrow> 'v \<Rightarrow> ('k \<times> 'v) list \<Rightarrow> ('k \<times> 'v) list" where
  "om_put k v [] = [(k, v)]"
| "om_put k v ((a, b) # m) =
     (if k < a then (k, v) # (a, b) # m
      else if a < k then (a, b) # om_put k v m
      else (k, v) # m)"

definition om_erase :: "'k::linorder \<Rightarrow> ('k \<times> 'v) list \<Rightarrow> ('k \<times> 'v) list" where
  "om_erase k m = filter (\<lambda>e. fst e \<noteq> k) m"

definition om_wf :: "('k::linorder \<times> 'v) list \<Rightarrow> bool" where
  "om_wf m \<longleftrightarrow> sorted_wrt (<) (map fst m)"

text \<open>\<open>count(k)\<close>.\<close>

abbreviation om_has :: "('k::linorder \<times> 'v) list \<Rightarrow> 'k \<Rightarrow> bool" where
  "om_has m k \<equiv> om_find m k \<noteq> None"

fun os_insert :: "'k::linorder \<Rightarrow> 'k list \<Rightarrow> 'k list" where
  "os_insert k [] = [k]"
| "os_insert k (a # s) =
     (if k < a then k # a # s else if a < k then a # os_insert k s else a # s)"

abbreviation os_wf :: "'k::linorder list \<Rightarrow> bool" where
  "os_wf s \<equiv> sorted_wrt (<) s"

section \<open>Laws\<close>

lemma om_wf_simps [simp]:
  "om_wf []"
  "om_wf ((a, b) # m) \<longleftrightarrow> om_wf m \<and> (\<forall>e\<in>set m. a < fst e)"
  by (auto simp: om_wf_def)

lemma om_find_in: "om_find m k = Some v \<Longrightarrow> (k, v) \<in> set m"
  by (induction m k rule: om_find.induct) (auto split: if_splits)

lemma om_find_iff: "om_wf m \<Longrightarrow> om_find m k = Some v \<longleftrightarrow> (k, v) \<in> set m"
proof (induction m)
  case (Cons e m)
  then show ?case by (cases e) (auto dest: om_find_in)
qed simp

lemma om_find_None: "om_find m k = None \<longleftrightarrow> k \<notin> fst ` set m"
  by (induction m k rule: om_find.induct) auto

lemma om_find_put: "om_wf m \<Longrightarrow> om_find (om_put k v m) j = (if j = k then Some v else om_find m j)"
proof (induction k v m rule: om_put.induct)
  case (2 k v a b m)
  have "om_find m k = None" if "k < a"
    using that 2(2) by (auto simp: om_find_None)
  with 2 show ?case by auto
qed simp

lemma set_om_put: "set (om_put k v m) \<subseteq> insert (k, v) (set m)"
  by (induction k v m rule: om_put.induct) auto

lemma om_wf_put: "om_wf m \<Longrightarrow> om_wf (om_put k v m)"
proof (induction k v m rule: om_put.induct)
  case (2 k v a b m)
  then show ?case using set_om_put [of k v m] by (fastforce simp: not_less)
qed simp

lemma om_wf_erase: "om_wf m \<Longrightarrow> om_wf (om_erase k m)"
  unfolding om_wf_def om_erase_def sorted_wrt_map by (rule sorted_wrt_filter)

lemma om_find_erase: "om_find (om_erase k m) j = (if j = k then None else om_find m j)"
  unfolding om_erase_def by (induction m) (auto split: prod.splits)

lemma sorted_set_unique:
  fixes xs ys :: "'a::linorder list"
  shows "sorted_wrt (<) xs \<Longrightarrow> sorted_wrt (<) ys \<Longrightarrow> set xs = set ys \<Longrightarrow> xs = ys"
  by (rule sorted_distinct_set_unique) (auto simp: strict_sorted_iff)

lemma om_ext:
  assumes "om_wf m" "om_wf n" "\<And>k. om_find m k = om_find n k"
  shows "m = n"
proof (rule map_sorted_distinct_set_unique [of fst])
  show sets: "set m = set n"
    using assms(3) om_find_iff [OF assms(1)] om_find_iff [OF assms(2)] by auto
  show "inj_on fst (set m \<union> set n)"
  proof (rule inj_onI)
    fix x y assume "x \<in> set m \<union> set n" "y \<in> set m \<union> set n" "fst x = fst y"
    moreover from this have "om_find m (fst x) = Some (snd x)" "om_find m (fst y) = Some (snd y)"
      using sets om_find_iff [OF assms(1), of "fst x" "snd x"]
        om_find_iff [OF assms(1), of "fst y" "snd y"]
      unfolding prod.collapse by blast+
    ultimately show "x = y" by (simp add: prod_eq_iff)
  qed
qed (use assms in \<open>auto simp: om_wf_def strict_sorted_iff\<close>)

lemma set_os_insert [simp]: "set (os_insert k s) = insert k (set s)"
  by (induction k s rule: os_insert.induct) auto

lemma os_wf_insert [simp]: "os_wf s \<Longrightarrow> os_wf (os_insert k s)"
  by (induction k s rule: os_insert.induct) auto

section \<open>The contract of an ordered map\<close>

locale ordered_container =
  fixes find :: "'m \<Rightarrow> 'k \<Rightarrow> 'v option"
    and put :: "'k \<Rightarrow> 'v \<Rightarrow> 'm \<Rightarrow> 'm"
    and wf :: "'m \<Rightarrow> bool"
  assumes find_put: "wf m \<Longrightarrow> find (put k v m) j = (if j = k then Some v else find m j)"
    and wf_put: "wf m \<Longrightarrow> wf (put k v m)"
    and canonical: "wf m \<Longrightarrow> wf n \<Longrightarrow> (\<And>k. find m k = find n k) \<Longrightarrow> m = n"
begin

lemma put_commute:
  "wf m \<Longrightarrow> j \<noteq> k \<Longrightarrow> put j w (put k v m) = put k v (put j w m)"
  by (rule canonical) (auto simp: find_put wf_put)

lemma put_again: "wf m \<Longrightarrow> put k w (put k v m) = put k w m"
  by (rule canonical) (auto simp: find_put wf_put)

lemma put_found: "wf m \<Longrightarrow> find m k = Some v \<Longrightarrow> put k v m = m"
  by (rule canonical) (auto simp: find_put wf_put)

end

interpretation om: ordered_container om_find om_put om_wf
  by unfold_locales (auto simp: om_find_put om_wf_put intro: om_ext)

text \<open>A set is a map to units: its insertions commute and repeat without effect.\<close>

lemma os_ext: "os_wf s \<Longrightarrow> os_wf t \<Longrightarrow> set s = set t \<Longrightarrow> s = t"
  by (rule sorted_set_unique)

lemma os_insert_commute: "os_wf s \<Longrightarrow> os_insert j (os_insert k s) = os_insert k (os_insert j s)"
  by (rule os_ext) auto

lemma os_insert_member: "os_wf s \<Longrightarrow> k \<in> set s \<Longrightarrow> os_insert k s = s"
  by (rule os_ext) auto

end
