(* ===== verification/Rheg_Types.thy ===== *)
theory Rheg_Types
  imports Ordered
begin

text \<open>
  The data of \<open>rheg/runtime/rheg.h\<close>: references, nodes, capture fields, manifests and timing.
  The struct \<open>Ref\<close> is ordered by site, then sequence, as its \<open>operator<\<close> says.
\<close>

section \<open>References\<close>

datatype ref = Ref (site: u32) (sequence: u64)

instantiation ref :: linorder
begin

definition less_eq_ref :: "ref \<Rightarrow> ref \<Rightarrow> bool" where
  "less_eq_ref a b \<longleftrightarrow> (site a, sequence a) \<le> (site b, sequence b)"

definition less_ref :: "ref \<Rightarrow> ref \<Rightarrow> bool" where
  "less_ref a b \<longleftrightarrow> (site a, sequence a) < (site b, sequence b)"

instance
  by standard (auto simp: less_eq_ref_def less_ref_def less_eq_prod_simp less_prod_simp
      intro: ref.expand)

end

section \<open>Errors\<close>

datatype rheg_error =
    Capture_site_count_mismatch
  | Bad_field_name
  | Reserved_field_name string
  | Field_name_not_identifier
  | Invalid_field_layout
  | Unsupported_encoding
  | Enum_needs_symbols
  | Bad_enum_symbol
  | Symbols_require_enum
  | Label_not_unique
  | Invalid_riscv
  | Invalid_riscv_pc
  | Isa_requires_riscv
  | Bool_not_one_bit
  | Incomplete_layout
  | Field_outside_node
  | Out_of_range                \<comment> \<open>\<open>std::out_of_range\<close> of \<open>at()\<close>\<close>
  | Exceeds_64_bits
  | No_capture_schema
  | Unknown_field string
  | End_stream_before_clear
  | Stream_requires_empty
  | Stream_requires_timing
  | No_active_stream
  | Finish_before_end
  | Cycle_must_increase
  | Incomplete_node
  | Node_outside_interval
  | Edge_child_streamed
  | Timing_bound_once
  | Frequency_not_positive
  | Manifest_bound_once
  | Invalid_descriptor
  | Dependency_unknown_site
  | Unknown_manifest_site u32
  | Payload_width_differs u32
  | Missing_payload_word
  | Nonzero_padding
  | Edge_without_node
  | Edge_not_permitted u32 u32
  | Parent_after_child
  | Snapshot_requires_manifest
  | Node_cycle_streamed
  | Duplicate_identity
  | Payload_node_streamed
  | Duplicate_payload_word
  | End_stream_before_reset
  | Epoch_exhausted

section \<open>Nodes, fields, manifests\<close>

record node =
  present :: bool
  cycle :: u64
  width :: u32
  words :: "(u32 \<times> u32) list"

definition new_node :: node where
  "new_node = \<lparr>present = False, cycle = 0, width = 0, words = []\<rparr>"

record field =
  fname :: string
  fwidth :: u32
  foffset :: u32
  encoding :: string
  isa :: string
  pc :: string
  symbols :: "(u64 \<times> string) list"
  label :: bool

record manifest =
  mjson :: string
  payload_widths :: "u32 list"
  dependencies :: "(u32 \<times> u32) list"
  mfields :: "field list list"

record trace_timing =
  clock_frequency_hz :: u64
  epoch_id :: u64

type_synonym edge = "ref \<times> ref"

end
