(* ===== verification/Rheg_Capture.thy ===== *)
theory Rheg_Capture
  imports Rheg_Types
begin

unbundle bit_operations_syntax

text \<open>
  \<open>capture_field\<close> and the accessors of \<open>FieldValue\<close> in \<open>rheg/runtime/rheg.cc\<close>: the bits of a
  field are gathered from the 32-bit payload words of a node, and rendered as fixed-width
  hexadecimal, as an exact decimal of any width, or as a 64-bit integer.
\<close>

section \<open>Gathering the bits of a field\<close>

record field_value =
  fv_width :: u32
  fv_encoding :: string
  fv_words :: "u32 list"

text \<open>
  One iteration: the word at \<open>start / 32\<close> shifted down, completed from the next word when the
  field crosses it, and cut to \<open>amount\<close> bits. \<open>at()\<close> on a missing word throws.
\<close>

definition word_at :: "node \<Rightarrow> nat \<Rightarrow> rheg_error + u64" where
  "word_at n i = (case om_find (words n) (of_nat i) of None \<Rightarrow> Inl Out_of_range | Some w \<Rightarrow> Inr (ucast w))"

definition capture_word :: "node \<Rightarrow> nat \<Rightarrow> nat \<Rightarrow> nat \<Rightarrow> rheg_error + u32" where
  "capture_word n offset w b =
     (let start = offset + b; shift = start mod 32; amount = min 32 (w - b)
      in bind_result (word_at n (start div 32)) (\<lambda>low.
         bind_result
           (if shift \<noteq> 0 \<and> amount > 32 - shift
            then bind_result (word_at n (start div 32 + 1)) (\<lambda>high.
              Inr (drop_bit shift low OR push_bit (32 - shift) high))
            else Inr (drop_bit shift low)) (\<lambda>word.
         Inr (ucast (if amount < 32 then word AND (push_bit amount 1 - 1) else word)))))"

function capture_words :: "node \<Rightarrow> nat \<Rightarrow> nat \<Rightarrow> nat \<Rightarrow> rheg_error + u32 list" where
  "capture_words n offset w b =
     (if b < w then
        bind_result (capture_word n offset w b) (\<lambda>x.
        bind_result (capture_words n offset w (b + 32)) (\<lambda>xs. Inr (x # xs)))
      else Inr [])"
  by pat_completeness auto
termination
  by (relation "measure (\<lambda>(n, offset, w, b). w - b)") auto

declare capture_words.simps [simp del]

definition capture_field :: "node \<Rightarrow> field \<Rightarrow> rheg_error + field_value" where
  "capture_field n f =
     (if \<not> present n \<or> fwidth f = 0 \<or> unat (foffset f) + unat (fwidth f) > unat (width n)
      then Inl Field_outside_node
      else bind_result (capture_words n (unat (foffset f)) (unat (fwidth f)) 0) (\<lambda>ws.
        Inr \<lparr>fv_width = fwidth f, fv_encoding = encoding f, fv_words = ws\<rparr>))"

section \<open>Rendering\<close>

definition fv_at :: "field_value \<Rightarrow> nat \<Rightarrow> rheg_error + u32" where
  "fv_at v i = (if i < length (fv_words v) then Inr (fv_words v ! i) else Inl Out_of_range)"

definition hex_digit :: "nat \<Rightarrow> char" where
  "hex_digit d = ''0123456789abcdef'' ! d"

text \<open>The loop counts \<open>digit\<close> down and appends; \<open>hex_digits v k\<close> is its work from digit \<open>k\<close>.\<close>

fun hex_digits :: "field_value \<Rightarrow> nat \<Rightarrow> rheg_error + string" where
  "hex_digits v 0 = Inr []"
| "hex_digits v (Suc d) =
     bind_result (fv_at v (d div 8)) (\<lambda>w.
     bind_result (hex_digits v d) (\<lambda>s.
       Inr (hex_digit (unat (drop_bit (d mod 8 * 4) w AND 15)) # s)))"

definition fv_hex :: "field_value \<Rightarrow> rheg_error + string" where
  "fv_hex v = bind_result (hex_digits v ((unat (fv_width v) + 3) div 4)) (\<lambda>s. Inr (''0x'' @ s))"

definition unsigned_value :: "field_value \<Rightarrow> rheg_error + u64" where
  "unsigned_value v =
     (if fv_width v > 64 then Inl Exceeds_64_bits
      else bind_result (fv_at v 0) (\<lambda>low.
        if fv_width v > 32
        then bind_result (fv_at v 1) (\<lambda>high. Inr (ucast low OR push_bit 32 (ucast high)))
        else Inr (ucast low)))"

text \<open>A signed 64-bit result is kept as its two's complement word; \<open>~value\<close> is the complement.\<close>

definition signed_value :: "field_value \<Rightarrow> rheg_error + u64" where
  "signed_value v =
     bind_result (unsigned_value v) (\<lambda>value.
       if drop_bit (unat (fv_width v - 1)) value AND 1 = 0 then Inr value
       else let value = (if fv_width v < 64 then value OR push_bit (unat (fv_width v)) (- 1) else value)
            in Inr (- 1 - NOT value))"

text \<open>Decimal digits, least significant first; a digit is the number its character stands for.\<close>

definition digit_char :: "nat \<Rightarrow> char" where
  "digit_char d = char_of (48 + d)"

fun double_digits :: "nat \<Rightarrow> nat list \<Rightarrow> nat list" where
  "double_digits carry [] = (if carry \<noteq> 0 then [carry] else [])"
| "double_digits carry (d # ds) =
     (d * 2 + carry) mod 10 # double_digits ((d * 2 + carry) div 10) ds"

fun add_digits :: "nat \<Rightarrow> nat list \<Rightarrow> nat list" where
  "add_digits carry [] = (if carry \<noteq> 0 then [1] else [])"
| "add_digits carry (d # ds) = (d + carry) mod 10 # add_digits ((d + carry) div 10) ds"

definition fv_bit :: "field_value \<Rightarrow> nat \<Rightarrow> rheg_error + bool" where
  "fv_bit v b = bind_result (fv_at v (b div 32)) (\<lambda>w. Inr (drop_bit (b mod 32) w AND 1 \<noteq> 0))"

fun decimal_bits :: "field_value \<Rightarrow> bool \<Rightarrow> nat \<Rightarrow> nat list \<Rightarrow> rheg_error + nat list" where
  "decimal_bits v negative 0 digits = Inr digits"
| "decimal_bits v negative (Suc b) digits =
     bind_result (fv_bit v b) (\<lambda>x.
       decimal_bits v negative b (double_digits (if x \<noteq> negative then 1 else 0) digits))"

definition fv_decimal :: "field_value \<Rightarrow> rheg_error + string" where
  "fv_decimal v =
     bind_result (if fv_encoding v = ''signed'' then fv_bit v (unat (fv_width v - 1)) else Inr False)
       (\<lambda>negative.
     bind_result (decimal_bits v negative (unat (fv_width v)) [0]) (\<lambda>digits.
       Inr (rev (if negative then map digit_char (add_digits 1 digits) @ ''-''
                 else map digit_char digits))))"

section \<open>The payload as a number\<close>

text \<open>The number a list of 32-bit words stands for, least significant word first.\<close>

fun words_value :: "u32 list \<Rightarrow> nat" where
  "words_value [] = 0"
| "words_value (w # ws) = unat w + 2 ^ 32 * words_value ws"

definition words_bit :: "u32 list \<Rightarrow> nat \<Rightarrow> bool" where
  "words_bit ws i \<longleftrightarrow> i div 32 < length ws \<and> bit (ws ! (i div 32)) (i mod 32)"

lemma bit_unat_word32: "bit (unat (w::u32)) i \<longleftrightarrow> i < 32 \<and> bit w i"
  by (auto simp: bit_unsigned_iff dest: bit_imp_le_length)

lemma bit_words_value: "bit (words_value ws) i \<longleftrightarrow> words_bit ws i"
proof (induction ws arbitrary: i)
  case Nil
  then show ?case by (simp add: words_bit_def)
next
  case (Cons w ws)
  have "words_value (w # ws) = unat w OR push_bit 32 (words_value ws)"
  proof -
    have "unat w + push_bit 32 (words_value ws) = unat w OR push_bit 32 (words_value ws)"
      by (rule disjunctive_add) (auto simp: bit_unat_word32 bit_push_bit_iff)
    then show ?thesis by (simp add: push_bit_eq_mult mult.commute)
  qed
  then show ?case
    by (cases "i < 32")
      (auto simp: Cons.IH bit_or_iff bit_unat_word32 bit_push_bit_iff words_bit_def le_div_geq le_mod_geq)
qed

lemma words_value_less: "words_value ws < 2 ^ (32 * length ws)"
proof (induction ws)
  case (Cons w ws)
  have "unat w < 2 ^ 32" by (rule unat_lt32)
  moreover have "words_value ws + 1 \<le> 2 ^ (32 * length ws)" using Cons by simp
  then have "2 ^ 32 * (words_value ws + 1) \<le> 2 ^ 32 * 2 ^ (32 * length ws)" by (rule mult_le_mono2)
  ultimately show ?case by (simp add: power_add)
qed simp

text \<open>What validation establishes for a node: every word of the width, and clear padding.\<close>

definition node_complete :: "node \<Rightarrow> bool" where
  "node_complete n \<longleftrightarrow> present n \<and> om_wf (words n) \<and> length (words n) = (unat (width n) + 31) div 32
     \<and> (\<forall>i < length (words n). om_has (words n) (of_nat i))
     \<and> (unat (width n) mod 32 \<noteq> 0 \<longrightarrow>
          drop_bit (unat (width n) mod 32) (snd (last (words n))) = 0)"

definition payload_words :: "node \<Rightarrow> u32 list" where
  "payload_words n = map snd (words n)"

definition payload :: "node \<Rightarrow> nat" where
  "payload n = words_value (payload_words n)"

lemma length_payload_words [simp]: "length (payload_words n) = length (words n)"
  by (simp add: payload_words_def)

lemma words_bound: "length (words n) = (unat (width n) + 31) div 32 \<Longrightarrow> length (words n) < 2 ^ 32"
  using unat_lt32 [of "width n"] by auto

lemma complete_keys:
  assumes "node_complete n"
  shows "map fst (words n) = map of_nat [0..<length (words n)]"
proof (rule sorted_set_unique)
  let ?k = "length (words n)"
  have lt: "?k < 2 ^ 32"
    using assms by (intro words_bound) (simp add: node_complete_def)
  have u: "unat (of_nat i :: u32) = i" if "i < ?k" for i
    using that lt by (simp add: unsigned_of_nat take_bit_nat_eq_self)
  show s: "sorted_wrt (<) (map (of_nat :: nat \<Rightarrow> u32) [0..<?k])"
    using u by (auto simp: sorted_wrt_map sorted_wrt_iff_nth_less word_less_unat_iff)
  show "sorted_wrt (<) (map fst (words n))"
    using assms by (simp add: node_complete_def om_wf_def)
  then have "card (set (map fst (words n))) = ?k"
    by (simp only: strict_sorted_iff distinct_card length_map)
  moreover have "card (set (map (of_nat :: nat \<Rightarrow> u32) [0..<?k])) = ?k"
    using s by (simp only: strict_sorted_iff distinct_card length_map) simp
  moreover have "set (map of_nat [0..<?k]) \<subseteq> set (map fst (words n))"
    using assms by (auto simp: node_complete_def om_find_None)
  ultimately show "set (map fst (words n)) = set (map of_nat [0..<?k])"
    by (metis List.finite_set card_subset_eq)
qed

lemma word_at_complete:
  assumes "node_complete n" "i < length (words n)"
  shows "word_at n i = Inr (ucast (payload_words n ! i))"
proof -
  have "fst (words n ! i) = of_nat i"
    using complete_keys [OF assms(1)] assms(2) by (metis add_0 length_map nth_map nth_upt)
  then have "(of_nat i, payload_words n ! i) \<in> set (words n)"
    using assms(2) by (metis nth_map nth_mem payload_words_def prod.collapse)
  then have "om_find (words n) (of_nat i) = Some (payload_words n ! i)"
    using assms(1) om_find_iff [of "words n"] by (simp add: node_complete_def)
  then show ?thesis by (simp add: word_at_def)
qed

section \<open>A captured field is a slice of the payload\<close>

lemma bit_ucast_32_64: "bit (ucast (w::u32) :: u64) i \<longleftrightarrow> i < 32 \<and> bit w i"
  by (auto simp: bit_simps dest: bit_imp_le_length)

lemma bit_ucast_64_32: "bit (ucast (w::u64) :: u32) i \<longleftrightarrow> i < 32 \<and> bit w i"
  by (auto simp: bit_simps dest: bit_imp_le_length)

lemma bit_low_mask: "bit (w AND (2 ^ k - 1) :: u64) i \<longleftrightarrow> bit w i \<and> i < k" if "k < 64"
proof -
  have "(2 ^ k - 1 :: u64) = mask k"
    by (simp add: mask_eq_exp_minus_1)
  then show ?thesis
    using that by (auto simp: bit_and_iff bit_mask_iff dest: bit_imp_le_length)
qed

lemma word_index_less: "k < w \<Longrightarrow> k div 32 < (w + 31) div (32::nat)"
proof -
  assume "k < w"
  then have "(k + 32) div 32 \<le> (w + 31) div 32" by (intro div_le_mono) simp
  then show ?thesis by simp
qed

lemma capture_word_bits:
  assumes c: "node_complete n" and le: "offset + w \<le> unat (width n)" and b: "b < w"
  shows "\<exists>x. capture_word n offset w b = Inr x
    \<and> (\<forall>j. bit x j \<longleftrightarrow> j < 32 \<and> b + j < w \<and> words_bit (payload_words n) (offset + b + j))"
proof -
  let ?ws = "payload_words n" and ?s = "offset + b"
  define q r where "q = ?s div 32" and "r = ?s mod 32"
  define amount where "amount = min 32 (w - b)"
  have s: "?s = q * 32 + r" "r < 32" by (simp_all add: q_def r_def)
  have len: "length (words n) = (unat (width n) + 31) div 32"
    using c by (simp add: node_complete_def)
  have inside: "k div 32 < length (words n)" if "k < unat (width n)" for k
    using that unfolding len by (rule word_index_less)
  have low: "word_at n q = Inr (ucast (?ws ! q))"
    using inside [of ?s] le b by (intro word_at_complete [OF c]) (simp add: q_def)
  define cross where "cross \<longleftrightarrow> r \<noteq> 0 \<and> amount > 32 - r"
  have next_word: "q + 1 < length (words n)" if cross
  proof -
    have "?s + (32 - r) < unat (width n)"
      using that le b by (auto simp: cross_def amount_def)
    moreover have "(?s + (32 - r)) div 32 = q + 1"
      using s by simp
    ultimately show ?thesis using inside [of "?s + (32 - r)"] by simp
  qed
  define word :: u64 where "word = (if cross
    then drop_bit r (ucast (?ws ! q)) OR push_bit (32 - r) (ucast (?ws ! (q + 1)))
    else drop_bit r (ucast (?ws ! q)))"
  define x :: u32 where "x = ucast (if amount < 32 then word AND (push_bit amount 1 - 1) else word)"
  have run: "capture_word n offset w b = Inr x"
    using low word_at_complete [OF c next_word]
    by (auto simp: capture_word_def Let_def x_def word_def cross_def
        simp flip: q_def r_def amount_def)
  have wb: "words_bit ?ws (?s + j) \<longleftrightarrow>
      (if r + j < 32 then bit (?ws ! q) (r + j) else bit (?ws ! (q + 1)) (r + j - 32))"
    if j: "j < amount" for j
  proof -
    have "?s + j < unat (width n)" using j le by (auto simp: amount_def)
    moreover have "(?s + j) div 32 = (if r + j < 32 then q else q + 1)"
      "(?s + j) mod 32 = (if r + j < 32 then r + j else r + j - 32)"
      using s j by (auto simp: amount_def div_nat_eqI mod_nat_eqI)
    ultimately show ?thesis
      using inside [of "?s + j"] by (simp add: words_bit_def)
  qed
  have word_bit: "bit word j \<longleftrightarrow> words_bit ?ws (?s + j)" if j: "j < amount" for j
    unfolding wb [OF j] using j s(2)
    by (auto simp: word_def cross_def bit_or_iff bit_drop_bit_eq bit_push_bit_iff bit_ucast_32_64
        amount_def add.commute)
  have "bit x j \<longleftrightarrow> j < 32 \<and> b + j < w \<and> words_bit ?ws (?s + j)" for j
    using word_bit [of j]
    by (auto simp: x_def bit_ucast_64_32 bit_low_mask amount_def split: if_splits)
  with run show ?thesis by blast
qed

lemma capture_words_bits:
  assumes c: "node_complete n" and le: "offset + w \<le> unat (width n)"
  shows "\<exists>xs. capture_words n offset w b = Inr xs \<and> length xs = (w - b + 31) div 32
    \<and> (\<forall>i. words_bit xs i \<longleftrightarrow> b + i < w \<and> words_bit (payload_words n) (offset + b + i))"
proof (induction "w - b" arbitrary: b rule: less_induct)
  case less
  show ?case
  proof (cases "b < w")
    case True
    obtain x where x: "capture_word n offset w b = Inr x"
      "\<forall>j. bit x j \<longleftrightarrow> j < 32 \<and> b + j < w \<and> words_bit (payload_words n) (offset + b + j)"
      using capture_word_bits [OF c le True] by blast
    have "w - (b + 32) < w - b" using True by simp
    from less [OF this] obtain xs where xs: "capture_words n offset w (b + 32) = Inr xs"
      "length xs = (w - (b + 32) + 31) div 32"
      "\<forall>i. words_bit xs i \<longleftrightarrow> b + 32 + i < w \<and> words_bit (payload_words n) (offset + (b + 32) + i)"
      by blast
    have "words_bit (x # xs) i \<longleftrightarrow> b + i < w \<and> words_bit (payload_words n) (offset + b + i)" for i
    proof (cases "i < 32")
      case True
      with x(2) show ?thesis by (simp add: words_bit_def)
    next
      case False
      then have "words_bit (x # xs) i \<longleftrightarrow> words_bit xs (i - 32)"
        by (simp add: words_bit_def le_div_geq le_mod_geq)
      with xs(3) False show ?thesis by (simp add: add.assoc)
    qed
    moreover have "length (x # xs) = (w - b + 31) div 32"
    proof (cases "b + 32 \<le> w")
      case True
      then have "w - b + 31 = (w - (b + 32) + 31) + 32" by simp
      then have "(w - b + 31) div 32 = Suc ((w - (b + 32) + 31) div 32)"
        by (simp only: div_add_self2 [of 32, OF zero_neq_numeral [symmetric]] Suc_eq_plus1)
      then show ?thesis using xs(2) by (simp only: length_Cons)
    next
      case False
      with \<open>b < w\<close> have "(w - b + 31) div 32 = 1" by (intro div_nat_eqI) auto
      with False xs(2) show ?thesis by simp
    qed
    ultimately show ?thesis
      using True x(1) xs(1) by (simp add: capture_words.simps [of n offset w b])
  next
    case False
    then show ?thesis by (simp add: capture_words.simps [of n offset w b] words_bit_def)
  qed
qed

lemma capture_field_slice:
  assumes c: "node_complete n" and f: "fwidth f \<noteq> 0" "unat (foffset f) + unat (fwidth f) \<le> unat (width n)"
  obtains v where "capture_field n f = Inr v" "fv_width v = fwidth f" "fv_encoding v = encoding f"
    "length (fv_words v) = (unat (fwidth f) + 31) div 32"
    "words_value (fv_words v) = payload n div 2 ^ unat (foffset f) mod 2 ^ unat (fwidth f)"
proof -
  obtain xs where xs: "capture_words n (unat (foffset f)) (unat (fwidth f)) 0 = Inr xs"
    "length xs = (unat (fwidth f) + 31) div 32"
    "\<forall>i. words_bit xs i \<longleftrightarrow> i < unat (fwidth f) \<and> words_bit (payload_words n) (unat (foffset f) + i)"
    using capture_words_bits [OF c f(2), of 0] by auto
  have "words_value xs = take_bit (unat (fwidth f)) (drop_bit (unat (foffset f)) (payload n))"
    by (rule bit_eqI)
      (auto simp: bit_words_value xs(3) bit_take_bit_iff bit_drop_bit_eq payload_def add.commute)
  then show thesis
    using that [of "\<lparr>fv_width = fwidth f, fv_encoding = encoding f, fv_words = xs\<rparr>"] c f xs(1,2)
    by (simp add: capture_field_def node_complete_def take_bit_eq_mod drop_bit_eq_div)
qed

end
