(* ===== verification/Rheg_Values.thy ===== *)
theory Rheg_Values
  imports Rheg_Capture
begin

unbundle bit_operations_syntax

text \<open>
  What the accessors of \<open>FieldValue\<close> return, stated over the number the words stand for:
  hexadecimal digits of a fixed length, the canonical decimal of that number or of its two's
  complement reading, and the 64-bit integers. \<open>show_nat\<close> is also the model of
  \<open>std::to_string\<close> on unsigned integers.
\<close>

section \<open>Decimal numerals\<close>

fun dec_digits :: "nat \<Rightarrow> nat list" where
  "dec_digits n = (if n < 10 then [n] else n mod 10 # dec_digits (n div 10))"

declare dec_digits.simps [simp del]

definition show_nat :: "nat \<Rightarrow> string" where
  "show_nat n = rev (map digit_char (dec_digits n))"

definition show_int :: "int \<Rightarrow> string" where
  "show_int i = (if i < 0 then CHR ''-'' # show_nat (nat (- i)) else show_nat (nat i))"

lemma dec_digits_small: "n < 10 \<Longrightarrow> dec_digits n = [n]"
  by (simp add: dec_digits.simps)

lemma dec_digits_step: "d < 10 \<Longrightarrow> n \<noteq> 0 \<Longrightarrow> dec_digits (10 * n + d) = d # dec_digits n"
  by (subst dec_digits.simps) simp

lemma carry_digits: "c \<le> 1 \<Longrightarrow> (if c \<noteq> 0 then [c] else []) = (if c = 0 then [] else dec_digits c)"
  by (auto simp: dec_digits.simps)

lemma digit_carry:
  "k * n + c = 10 * (k * (n div 10) + (n mod 10 * k + c) div 10) + (n mod 10 * k + c) mod (10::nat)"
proof -
  let ?w = "n mod 10 * k + c"
  have "k * n = 10 * (k * (n div 10)) + n mod 10 * k"
    by (subst (1) mult_div_mod_eq [of 10 n, symmetric]) (simp only: distrib_left mult.left_commute mult.commute)
  then have "k * n + c = 10 * (k * (n div 10)) + ?w" by (simp only: add.assoc)
  also have "?w = 10 * (?w div 10) + ?w mod 10" by (simp only: mult_div_mod_eq)
  finally show ?thesis by (simp only: distrib_left add.assoc)
qed

lemma double_digits_dec: "c \<le> 1 \<Longrightarrow> double_digits c (dec_digits n) = dec_digits (2 * n + c)"
proof (induction n arbitrary: c rule: dec_digits.induct)
  case (1 n)
  show ?case
  proof (cases "n < 10")
    case True
    show ?thesis
    proof (cases "n * 2 + c < 10")
      case True
      then have "n mod 10 = n" by simp
      with True show ?thesis
        by (simp add: dec_digits.simps [of n] dec_digits.simps [of "n * 2 + c"] mult.commute [of 2])
    next
      case False
      define d where "d = n * 2 + c - 10"
      have d: "n * 2 + c = 10 * 1 + d" "d < 10" using False \<open>n < 10\<close> "1.prems" by (auto simp: d_def)
      have "dec_digits 1 = [1]" by (rule dec_digits_small) simp
      then have "dec_digits (n * 2 + c) = [d, 1]"
        unfolding d(1) using dec_digits_step [OF d(2), of 1] by simp
      moreover have "(n * 2 + c) mod 10 = d" "(n * 2 + c) div 10 = 1" using d by simp_all
      ultimately show ?thesis
        using True by (simp add: dec_digits.simps [of n] mult.commute [of 2])
    qed
  next
    case False
    define v where "v = n mod 10 * 2 + c"
    have v: "v div 10 \<le> 1" using "1.prems" by (simp add: v_def)
    have "double_digits c (dec_digits n) = v mod 10 # double_digits (v div 10) (dec_digits (n div 10))"
      using False by (simp add: dec_digits.simps [of n] v_def)
    also have "\<dots> = v mod 10 # dec_digits (2 * (n div 10) + v div 10)"
      by (simp only: "1.IH" [OF False v])
    also have "\<dots> = dec_digits (10 * (2 * (n div 10) + v div 10) + v mod 10)"
      using False by (intro dec_digits_step [symmetric]) (simp_all add: div_eq_0_iff)
    also have "10 * (2 * (n div 10) + v div 10) + v mod 10 = 2 * n + c"
      unfolding v_def by (rule digit_carry [symmetric])
    finally show ?thesis .
  qed
qed

lemma add_digits_dec: "c \<le> 1 \<Longrightarrow> add_digits c (dec_digits n) = dec_digits (n + c)"
proof (induction n arbitrary: c rule: dec_digits.induct)
  case (1 n)
  show ?case
  proof (cases "n < 10")
    case True
    show ?thesis
    proof (cases "n + c < 10")
      case True
      with \<open>n < 10\<close> "1.prems" show ?thesis
        by (simp add: dec_digits.simps [of n] dec_digits.simps [of "n + c"])
    next
      case False
      with \<open>n < 10\<close> "1.prems" have "n = 9" "c = 1" by auto
      moreover have "add_digits 1 [9] = [0, 1]" by simp
      moreover have "dec_digits 9 = [9]" by (rule dec_digits_small) simp
      moreover have "dec_digits (9 + 1) = [0, 1]"
        using dec_digits_step [of 0 1] dec_digits_small [of 1] by simp
      ultimately show ?thesis by (simp only:)
    qed
  next
    case False
    define v where "v = n mod 10 + c"
    have v: "v div 10 \<le> 1" using "1.prems" by (simp add: v_def)
    have "n + c = 10 * (n div 10 + v div 10) + v mod 10"
      using digit_carry [of 1 n c] unfolding v_def by (simp only: mult_1 mult_1_right)
    moreover have "n div 10 \<noteq> 0" using False by (simp add: div_eq_0_iff)
    then have "n div 10 + v div 10 \<noteq> 0" by simp
    ultimately show ?thesis
      using False "1.IH" [OF False v] dec_digits_step [of "v mod 10" "n div 10 + v div 10"]
      by (simp add: dec_digits.simps [of n] v_def)
  qed
qed

section \<open>Well-formed values\<close>

definition fv_value :: "field_value \<Rightarrow> nat" where
  "fv_value v = words_value (fv_words v)"

definition fv_wf :: "field_value \<Rightarrow> bool" where
  "fv_wf v \<longleftrightarrow> fv_width v \<noteq> 0 \<and> length (fv_words v) = (unat (fv_width v) + 31) div 32
     \<and> fv_value v < 2 ^ unat (fv_width v)"

lemma capture_field_wf:
  assumes "node_complete n" "fwidth f \<noteq> 0" "unat (foffset f) + unat (fwidth f) \<le> unat (width n)"
  shows "\<exists>v. capture_field n f = Inr v \<and> fv_wf v \<and> fv_width v = fwidth f \<and> fv_encoding v = encoding f
    \<and> fv_value v = payload n div 2 ^ unat (foffset f) mod 2 ^ unat (fwidth f)"
  using capture_field_slice [OF assms] assms(2) by (metis fv_value_def fv_wf_def mod_less_divisor
      zero_less_numeral zero_less_power)

lemma width_pred: "fv_width v \<noteq> 0 \<Longrightarrow> unat (fv_width v - 1) = unat (fv_width v) - 1"
  by (subst unat_sub_le) (auto simp: word_le_unat_iff unat_gt_0 Suc_le_eq)

lemma bit_test32: "drop_bit i (w::u32) AND 1 \<noteq> 0 \<longleftrightarrow> bit w i"
  by (simp add: and_one_eq bit_iff_odd_drop_bit odd_iff_mod_2_eq_one)

lemma bit_test64: "drop_bit i (w::u64) AND 1 \<noteq> 0 \<longleftrightarrow> bit w i"
  by (simp add: and_one_eq bit_iff_odd_drop_bit odd_iff_mod_2_eq_one)

lemma fv_bit_value:
  assumes "fv_wf v" "b < unat (fv_width v)"
  shows "fv_bit v b = Inr (bit (fv_value v) b)"
proof -
  have "b div 32 < length (fv_words v)"
    using assms word_index_less [of b "unat (fv_width v)"] by (simp add: fv_wf_def)
  then show ?thesis
    by (simp add: fv_bit_def fv_at_def bit_test32 fv_value_def bit_words_value words_bit_def)
qed

section \<open>Hexadecimal\<close>

definition hex_val :: "char \<Rightarrow> nat" where
  "hex_val c = length (takeWhile (\<lambda>d. d \<noteq> c) ''0123456789abcdef'')"

fun hex_number :: "string \<Rightarrow> nat" where
  "hex_number [] = 0"
| "hex_number (c # s) = hex_val c * 16 ^ length s + hex_number s"

lemma hex_val_digit: "d < 16 \<Longrightarrow> hex_val (hex_digit d) = d"
proof -
  have "list_all (\<lambda>d. hex_val (hex_digit d) = d) [0..<16]" by code_simp
  then show "d < 16 \<Longrightarrow> hex_val (hex_digit d) = d" by (simp add: list_all_iff)
qed

lemma nibble_value:
  assumes "d div 8 < length (fv_words v)"
  shows "unat (drop_bit (d mod 8 * 4) (fv_words v ! (d div 8)) AND 15) = fv_value v div 16 ^ d mod 16"
proof -
  let ?x = "drop_bit (d mod 8 * 4) (fv_words v ! (d div 8))"
  have "(15::u32) = mask 4" by (simp add: mask_eq_exp_minus_1)
  then have mask15: "?x AND 15 = take_bit 4 ?x" by (simp only: take_bit_eq_mask)
  have "(d * 4 + j) div 32 = d div 8" "(d * 4 + j) mod 32 = d mod 8 * 4 + j" if "j < 4" for j
  proof -
    define q r where "q = d div 8" and "r = d mod 8"
    have "d * 4 + j = (r * 4 + j) + q * 32" "r * 4 + j < 32"
      using that div_mult_mod_eq [of d 8] unfolding q_def [symmetric] r_def [symmetric]
      by (simp_all add: r_def)
    then show "(d * 4 + j) div 32 = d div 8" "(d * 4 + j) mod 32 = d mod 8 * 4 + j"
      unfolding q_def [symmetric] r_def [symmetric]
      by (simp_all only: div_mult_self1 mod_mult_self1 div_less mod_less)
  qed
  then have "unat (?x AND 15) = take_bit 4 (drop_bit (d * 4) (fv_value v))"
    using assms unfolding mask15
    by (intro bit_eqI) (auto simp: bit_unat_word32 bit_drop_bit_eq
        bit_take_bit_iff fv_value_def bit_words_value words_bit_def simp del: unsigned_take_bit_eq)
  also have "\<dots> = fv_value v div 2 ^ (d * 4) mod 2 ^ 4"
    by (simp only: take_bit_eq_mod drop_bit_eq_div)
  also have "(2::nat) ^ (d * 4) = 16 ^ d"
    by (simp add: power_mult mult.commute [of d])
  finally show ?thesis by simp
qed

definition hex_alphabet :: "char set" where
  "hex_alphabet = set ''0123456789abcdef''"

lemma hex_digit_alphabet: "d < 16 \<Longrightarrow> hex_digit d \<in> hex_alphabet"
  unfolding hex_digit_def hex_alphabet_def by (rule nth_mem) simp

lemma hex_digits_value:
  "k \<le> 8 * length (fv_words v) \<Longrightarrow>
    \<exists>s. hex_digits v k = Inr s \<and> length s = k \<and> hex_number s = fv_value v mod 16 ^ k
      \<and> set s \<subseteq> hex_alphabet"
proof (induction k)
  case (Suc d)
  then have d: "d div 8 < length (fv_words v)" by simp
  obtain s where s: "hex_digits v d = Inr s" "length s = d" "hex_number s = fv_value v mod 16 ^ d"
      "set s \<subseteq> hex_alphabet"
    using Suc by auto
  define n where "n = fv_value v div 16 ^ d mod 16"
  have n: "n < 16" by (simp add: n_def)
  have run: "hex_digits v (Suc d) = Inr (hex_digit n # s)"
    using d s nibble_value [OF d] by (simp add: fv_at_def n_def mult.commute [of 4])
  have "fv_value v mod (16 ^ d * 16) = 16 ^ d * n + fv_value v mod 16 ^ d"
    unfolding n_def by (rule mod_mult2_eq)
  then have "hex_number (hex_digit n # s) = fv_value v mod 16 ^ Suc d"
    using s n by (simp add: hex_val_digit mult.commute)
  then show ?case
    unfolding run using s n by (auto simp: hex_digit_alphabet simp del: hex_number.simps power_Suc)
qed simp

lemma width_digits: "n < 2 ^ w \<Longrightarrow> n < 16 ^ ((w + 3) div 4)" for n :: nat
proof -
  have "w \<le> 4 * ((w + 3) div 4)" by linarith
  then have "(2::nat) ^ w \<le> 2 ^ (4 * ((w + 3) div 4))" by (rule power_increasing) simp
  then show "n < 2 ^ w \<Longrightarrow> n < 16 ^ ((w + 3) div 4)" by (simp add: power_mult)
qed

lemma fv_hex_value:
  assumes "fv_wf v"
  shows "\<exists>s. fv_hex v = Inr (''0x'' @ s) \<and> length s = (unat (fv_width v) + 3) div 4
    \<and> hex_number s = fv_value v \<and> set s \<subseteq> hex_alphabet"
proof -
  let ?k = "(unat (fv_width v) + 3) div 4"
  have "?k \<le> 8 * length (fv_words v)" using assms by (simp add: fv_wf_def)
  from hex_digits_value [OF this] obtain s where "hex_digits v ?k = Inr s" "length s = ?k"
    "hex_number s = fv_value v mod 16 ^ ?k" "set s \<subseteq> hex_alphabet"
    by blast
  moreover have "fv_value v < 16 ^ ?k" using assms by (intro width_digits) (simp add: fv_wf_def)
  ultimately show ?thesis by (simp add: fv_hex_def)
qed

section \<open>Decimal\<close>

text \<open>The number a field stands for when it is read in two's complement.\<close>

definition fv_signed :: "field_value \<Rightarrow> int" where
  "fv_signed v = (if bit (fv_value v) (unat (fv_width v) - 1)
     then int (fv_value v) - 2 ^ unat (fv_width v) else int (fv_value v))"

definition decimal_part :: "bool \<Rightarrow> nat \<Rightarrow> nat \<Rightarrow> nat" where
  "decimal_part negative n b = (if negative then 2 ^ b - 1 - n mod 2 ^ b else n mod 2 ^ b)"

lemma decimal_part_Suc:
  "decimal_part negative n (Suc b)
     = (if bit n b \<noteq> negative then 1 else 0) * 2 ^ b + decimal_part negative n b"
proof -
  have "n mod 2 ^ Suc b = n mod 2 ^ b + of_bool (bit n b) * 2 ^ b"
    unfolding power_Suc2 mod_mult2_eq bit_iff_odd mod_2_eq_odd by simp
  moreover have "n mod 2 ^ b < 2 ^ b" by simp
  then have "2 * 2 ^ b - Suc (n mod 2 ^ b) = 2 ^ b + (2 ^ b - Suc (n mod 2 ^ b))" by linarith
  ultimately show ?thesis by (auto simp: decimal_part_def)
qed

lemma decimal_bits_value:
  assumes "fv_wf v"
  shows "b \<le> unat (fv_width v) \<Longrightarrow>
    decimal_bits v negative b (dec_digits m)
      = Inr (dec_digits (m * 2 ^ b + decimal_part negative (fv_value v) b))"
proof (induction b arbitrary: m)
  case 0
  then show ?case by (simp add: decimal_part_def)
next
  case (Suc b)
  define c :: nat where "c = (if bit (fv_value v) b \<noteq> negative then 1 else 0)"
  have "decimal_bits v negative (Suc b) (dec_digits m)
      = decimal_bits v negative b (double_digits c (dec_digits m))"
    using Suc.prems by (simp add: fv_bit_value [OF assms] c_def)
  also have "double_digits c (dec_digits m) = dec_digits (2 * m + c)"
    by (rule double_digits_dec) (simp add: c_def)
  also have "decimal_bits v negative b (dec_digits (2 * m + c))
      = Inr (dec_digits ((2 * m + c) * 2 ^ b + decimal_part negative (fv_value v) b))"
    using Suc by simp
  also have "(2 * m + c) * 2 ^ b + decimal_part negative (fv_value v) b
      = m * 2 ^ Suc b + decimal_part negative (fv_value v) (Suc b)"
    unfolding decimal_part_Suc c_def [symmetric] by (simp add: algebra_simps)
  finally show ?case .
qed

lemma fv_decimal_value:
  assumes "fv_wf v"
  shows "fv_decimal v
    = Inr (show_int (if fv_encoding v = ''signed'' then fv_signed v else int (fv_value v)))"
proof -
  let ?w = "unat (fv_width v)" and ?n = "fv_value v"
  have w: "?w - 1 < ?w" "?n < 2 ^ ?w"
    using assms by (auto simp: fv_wf_def unat_gt_0)
  have top: "fv_bit v (unat (fv_width v - 1)) = Inr (bit ?n (?w - 1))"
    using assms w(1) by (subst width_pred) (auto simp: fv_bit_value fv_wf_def)
  have digits: "decimal_bits v negative ?w [0] = Inr (dec_digits (decimal_part negative ?n ?w))" for negative
    using decimal_bits_value [OF assms, of ?w negative 0] by (simp add: dec_digits_small)
  show ?thesis
  proof (cases "fv_encoding v = ''signed'' \<and> bit ?n (?w - 1)")
    case True
    have "add_digits 1 (dec_digits (2 ^ ?w - 1 - ?n)) = dec_digits (2 ^ ?w - ?n)"
      using add_digits_dec [of 1 "2 ^ ?w - 1 - ?n"] w(2) by (simp add: Suc_diff_Suc)
    moreover have "nat (2 ^ ?w - int ?n) = 2 ^ ?w - ?n"
      by (simp add: nat_diff_distrib' nat_power_eq)
    ultimately show ?thesis
      using True w(2) by (simp add: fv_decimal_def top digits decimal_part_def fv_signed_def show_int_def
          show_nat_def)
  next
    case False
    then show ?thesis
      using w(2) by (auto simp: fv_decimal_def top digits decimal_part_def fv_signed_def show_int_def
          show_nat_def)
  qed
qed

section \<open>64-bit integers\<close>

lemma unsigned_value_correct:
  assumes "fv_wf v"
  shows "unsigned_value v
    = (if unat (fv_width v) \<le> 64 then Inr (of_nat (fv_value v)) else Inl Exceeds_64_bits)"
proof -
  consider "unat (fv_width v) > 64" | "unat (fv_width v) \<le> 64" "unat (fv_width v) > 32"
    | "unat (fv_width v) \<le> 32" by linarith
  then show ?thesis
  proof cases
    case 1
    then show ?thesis by (simp add: unsigned_value_def word_less_unat_iff)
  next
    case 2
    then have "length (fv_words v) = 2"
      using assms by (simp add: fv_wf_def)
    then obtain a b where ws: "fv_words v = [a, b]"
      by (auto simp: length_Suc_conv numeral_2_eq_2)
    have "(ucast a :: u64) OR push_bit 32 (ucast b) = ucast a + push_bit 32 (ucast b)"
      by (rule disjunctive_add [symmetric]) (auto simp: bit_ucast_32_64 bit_push_bit_iff)
    then show ?thesis
      using 2 ws by (simp add: unsigned_value_def word_less_unat_iff fv_at_def fv_value_def push_bit_eq_mult)
  next
    case 3
    then have "length (fv_words v) = 1"
      using assms by (simp add: fv_wf_def unat_gt_0 [symmetric]) (auto intro!: div_nat_eqI)
    then obtain a where ws: "fv_words v = [a]"
      by (auto simp: length_Suc_conv)
    then show ?thesis
      using 3 by (simp add: unsigned_value_def word_less_unat_iff fv_at_def fv_value_def)
  qed
qed

lemma low_word_bit:
  assumes "n < 2 ^ w" "w \<le> 64"
  shows "bit (of_nat n :: u64) i \<longleftrightarrow> bit n i"
proof -
  have "bit n i \<Longrightarrow> i < w"
    using assms(1) by (metis bit_take_bit_iff take_bit_nat_eq_self)
  then show ?thesis using assms(2) by (auto simp: bit_simps)
qed

lemma bit_high_ones: "bit (NOT (mask k) :: u64) i \<longleftrightarrow> i < 64 \<and> k \<le> i"
  by (auto simp: bit_not_iff bit_mask_iff)

lemma signed_value_correct:
  assumes "fv_wf v" "unat (fv_width v) \<le> 64"
  shows "map_sum id sint (signed_value v) = Inr (fv_signed v)"
proof -
  let ?w = "unat (fv_width v)" and ?n = "fv_value v"
  define x :: u64 where "x = of_nat ?n"
  have w: "0 < ?w" "?n < 2 ^ ?w"
    using assms by (auto simp: fv_wf_def unat_gt_0)
  have x: "bit x i \<longleftrightarrow> bit ?n i" for i
    using low_word_bit [OF w(2) assms(2)] by (simp add: x_def)
  have small: "bit ?n i \<Longrightarrow> i < ?w" for i
    using w(2) by (metis bit_take_bit_iff take_bit_nat_eq_self)
  have top: "drop_bit (unat (fv_width v - 1)) x AND 1 = 0 \<longleftrightarrow> \<not> bit ?n (?w - 1)"
    using assms(1) bit_test64 [of "?w - 1" x] by (subst width_pred) (auto simp: fv_wf_def x)
  have run: "unsigned_value v = Inr x"
    using assms by (simp add: unsigned_value_correct x_def)
  define y where "y = (if bit ?n (?w - 1) then
      if fv_width v < 64 then x OR push_bit ?w (- 1) else x else x)"
  have "- 1 - NOT y = y" by (simp add: not_eq_complement)
  then have "signed_value v = Inr y"
    by (auto simp: signed_value_def run top y_def Let_def)
  moreover have "sint y = fv_signed v"
  proof -
    have y: "bit y i \<longleftrightarrow> bit ?n i \<or> (i < 64 \<and> ?w \<le> i \<and> bit ?n (?w - 1))" for i
      using assms(2) by (auto simp: y_def x bit_or_iff bit_high_ones word_less_unat_iff dest: small)
    have "bit (sint y) i \<longleftrightarrow> bit (signed_take_bit (?w - 1) (int ?n)) i" for i
    proof -
      have "bit (sint y) i \<longleftrightarrow> bit y (min 63 i)"
        using bit_imp_le_length [of y i] le_less_Suc_eq [of 63 i]
        by (auto simp: bit_sint_iff min_def less_Suc_eq_le not_le)
      also have "\<dots> \<longleftrightarrow> bit ?n (min (?w - 1) i)"
      proof (cases "i < ?w")
        case True
        then have "min 63 i = i" "min (?w - 1) i = i" using assms(2) by linarith+
        with True show ?thesis unfolding y by simp
      next
        case False
        then have "min (?w - 1) i = ?w - 1" "\<not> bit ?n i" using small by (auto simp: min_def)
        then show ?thesis
          using False assms(2) w(1) small [of 63] unfolding y by (cases "?w = 64") (auto simp: min_def)
      qed
      finally show ?thesis by (simp add: bit_signed_take_bit_iff bit_of_nat_iff_bit)
    qed
    then have "sint y = signed_take_bit (?w - 1) (int ?n)" by (rule bit_eqI)
    also have "\<dots> = fv_signed v"
      using w by (auto simp: fv_signed_def signed_take_bit_eq_take_bit_minus bit_of_nat_iff_bit
          take_bit_nat_eq_self simp flip: of_nat_take_bit)
    finally show ?thesis .
  qed
  ultimately show ?thesis by simp
qed

section \<open>Properties\<close>

text \<open>C10: capturing a field of a complete node succeeds exactly when the field is a non-empty range
  inside the node, and then yields the bits of the payload at its offset and nothing else.\<close>

theorem captured_field_slice:
  assumes "node_complete n"
  shows "case capture_field n f of
      Inl e \<Rightarrow> e = Field_outside_node
        \<and> (fwidth f = 0 \<or> unat (foffset f) + unat (fwidth f) > unat (width n))
    | Inr v \<Rightarrow> fv_wf v \<and> fv_width v = fwidth f \<and> fv_encoding v = encoding f
        \<and> fv_value v = payload n div 2 ^ unat (foffset f) mod 2 ^ unat (fwidth f)"
proof (cases "fwidth f \<noteq> 0 \<and> unat (foffset f) + unat (fwidth f) \<le> unat (width n)")
  case True
  then show ?thesis using capture_field_wf [OF assms, of f] by auto
next
  case False
  then show ?thesis by (auto simp: capture_field_def)
qed

definition example_node :: node where
  "example_node = \<lparr>present = True, cycle = 3, width = 40, words = [(0, 0xABCDE123), (1, 0x45)]\<rparr>"

lemma example_node_complete: "node_complete example_node"
  by (auto simp: node_complete_def example_node_def less_Suc_eq)

theorem captured_field_slice_witness:
  "\<exists>v. capture_field example_node \<lparr>fname = ''x'', fwidth = 20, foffset = 20, encoding = ''hex'',
       isa = [], pc = [], symbols = [], label = False\<rparr> = Inr v \<and> fv_value v = 0x45ABC"
proof -
  let ?f = "\<lparr>fname = ''x'', fwidth = 20, foffset = 20, encoding = ''hex'',
    isa = [], pc = [], symbols = [], label = False\<rparr>"
  have "payload example_node = 0x45ABCDE123"
    by (simp add: example_node_def payload_def payload_words_def)
  then show ?thesis
    using captured_field_slice [OF example_node_complete, of ?f]
    by (cases "capture_field example_node ?f") (auto simp: example_node_def)
qed

definition example_value :: field_value where
  "example_value = \<lparr>fv_width = 20, fv_encoding = ''signed'', fv_words = [0xFFFFD]\<rparr>"

lemma example_value_wf: "fv_wf example_value"
  by (simp add: fv_wf_def fv_value_def example_value_def)

text \<open>the hexadecimal text of a field has the digits its width needs, no more and no less, and
  reads back as the value of the field.\<close>

theorem field_hex_exact:
  assumes "fv_wf v"
  shows "\<exists>s. fv_hex v = Inr (''0x'' @ s) \<and> length s = (unat (fv_width v) + 3) div 4
    \<and> hex_number s = fv_value v \<and> set s \<subseteq> hex_alphabet"
  by (rule fv_hex_value [OF assms])

theorem field_hex_exact_witness:
  "\<exists>s. fv_hex example_value = Inr (''0x'' @ s) \<and> length s = 5 \<and> hex_number s = 0xFFFFD"
  using field_hex_exact [OF example_value_wf] by (auto simp: example_value_def fv_value_def)

text \<open>C11: the double-and-add decimal of a field of any width is the canonical decimal numeral of its
  value, or of its two's complement reading with a sign for the signed encoding.\<close>

theorem field_decimal_exact:
  assumes "fv_wf v"
  shows "fv_decimal v
    = Inr (show_int (if fv_encoding v = ''signed'' then fv_signed v else int (fv_value v)))"
  by (rule fv_decimal_value [OF assms])

theorem field_decimal_exact_witness: "fv_decimal example_value = Inr (show_int (- 3))"
proof -
  have "bit (0xFFFFD::nat) 19" by (simp add: bit_iff_odd)
  then show ?thesis
    using field_decimal_exact [OF example_value_wf]
    by (simp add: example_value_def fv_signed_def fv_value_def)
qed

text \<open>C12: a field of at most 64 bits is returned as the 64-bit integer it stands for, sign-extended by
  the signed accessor.\<close>

theorem field_signed_exact:
  assumes "fv_wf v" "unat (fv_width v) \<le> 64"
  shows "map_sum id sint (signed_value v) = Inr (fv_signed v)"
  by (rule signed_value_correct [OF assms])

theorem field_signed_exact_witness: "map_sum id sint (signed_value example_value) = Inr (- 3)"
proof -
  have "bit (0xFFFFD::nat) 19" by (simp add: bit_iff_odd)
  then show ?thesis
    using field_signed_exact [OF example_value_wf]
    by (simp add: example_value_def fv_signed_def fv_value_def)
qed

end
