(* ===== verification/Rheg_Schema.thy ===== *)
theory Rheg_Schema
  imports Rheg_Values
begin

unbundle bit_operations_syntax

text \<open>
  \<open>validate_capture_schema\<close> of \<open>rheg/runtime/rheg.cc\<close>: the checks on the named fields of every
  site, in the order the loop makes them, and what a schema that passes satisfies. The fields of a
  site tile its payload from the top bit down, which makes the captured fields together carry
  exactly the payload.
\<close>

section \<open>The checks\<close>

definition char_code :: "char \<Rightarrow> nat" where
  "char_code c = of_char c"

definition letter :: "char \<Rightarrow> bool" where
  "letter c \<longleftrightarrow> (97 \<le> char_code c \<and> char_code c \<le> 122) \<or> (65 \<le> char_code c \<and> char_code c \<le> 90)
     \<or> char_code c = 95"

definition digit :: "char \<Rightarrow> bool" where
  "digit c \<longleftrightarrow> 48 \<le> char_code c \<and> char_code c \<le> 57"

definition is_identifier :: "string \<Rightarrow> bool" where
  "is_identifier s \<longleftrightarrow> letter (hd s) \<and> list_all (\<lambda>c. letter c \<or> digit c) s"

definition isa_char :: "char \<Rightarrow> bool" where
  "isa_char c \<longleftrightarrow> c \<in> set ''abcdefghijklmnopqrstuvwxyz0123456789_''"

text \<open>The loop over the symbols of an enum, with the two sets it fills.\<close>

fun check_symbols :: "u32 \<Rightarrow> u64 list \<Rightarrow> string list \<Rightarrow> (u64 \<times> string) list \<Rightarrow> rheg_error + unit" where
  "check_symbols w values names [] = Inr ()"
| "check_symbols w values names ((v, s) # rest) =
     (if s = [] \<or> CHR 0x00 \<in> set s \<or> v \<in> set values \<or> s \<in> set names
        \<or> (w < 64 \<and> v \<ge> push_bit (unat w) 1)
      then Inl Bad_enum_symbol
      else check_symbols w (v # values) (s # names) rest)"

definition check_enum :: "field \<Rightarrow> rheg_error + unit" where
  "check_enum f =
     (if encoding f = ''enum'' then
        if fwidth f > 64 \<or> symbols f = [] then Inl Enum_needs_symbols
        else check_symbols (fwidth f) [] [] (symbols f)
      else if symbols f \<noteq> [] \<or> label f then Inl Symbols_require_enum
      else Inr ())"

definition check_riscv :: "field list \<Rightarrow> field \<Rightarrow> rheg_error + unit" where
  "check_riscv fs f =
     (if encoding f = ''riscv'' then
        if (fwidth f \<noteq> 16 \<and> fwidth f \<noteq> 32)
          \<or> (take 5 (isa f) \<noteq> ''rv32i'' \<and> take 5 (isa f) \<noteq> ''rv64i'')
          \<or> \<not> list_all isa_char (isa f)
        then Inl Invalid_riscv
        else (case List.find (\<lambda>g. fname g = pc f) fs of
            None \<Rightarrow> Inl Invalid_riscv_pc
          | Some p \<Rightarrow>
              if (encoding p \<noteq> ''hex'' \<and> encoding p \<noteq> ''unsigned'')
                \<or> fwidth p \<noteq> (if take 4 (isa f) = ''rv32'' then 32 else 64)
              then Inl Invalid_riscv_pc
              else Inr ())
      else if isa f \<noteq> [] \<or> pc f \<noteq> [] then Inl Isa_requires_riscv
      else Inr ())"

definition encodings :: "string list" where
  "encodings = [''hex'', ''unsigned'', ''signed'', ''bool'', ''riscv'', ''enum'']"

record site_check =
  remaining :: u64
  seen :: "string list"
  labeled :: bool

definition check_field :: "field list \<Rightarrow> site_check \<Rightarrow> field \<Rightarrow> rheg_error + site_check" where
  "check_field fs s f =
     (if fname f = [] \<or> fname f \<in> set (seen s) then Inl Bad_field_name
      else if fname f = ''cycle'' \<or> fname f = ''sequence'' then Inl (Reserved_field_name (fname f))
      else if \<not> is_identifier (fname f) then Inl Field_name_not_identifier
      else if fwidth f = 0 \<or> ucast (fwidth f) > remaining s
          \<or> ucast (foffset f) \<noteq> remaining s - ucast (fwidth f)
      then Inl Invalid_field_layout
      else if encoding f \<notin> set encodings then Inl Unsupported_encoding
      else bind_result (check_enum f) (\<lambda>_.
        if label f \<and> labeled s then Inl Label_not_unique
        else bind_result (check_riscv fs f) (\<lambda>_.
          if encoding f = ''bool'' \<and> fwidth f \<noteq> 1 then Inl Bool_not_one_bit
          else Inr \<lparr>remaining = remaining s - ucast (fwidth f), seen = fname f # seen s,
            labeled = (labeled s \<or> label f)\<rparr>)))"

fun check_fields :: "field list \<Rightarrow> site_check \<Rightarrow> field list \<Rightarrow> rheg_error + site_check" where
  "check_fields fs s [] = Inr s"
| "check_fields fs s (f # rest) = bind_result (check_field fs s f) (\<lambda>s. check_fields fs s rest)"

definition check_site :: "u32 \<Rightarrow> field list \<Rightarrow> rheg_error + unit" where
  "check_site w fs =
     bind_result (check_fields fs \<lparr>remaining = ucast w, seen = [], labeled = False\<rparr> fs) (\<lambda>s.
       if remaining s \<noteq> 0 then Inl Incomplete_layout else Inr ())"

fun check_sites :: "(u32 \<times> field list) list \<Rightarrow> rheg_error + unit" where
  "check_sites [] = Inr ()"
| "check_sites ((w, fs) # rest) = bind_result (check_site w fs) (\<lambda>_. check_sites rest)"

definition validate_capture_schema :: "manifest \<Rightarrow> rheg_error + unit" where
  "validate_capture_schema m =
     (if mfields m = [] then Inr ()
      else if length (mfields m) \<noteq> length (payload_widths m) then Inl Capture_site_count_mismatch
      else check_sites (zip (payload_widths m) (mfields m)))"

section \<open>The schemas that pass\<close>

fun tiles :: "nat \<Rightarrow> field list \<Rightarrow> bool" where
  "tiles w [] \<longleftrightarrow> w = 0"
| "tiles w (f # fs) \<longleftrightarrow> fwidth f \<noteq> 0 \<and> w = unat (foffset f) + unat (fwidth f) \<and> tiles (unat (foffset f)) fs"

definition name_ok :: "field \<Rightarrow> bool" where
  "name_ok f \<longleftrightarrow> fname f \<noteq> [] \<and> fname f \<noteq> ''cycle'' \<and> fname f \<noteq> ''sequence'' \<and> is_identifier (fname f)"

definition enum_ok :: "field \<Rightarrow> bool" where
  "enum_ok f \<longleftrightarrow> unat (fwidth f) \<le> 64 \<and> symbols f \<noteq> [] \<and> distinct (map fst (symbols f))
     \<and> distinct (map snd (symbols f))
     \<and> (\<forall>(v, s) \<in> set (symbols f). s \<noteq> [] \<and> CHR 0x00 \<notin> set s \<and> unat v < 2 ^ unat (fwidth f))"

definition riscv_ok :: "field list \<Rightarrow> field \<Rightarrow> bool" where
  "riscv_ok fs f \<longleftrightarrow> fwidth f \<in> {16, 32} \<and> take 5 (isa f) \<in> {''rv32i'', ''rv64i''}
     \<and> list_all isa_char (isa f)
     \<and> (\<exists>p. List.find (\<lambda>g. fname g = pc f) fs = Some p \<and> encoding p \<in> {''hex'', ''unsigned''}
          \<and> fwidth p = (if take 4 (isa f) = ''rv32'' then 32 else 64))"

definition format_ok :: "field list \<Rightarrow> field \<Rightarrow> bool" where
  "format_ok fs f \<longleftrightarrow> encoding f \<in> set encodings
     \<and> (if encoding f = ''enum'' then enum_ok f else symbols f = [] \<and> \<not> label f)
     \<and> (if encoding f = ''riscv'' then riscv_ok fs f else isa f = [] \<and> pc f = [])
     \<and> (encoding f = ''bool'' \<longrightarrow> fwidth f = 1)"

definition site_ok :: "u32 \<Rightarrow> field list \<Rightarrow> bool" where
  "site_ok w fs \<longleftrightarrow> tiles (unat w) fs \<and> distinct (map fname fs) \<and> length (filter label fs) \<le> 1
     \<and> (\<forall>f \<in> set fs. name_ok f \<and> format_ok fs f)"

definition schema_ok :: "manifest \<Rightarrow> bool" where
  "schema_ok m \<longleftrightarrow> mfields m = [] \<or> (length (mfields m) = length (payload_widths m)
     \<and> (\<forall>i < length (mfields m). site_ok (payload_widths m ! i) (mfields m ! i)))"

lemma check_symbols_ok:
  "check_symbols w vs ns ss = Inr () \<longleftrightarrow> distinct (map fst ss) \<and> distinct (map snd ss)
     \<and> set (map fst ss) \<inter> set vs = {} \<and> set (map snd ss) \<inter> set ns = {}
     \<and> (\<forall>(v, s) \<in> set ss. s \<noteq> [] \<and> CHR 0x00 \<notin> set s \<and> (w < 64 \<longrightarrow> v < push_bit (unat w) 1))"
  by (induction w vs ns ss rule: check_symbols.induct) (auto simp: not_le split: if_splits)

lemma symbol_bound:
  "unat w \<le> 64 \<Longrightarrow> (w < 64 \<longrightarrow> v < push_bit (unat w) (1::u64)) \<longleftrightarrow> unat v < 2 ^ unat w" for w :: u32
proof (cases "unat w < 64")
  case True
  then show ?thesis by (simp add: word_less_unat_iff unat_pow2_64)
next
  case False
  moreover assume "unat w \<le> 64"
  ultimately have "unat w = 64" by simp
  then show ?thesis using unat_lt64 [of v] by (simp add: word_less_unat_iff)
qed

lemma check_enum_ok:
  "check_enum f = Inr () \<longleftrightarrow>
     (if encoding f = ''enum'' then enum_ok f else symbols f = [] \<and> \<not> label f)"
proof (cases "encoding f = ''enum'' \<and> unat (fwidth f) \<le> 64")
  case True
  then have "enum_ok f \<longleftrightarrow> symbols f \<noteq> [] \<and> check_symbols (fwidth f) [] [] (symbols f) = Inr ()"
    unfolding enum_ok_def check_symbols_ok using symbol_bound [of "fwidth f"] by auto
  with True show ?thesis by (simp add: check_enum_def word_less_unat_iff)
qed (auto simp: check_enum_def enum_ok_def word_less_unat_iff)

lemma check_riscv_ok:
  "check_riscv fs f = Inr () \<longleftrightarrow>
     (if encoding f = ''riscv'' then riscv_ok fs f else isa f = [] \<and> pc f = [])"
  unfolding check_riscv_def riscv_ok_def by (auto split: option.splits if_splits)

lemma layout_step:
  "\<not> (fwidth f = 0 \<or> ucast (fwidth f) > (r::u64) \<or> ucast (foffset f) \<noteq> r - ucast (fwidth f))
     \<longleftrightarrow> fwidth f \<noteq> 0 \<and> unat r = unat (foffset f) + unat (fwidth f)"
  by (auto simp: word_less_unat_iff not_less word_unat_eq_iff unat_sub_le word_le_unat_iff)

lemma check_field_ok:
  "check_field fs s f = Inr s' \<longleftrightarrow> name_ok f \<and> format_ok fs f \<and> fname f \<notin> set (seen s)
     \<and> \<not> (label f \<and> labeled s) \<and> fwidth f \<noteq> 0
     \<and> unat (remaining s) = unat (foffset f) + unat (fwidth f)
     \<and> s' = \<lparr>remaining = remaining s - ucast (fwidth f), seen = fname f # seen s,
         labeled = (labeled s \<or> label f)\<rparr>"
  unfolding check_field_def throw_if_eq_Inr bind_unit_eq_Inr
  unfolding layout_step check_enum_ok check_riscv_ok
  unfolding name_ok_def format_ok_def imp_conv_disj de_Morgan_disj de_Morgan_conj not_not sum.inject
  by (simp only: conj_ac disj_ac eq_commute [of s'])

lemma check_fields_ok:
  "(\<exists>s'. check_fields fs s gs = Inr s' \<and> remaining s' = 0) \<longleftrightarrow>
     tiles (unat (remaining s)) gs \<and> distinct (map fname gs) \<and> set (map fname gs) \<inter> set (seen s) = {}
     \<and> length (filter label gs) \<le> (if labeled s then 0 else 1)
     \<and> (\<forall>f \<in> set gs. name_ok f \<and> format_ok fs f)"
proof (induction gs arbitrary: s)
  case Nil
  then show ?case by (simp add: unat_eq_0)
next
  case (Cons f gs)
  define s1 where "s1 = \<lparr>remaining = remaining s - ucast (fwidth f), seen = fname f # seen s,
    labeled = (labeled s \<or> label f)\<rparr>"
  define ok where "ok \<longleftrightarrow> name_ok f \<and> format_ok fs f \<and> fname f \<notin> set (seen s)
    \<and> \<not> (label f \<and> labeled s) \<and> fwidth f \<noteq> 0
    \<and> unat (remaining s) = unat (foffset f) + unat (fwidth f)"
  have rest: "unat (remaining s1) = unat (foffset f)" if ok
  proof -
    have "ucast (fwidth f) \<le> remaining s" using that by (simp add: ok_def word_le_unat_iff)
    then show ?thesis using that by (simp add: s1_def ok_def unat_sub_le)
  qed
  have "(\<exists>s'. check_fields fs s (f # gs) = Inr s' \<and> remaining s' = 0) \<longleftrightarrow>
      ok \<and> (\<exists>s'. check_fields fs s1 gs = Inr s' \<and> remaining s' = 0)"
    by (auto simp: check_field_ok ok_def s1_def)
  also have "\<dots> \<longleftrightarrow> ok \<and> tiles (unat (foffset f)) gs \<and> distinct (map fname gs)
      \<and> set (map fname gs) \<inter> set (fname f # seen s) = {}
      \<and> length (filter label gs) \<le> (if labeled s \<or> label f then 0 else 1)
      \<and> (\<forall>f \<in> set gs. name_ok f \<and> format_ok fs f)"
    using Cons.IH [of s1] rest by (auto simp: s1_def)
  also have "\<dots> \<longleftrightarrow> tiles (unat (remaining s)) (f # gs) \<and> distinct (map fname (f # gs))
      \<and> set (map fname (f # gs)) \<inter> set (seen s) = {}
      \<and> length (filter label (f # gs)) \<le> (if labeled s then 0 else 1)
      \<and> (\<forall>f \<in> set (f # gs). name_ok f \<and> format_ok fs f)"
    unfolding ok_def by (auto simp: split: if_splits)
  finally show ?case .
qed

lemma check_site_ok: "check_site w fs = Inr () \<longleftrightarrow> site_ok w fs"
proof -
  let ?s = "\<lparr>remaining = ucast w, seen = [], labeled = False\<rparr>"
  have "check_site w fs = Inr () \<longleftrightarrow> (\<exists>s'. check_fields fs ?s fs = Inr s' \<and> remaining s' = 0)"
    unfolding check_site_def by (auto split: if_splits)
  also have "\<dots> \<longleftrightarrow> site_ok w fs"
    unfolding check_fields_ok by (simp add: site_ok_def)
  finally show ?thesis .
qed

lemma check_sites_ok: "check_sites ws = Inr () \<longleftrightarrow> (\<forall>(w, fs) \<in> set ws. site_ok w fs)"
  by (induction ws rule: check_sites.induct) (auto simp: check_site_ok bind_unit_eq_Inr)

lemma validate_schema_ok: "validate_capture_schema m = Inr () \<longleftrightarrow> schema_ok m"
proof (cases "length (mfields m) = length (payload_widths m)")
  case True
  then have "(\<forall>(w, fs) \<in> set (zip (payload_widths m) (mfields m)). site_ok w fs)
      \<longleftrightarrow> (\<forall>i < length (mfields m). site_ok (payload_widths m ! i) (mfields m ! i))"
    by (auto simp: set_zip)
  with True show ?thesis
    by (auto simp: validate_capture_schema_def schema_ok_def check_sites_ok)
qed (auto simp: validate_capture_schema_def schema_ok_def)

section \<open>The fields together are the payload\<close>

lemma tiles_inside: "tiles w fs \<Longrightarrow> f \<in> set fs \<Longrightarrow> fwidth f \<noteq> 0 \<and> unat (foffset f) + unat (fwidth f) \<le> w"
  by (induction w fs rule: tiles.induct) fastforce+

lemma tiles_sum:
  "tiles w fs \<Longrightarrow> (\<Sum>f\<leftarrow>fs. p div 2 ^ unat (foffset f) mod 2 ^ unat (fwidth f) * 2 ^ unat (foffset f))
     = p mod 2 ^ w" for p :: nat
proof (induction w fs rule: tiles.induct)
  case (2 w f fs)
  have "p mod 2 ^ (unat (foffset f) + unat (fwidth f))
      = 2 ^ unat (foffset f) * (p div 2 ^ unat (foffset f) mod 2 ^ unat (fwidth f)) + p mod 2 ^ unat (foffset f)"
    unfolding power_add by (rule mod_mult2_eq)
  with 2 show ?case by (simp add: mult.commute)
qed simp

text \<open>The captured values of a list of fields, or the first failure.\<close>

fun capture_all :: "node \<Rightarrow> field list \<Rightarrow> rheg_error + field_value list" where
  "capture_all n [] = Inr []"
| "capture_all n (f # fs) = bind_result (capture_field n f) (\<lambda>v.
     bind_result (capture_all n fs) (\<lambda>vs. Inr (v # vs)))"

lemma capture_all_slices:
  assumes "node_complete n"
  shows "\<forall>f \<in> set fs. fwidth f \<noteq> 0 \<and> unat (foffset f) + unat (fwidth f) \<le> unat (width n) \<Longrightarrow>
    \<exists>vs. capture_all n fs = Inr vs \<and> map fv_value vs
      = map (\<lambda>f. payload n div 2 ^ unat (foffset f) mod 2 ^ unat (fwidth f)) fs"
proof (induction fs)
  case (Cons f fs)
  then show ?case using capture_field_wf [OF assms, of f] by auto
qed simp

lemma payload_less:
  assumes "node_complete n"
  shows "payload n < 2 ^ unat (width n)"
proof -
  let ?w = "unat (width n)" and ?ws = "payload_words n"
  have len: "length ?ws = (?w + 31) div 32" using assms by (simp add: node_complete_def)
  have "i < ?w" if i: "words_bit ?ws i" for i
  proof (cases "?w mod 32 = 0")
    case True
    then obtain q where q: "?w = 32 * q" by (auto simp: mod_eq_0_iff_dvd)
    then have "i div 32 < q" using i len by (simp add: words_bit_def)
    then show ?thesis using q by simp
  next
    case False
    define q r where "q = ?w div 32" and "r = ?w mod 32"
    have w: "?w = 32 * q + r" "0 < r" "r < 32" using False by (simp_all add: q_def r_def)
    then have lq: "length ?ws = Suc q" using len by simp
    have "last (words n) = words n ! q" using lq by (subst last_conv_nth) auto
    then have top: "drop_bit r (?ws ! q) = 0"
      using assms False lq by (simp add: node_complete_def r_def payload_words_def)
    have "\<not> bit (?ws ! q) j" if "r \<le> j" for j
    proof -
      have "\<not> bit (drop_bit r (?ws ! q)) (j - r)" unfolding top by simp
      then show ?thesis using that by (simp add: bit_drop_bit_eq)
    qed
    moreover have "i div 32 \<le> q" "bit (?ws ! (i div 32)) (i mod 32)"
      using i lq by (simp_all add: words_bit_def)
    ultimately have "i div 32 < q \<or> i div 32 = q \<and> i mod 32 < r"
      using not_le by (metis le_neq_implies_less)
    moreover have "i = 32 * (i div 32) + i mod 32" "i mod 32 < 32" by simp_all
    ultimately show ?thesis using w(1) by linarith
  qed
  then have "take_bit ?w (payload n) = payload n"
    by (intro bit_eqI) (auto simp: bit_take_bit_iff payload_def bit_words_value)
  then show ?thesis by (metis take_bit_nat_less_exp)
qed

lemma site_fields_payload:
  assumes "node_complete n" "site_ok (width n) fs"
  shows "\<exists>vs. capture_all n fs = Inr vs
    \<and> (\<Sum>(f, v)\<leftarrow>zip fs vs. fv_value v * 2 ^ unat (foffset f)) = payload n"
proof -
  have t: "tiles (unat (width n)) fs" using assms(2) by (simp add: site_ok_def)
  obtain vs where vs: "capture_all n fs = Inr vs" "map fv_value vs
      = map (\<lambda>f. payload n div 2 ^ unat (foffset f) mod 2 ^ unat (fwidth f)) fs"
    using capture_all_slices [OF assms(1)] tiles_inside [OF t] by blast
  have len: "length vs = length fs" using vs(2) by (metis length_map)
  then have "map (\<lambda>(f, v). fv_value v * 2 ^ unat (foffset f)) (zip fs vs)
      = map (\<lambda>f. payload n div 2 ^ unat (foffset f) mod 2 ^ unat (fwidth f) * 2 ^ unat (foffset f)) fs"
    using vs(2) by (auto simp: list_eq_iff_nth_eq)
  then have "(\<Sum>(f, v)\<leftarrow>zip fs vs. fv_value v * 2 ^ unat (foffset f)) = payload n mod 2 ^ unat (width n)"
    using tiles_sum [OF t, of "payload n"] by simp
  with vs(1) payload_less [OF assms(1)] show ?thesis by simp
qed

section \<open>Property\<close>

text \<open>C13: the schema check accepts exactly the manifests without fields or whose sites each have
  fields that tile the payload from its top bit to bit zero, under distinct identifiers, with
  formats that fit: enum symbols distinct and within the width, RISC-V fields with a known ISA and a
  program counter field of its width, one-bit booleans, at most one label.\<close>

theorem capture_schema_accepted: "validate_capture_schema m = Inr () \<longleftrightarrow> schema_ok m"
  by (rule validate_schema_ok)

end
