(* ===== verification/Rheg_Graph.thy ===== *)
theory Rheg_Graph
  imports Rheg_Schema
begin

unbundle bit_operations_syntax

text \<open>
  The collector \<open>Graph\<close> of \<open>rheg/runtime/rheg.cc\<close>: the callbacks that record nodes, payload
  words and edges, the checks of a complete graph, snapshots, and the streaming of settled
  cycles. An operation returns the graph next to its result, because what is assigned before a
  \<open>throw\<close> stays assigned.
\<close>

section \<open>State\<close>

record graph =
  nodes :: "(ref \<times> node) list"
  edges :: "edge list"
  gmanifest :: "manifest option"
  gtiming :: "trace_timing option"
  started :: bool
  epoch_active :: bool
  streaming :: bool
  finished_cycle :: "u64 option"
  pending_nodes :: "ref list"
  pending_edges :: "edge list"

definition new_graph :: graph where
  "new_graph = \<lparr>nodes = [], edges = [], gmanifest = None, gtiming = None, started = False,
     epoch_active = False, streaming = False, finished_cycle = None,
     pending_nodes = [], pending_edges = []\<rparr>"

record cycle_batch =
  bcycle :: u64
  bnodes :: "(ref \<times> node) list"
  bedges :: "edge list"

text \<open>A snapshot owns a copy of the graph.\<close>

type_synonym snapshot = graph

type_synonym 'a graph_result = "graph \<times> (rheg_error + 'a)"

section \<open>Validation\<close>

definition check_node :: "manifest option \<Rightarrow> ref \<times> node \<Rightarrow> rheg_error + unit" where
  "check_node mo e = (case e of (r, n) \<Rightarrow>
     bind_result
       (case mo of None \<Rightarrow> Inr ()
        | Some m \<Rightarrow>
            if unat (site r) \<ge> length (payload_widths m) then Inl (Unknown_manifest_site (site r))
            else if present n \<and> width n \<noteq> payload_widths m ! unat (site r)
            then Inl (Payload_width_differs (site r))
            else Inr ()) (\<lambda>_.
     if \<not> present n \<or> length (words n) \<noteq> (unat (width n) + 31) div 32 then Inl Incomplete_node
     else if \<not> list_all (\<lambda>i. om_has (words n) (of_nat i)) [0..<length (words n)]
     then Inl Missing_payload_word
     else if unat (width n) mod 32 \<noteq> 0 \<and> drop_bit (unat (width n) mod 32) (snd (last (words n))) \<noteq> 0
     then Inl Nonzero_padding
     else Inr ()))"

definition check_edge :: "(ref \<times> node) list \<Rightarrow> manifest option \<Rightarrow> edge \<Rightarrow> rheg_error + unit" where
  "check_edge all_nodes mo e = (case e of (p, c) \<Rightarrow>
     (case (om_find all_nodes p, om_find all_nodes c) of
       (Some pn, Some cn) \<Rightarrow>
         if (case mo of None \<Rightarrow> False | Some m \<Rightarrow> (site p, site c) \<notin> set (dependencies m))
         then Inl (Edge_not_permitted (site p) (site c))
         else if cycle pn > cycle cn then Inl Parent_after_child
         else Inr ()
     | _ \<Rightarrow> Inl Edge_without_node))"

definition validate_entries ::
  "(ref \<times> node) list \<Rightarrow> edge list \<Rightarrow> (ref \<times> node) list \<Rightarrow> manifest option \<Rightarrow> rheg_error + unit" where
  "validate_entries ns es all_nodes mo =
     bind_result (for_each (check_node mo) ns) (\<lambda>_. for_each (check_edge all_nodes mo) es)"

definition validate :: "graph \<Rightarrow> rheg_error + unit" where
  "validate g = validate_entries (nodes g) (edges g) (nodes g) (gmanifest g)"

definition graph_snapshot :: "graph \<Rightarrow> rheg_error + snapshot" where
  "graph_snapshot g =
     (if gmanifest g = None then Inl Snapshot_requires_manifest
      else bind_result (validate g) (\<lambda>_. Inr g))"

definition graph_field :: "graph \<Rightarrow> ref \<Rightarrow> string \<Rightarrow> rheg_error + field_value" where
  "graph_field g r name =
     (case gmanifest g of None \<Rightarrow> Inl No_capture_schema
      | Some m \<Rightarrow>
          if unat (site r) \<ge> length (mfields m) then Inl No_capture_schema
          else (case List.find (\<lambda>f. fname f = name) (mfields m ! unat (site r)) of
              None \<Rightarrow> Inl (Unknown_field name)
            | Some f \<Rightarrow> (case om_find (nodes g) r of
                None \<Rightarrow> Inl Out_of_range
              | Some n \<Rightarrow> capture_field n f)))"

section \<open>Binding and clearing\<close>

definition clear :: "graph \<Rightarrow> unit graph_result" where
  "clear g =
     (if streaming g then (g, Inl End_stream_before_clear)
      else (g\<lparr>nodes := [], edges := []\<rparr>, Inr ()))"

definition bind_timing :: "graph \<Rightarrow> trace_timing \<Rightarrow> unit graph_result" where
  "bind_timing g t =
     (if gtiming g \<noteq> None \<or> started g \<or> nodes g \<noteq> [] \<or> edges g \<noteq> [] then (g, Inl Timing_bound_once)
      else if clock_frequency_hz t = 0 then (g, Inl Frequency_not_positive)
      else (g\<lparr>gtiming := Some t\<rparr>, Inr ()))"

definition bind_manifest :: "graph \<Rightarrow> manifest \<Rightarrow> unit graph_result" where
  "bind_manifest g m =
     (if gmanifest g \<noteq> None \<or> started g \<or> nodes g \<noteq> [] \<or> edges g \<noteq> [] then (g, Inl Manifest_bound_once)
      else if mjson m = [] \<or> payload_widths m = [] \<or> int (length (payload_widths m)) > 4294967295
      then (g, Inl Invalid_descriptor)
      else if list_ex (\<lambda>(p, c). unat p \<ge> length (payload_widths m) \<or> unat c \<ge> length (payload_widths m))
          (dependencies m)
      then (g, Inl Dependency_unknown_site)
      else (case validate_capture_schema m of
          Inl e \<Rightarrow> (g, Inl e)
        | Inr _ \<Rightarrow> (g\<lparr>gmanifest := Some m\<rparr>, Inr ())))"

section \<open>Callbacks\<close>

text \<open>\<open>nodes[ref]\<close>: the node, or a fresh one.\<close>

definition node_at :: "(ref \<times> node) list \<Rightarrow> ref \<Rightarrow> node" where
  "node_at ns r = (case om_find ns r of None \<Rightarrow> new_node | Some n \<Rightarrow> n)"

definition streamed :: "u64 option \<Rightarrow> u64 \<Rightarrow> bool" where
  "streamed fc c = (case fc of None \<Rightarrow> False | Some f \<Rightarrow> c \<le> f)"

definition record_node :: "graph \<Rightarrow> ref \<Rightarrow> u64 \<Rightarrow> u32 \<Rightarrow> unit graph_result" where
  "record_node g r c w =
     (if streaming g \<and> streamed (finished_cycle g) c then (g, Inl Node_cycle_streamed)
      else let g = g\<lparr>started := True, epoch_active := True\<rparr>; n = node_at (nodes g) r
        in if present n then (g, Inl Duplicate_identity)
           else (g\<lparr>nodes := om_put r (n\<lparr>present := True, cycle := c, width := w\<rparr>) (nodes g),
               pending_nodes := (if streaming g then os_insert r (pending_nodes g) else pending_nodes g)\<rparr>,
             Inr ()))"

definition record_payload :: "graph \<Rightarrow> ref \<Rightarrow> u32 \<Rightarrow> u32 \<Rightarrow> unit graph_result" where
  "record_payload g r i w =
     (if streaming g \<and> present (node_at (nodes g) r) \<and> r \<notin> set (pending_nodes g)
      then (g, Inl Payload_node_streamed)
      else let g = g\<lparr>started := True, epoch_active := True\<rparr>; n = node_at (nodes g) r
        in if om_has (words n) i then (g, Inl Duplicate_payload_word)
           else (g\<lparr>nodes := om_put r (n\<lparr>words := om_put i w (words n)\<rparr>) (nodes g),
               pending_nodes := (if streaming g then os_insert r (pending_nodes g) else pending_nodes g)\<rparr>,
             Inr ()))"

definition record_edge :: "graph \<Rightarrow> ref \<Rightarrow> ref \<Rightarrow> unit graph_result" where
  "record_edge g p c =
     (if streaming g \<and> present (node_at (nodes g) c) \<and> c \<notin> set (pending_nodes g)
      then (g, Inl Edge_child_streamed)
      else (g\<lparr>started := True, epoch_active := True, edges := os_insert (p, c) (edges g),
          pending_edges := (if streaming g then os_insert (p, c) (pending_edges g) else pending_edges g)\<rparr>,
        Inr ()))"

definition reset :: "graph \<Rightarrow> bool \<Rightarrow> unit graph_result" where
  "reset g active =
     (if active \<and> streaming g \<and> (epoch_active g \<or> finished_cycle g \<noteq> None
          \<or> pending_nodes g \<noteq> [] \<or> pending_edges g \<noteq> [])
      then (g, Inl End_stream_before_reset)
      else let g = g\<lparr>started := True\<rparr>
        in if active then
             (case gtiming g of
               Some t \<Rightarrow>
                 if epoch_active g then
                   if epoch_id t = - 1 then (g, Inl Epoch_exhausted)
                   else (g\<lparr>gtiming := Some (t\<lparr>epoch_id := epoch_id t + 1\<rparr>), nodes := [], edges := [],
                       epoch_active := False\<rparr>, Inr ())
                 else (g\<lparr>nodes := [], edges := [], epoch_active := False\<rparr>, Inr ())
             | None \<Rightarrow> (g\<lparr>nodes := [], edges := [], epoch_active := False\<rparr>, Inr ()))
           else (g\<lparr>epoch_active := True\<rparr>, Inr ()))"

section \<open>Streaming\<close>

definition begin_stream :: "graph \<Rightarrow> snapshot graph_result" where
  "begin_stream g =
     (if streaming g \<or> nodes g \<noteq> [] \<or> edges g \<noteq> [] then (g, Inl Stream_requires_empty)
      else if gtiming g = None then (g, Inl Stream_requires_timing)
      else (case graph_snapshot g of
          Inl e \<Rightarrow> (g, Inl e)
        | Inr header \<Rightarrow>
            (g\<lparr>streaming := True, started := True, finished_cycle := None\<rparr>, Inr header)))"

definition end_stream :: "graph \<Rightarrow> unit graph_result" where
  "end_stream g =
     (if \<not> streaming g then (g, Inl No_active_stream)
      else if pending_nodes g \<noteq> [] \<or> pending_edges g \<noteq> [] then (g, Inl Finish_before_end)
      else (g\<lparr>streaming := False, finished_cycle := None\<rparr>, Inr ()))"

text \<open>The loop over the pending references; \<open>emplace\<close> keeps their order.\<close>

fun batch_nodes :: "(ref \<times> node) list \<Rightarrow> u64 option \<Rightarrow> u64 \<Rightarrow> ref list \<Rightarrow> rheg_error + (ref \<times> node) list" where
  "batch_nodes ns fc c [] = Inr []"
| "batch_nodes ns fc c (r # rs) =
     (case om_find ns r of
       None \<Rightarrow> Inl Out_of_range
     | Some n \<Rightarrow>
         if \<not> present n then Inl Incomplete_node
         else if cycle n > c \<or> streamed fc (cycle n) then Inl Node_outside_interval
         else bind_result (batch_nodes ns fc c rs) (\<lambda>b. Inr ((r, n) # b)))"

definition finish_cycle :: "graph \<Rightarrow> u64 \<Rightarrow> cycle_batch graph_result" where
  "finish_cycle g c =
     (if \<not> streaming g then (g, Inl No_active_stream)
      else if streamed (finished_cycle g) c then (g, Inl Cycle_must_increase)
      else (case batch_nodes (nodes g) (finished_cycle g) c (pending_nodes g) of
          Inl e \<Rightarrow> (g, Inl e)
        | Inr b \<Rightarrow>
            if list_ex (\<lambda>e. snd e \<notin> set (pending_nodes g)) (pending_edges g)
            then (g, Inl Edge_child_streamed)
            else (case validate_entries b (pending_edges g) (nodes g) (gmanifest g) of
                Inl e \<Rightarrow> (g, Inl e)
              | Inr _ \<Rightarrow> (g\<lparr>pending_nodes := [], pending_edges := [], finished_cycle := Some c\<rparr>,
                  Inr \<lparr>bcycle = c, bnodes = b, bedges = pending_edges g\<rparr>))))"

end
