(* ===== verification/Rheg_Invariant.thy ===== *)
theory Rheg_Invariant
  imports Rheg_Graph
begin

text \<open>
  The invariant of the collector and its consequences for streaming. While a stream is active,
  every retained node and edge that is not pending has already passed validation and lies in a
  finished cycle, so checking the pending entries alone is checking the whole graph.
\<close>

section \<open>The operations as steps\<close>

datatype graph_op =
    Op_clear
  | Op_bind_timing trace_timing
  | Op_bind_manifest manifest
  | Op_node ref u64 u32
  | Op_payload ref u32 u32
  | Op_edge ref ref
  | Op_reset bool
  | Op_begin_stream
  | Op_finish_cycle u64
  | Op_end_stream

fun graph_step :: "graph \<Rightarrow> graph_op \<Rightarrow> unit graph_result" where
  "graph_step g Op_clear = clear g"
| "graph_step g (Op_bind_timing t) = bind_timing g t"
| "graph_step g (Op_bind_manifest m) = bind_manifest g m"
| "graph_step g (Op_node r c w) = record_node g r c w"
| "graph_step g (Op_payload r i w) = record_payload g r i w"
| "graph_step g (Op_edge p c) = record_edge g p c"
| "graph_step g (Op_reset a) = reset g a"
| "graph_step g Op_begin_stream = (case begin_stream g of (g', r) \<Rightarrow> (g', map_sum id (\<lambda>_. ()) r))"
| "graph_step g (Op_finish_cycle c) = (case finish_cycle g c of (g', r) \<Rightarrow> (g', map_sum id (\<lambda>_. ()) r))"
| "graph_step g Op_end_stream = end_stream g"

text \<open>The DPI entry points; the arguments of an edge name the child first.\<close>

definition rheg_reset :: "graph \<Rightarrow> u8 \<Rightarrow> unit graph_result" where
  "rheg_reset g active = reset g (active \<noteq> 0)"

definition rheg_node :: "graph \<Rightarrow> u32 \<Rightarrow> u64 \<Rightarrow> u64 \<Rightarrow> u32 \<Rightarrow> unit graph_result" where
  "rheg_node g s q c w = record_node g (Ref s q) c w"

definition rheg_payload :: "graph \<Rightarrow> u32 \<Rightarrow> u64 \<Rightarrow> u32 \<Rightarrow> u32 \<Rightarrow> unit graph_result" where
  "rheg_payload g s q i w = record_payload g (Ref s q) i w"

definition rheg_edge :: "graph \<Rightarrow> u32 \<Rightarrow> u64 \<Rightarrow> u32 \<Rightarrow> u64 \<Rightarrow> unit graph_result" where
  "rheg_edge g child child_sequence parent parent_sequence =
     record_edge g (Ref parent parent_sequence) (Ref child child_sequence)"

inductive graph_reachable :: "graph \<Rightarrow> bool" where
  initial: "graph_reachable new_graph"
| step: "graph_reachable g \<Longrightarrow> graph_reachable (fst (graph_step g op))"

section \<open>The invariant\<close>

definition settled :: "(ref \<times> node) list \<Rightarrow> edge list \<Rightarrow> manifest option \<Rightarrow> u64 option
    \<Rightarrow> ref list \<Rightarrow> edge list \<Rightarrow> bool" where
  "settled ns es mo fc pn pe \<longleftrightarrow>
     (\<forall>(r, n) \<in> set ns. r \<notin> set pn \<longrightarrow> check_node mo (r, n) = Inr () \<and> streamed fc (cycle n))
     \<and> (\<forall>e \<in> set es. e \<notin> set pe \<longrightarrow> check_edge ns mo e = Inr ()
          \<and> fst e \<notin> set pn \<and> snd e \<notin> set pn)"

definition maps_wf :: "graph \<Rightarrow> bool" where
  "maps_wf g \<longleftrightarrow> om_wf (nodes g) \<and> (\<forall>(r, n) \<in> set (nodes g). om_wf (words n)) \<and> os_wf (edges g)
     \<and> os_wf (pending_nodes g) \<and> os_wf (pending_edges g)"

definition manifest_ok :: "manifest \<Rightarrow> bool" where
  "manifest_ok m \<longleftrightarrow> mjson m \<noteq> [] \<and> payload_widths m \<noteq> [] \<and> length (payload_widths m) < 2 ^ 32
     \<and> (\<forall>(p, c) \<in> set (dependencies m). unat p < length (payload_widths m)
          \<and> unat c < length (payload_widths m))
     \<and> schema_ok m"

definition graph_inv :: "graph \<Rightarrow> bool" where
  "graph_inv g \<longleftrightarrow> maps_wf g
     \<and> set (pending_nodes g) \<subseteq> fst ` set (nodes g) \<and> set (pending_edges g) \<subseteq> set (edges g)
     \<and> (\<forall>m. gmanifest g = Some m \<longrightarrow> manifest_ok m)
     \<and> (\<forall>t. gtiming g = Some t \<longrightarrow> clock_frequency_hz t \<noteq> 0)
     \<and> (nodes g \<noteq> [] \<or> edges g \<noteq> [] \<longrightarrow> started g \<and> epoch_active g)
     \<and> (if streaming g
        then gmanifest g \<noteq> None \<and> gtiming g \<noteq> None
          \<and> settled (nodes g) (edges g) (gmanifest g) (finished_cycle g) (pending_nodes g) (pending_edges g)
        else pending_nodes g = [] \<and> pending_edges g = [] \<and> finished_cycle g = None)"

lemma check_node_present: "check_node mo (r, n) = Inr () \<Longrightarrow> present n"
  by (auto simp: check_node_def split: if_splits)

lemma check_edge_find:
  "om_find ns (fst e) = om_find ns' (fst e) \<Longrightarrow> om_find ns (snd e) = om_find ns' (snd e) \<Longrightarrow>
    check_edge ns mo e = check_edge ns' mo e"
  by (cases e; cases "om_find ns' (fst e)"; cases "om_find ns' (snd e)") (simp_all add: check_edge_def)

lemma check_edge_nodes: "check_edge ns mo e = Inr () \<Longrightarrow> om_has ns (fst e) \<and> om_has ns (snd e)"
  by (auto simp: check_edge_def split: prod.splits option.splits)

lemma in_om_put: "om_wf m \<Longrightarrow> (j, w) \<in> set (om_put k v m) \<longleftrightarrow> (if j = k then w = v else (j, w) \<in> set m)"
  using om_find_iff [OF om_wf_put, of m k v j w] om_find_iff [of m j w] by (auto simp: om_find_put)

lemma keys_om_put [simp]: "fst ` set (om_put k v m) = insert k (fst ` set m)"
  by (induction k v m rule: om_put.induct) auto

lemma settled_put:
  assumes "settled ns es mo fc pn pe" "om_wf ns" "r \<in> set pn \<or> om_find ns r = None"
  shows "settled (om_put r n ns) es mo fc (os_insert r pn) pe"
proof -
  have "check_edge (om_put r n ns) mo e = Inr () \<and> fst e \<noteq> r \<and> snd e \<noteq> r"
    if e: "e \<in> set es" "e \<notin> set pe" for e
  proof -
    from assms(1) e have ok: "check_edge ns mo e = Inr ()" "fst e \<notin> set pn" "snd e \<notin> set pn"
      by (auto simp: settled_def)
    with assms(3) have "fst e \<noteq> r" "snd e \<noteq> r" using check_edge_nodes [OF ok(1)] by auto
    with ok assms(2) check_edge_find [of "om_put r n ns" e ns mo] show ?thesis
      by (simp add: om_find_put)
  qed
  then show ?thesis using assms(1) unfolding settled_def by (auto simp: in_om_put [OF assms(2)])
qed

lemma settled_absent:
  assumes "settled ns es mo fc pn pe" "om_wf ns" "\<not> present (node_at ns r)"
  shows "r \<in> set pn \<or> om_find ns r = None"
  using assms om_find_iff [OF assms(2)] check_node_present
  by (fastforce simp: settled_def node_at_def split: option.splits)

lemma inv_put:
  assumes "graph_inv g" "om_wf (words n)"
    and "streaming g \<Longrightarrow> r \<in> set (pending_nodes g) \<or> om_find (nodes g) r = None"
  shows "graph_inv (g\<lparr>started := True, epoch_active := True, nodes := om_put r n (nodes g),
    pending_nodes := (if streaming g then os_insert r (pending_nodes g) else pending_nodes g)\<rparr>)"
  using assms settled_put [of "nodes g" "edges g" "gmanifest g" "finished_cycle g" "pending_nodes g"
      "pending_edges g" r n]
  by (auto simp: graph_inv_def maps_wf_def om_wf_put in_om_put split: if_splits)

lemma inv_words: "graph_inv g \<Longrightarrow> om_wf (words (node_at (nodes g) r))"
  using om_find_in [of "nodes g" r]
  by (auto simp: graph_inv_def maps_wf_def node_at_def new_node_def split: option.splits)

lemma inv_started: "graph_inv g \<Longrightarrow> graph_inv (g\<lparr>started := True, epoch_active := True\<rparr>)"
  by (auto simp: graph_inv_def maps_wf_def)

lemma inv_absent:
  "graph_inv g \<Longrightarrow> streaming g \<Longrightarrow> \<not> present (node_at (nodes g) r) \<Longrightarrow>
    r \<in> set (pending_nodes g) \<or> om_find (nodes g) r = None"
  by (rule settled_absent) (auto simp: graph_inv_def maps_wf_def)

lemma inv_record_node:
  assumes "graph_inv g"
  shows "graph_inv (fst (record_node g r c w))"
  using inv_put [OF assms, of "node_at (nodes g) r\<lparr>present := True, cycle := c, width := w\<rparr>" r]
    inv_words [OF assms, of r] inv_started [OF assms] inv_absent [OF assms, of r] assms
  by (auto simp: record_node_def Let_def)

lemma inv_record_payload:
  assumes "graph_inv g"
  shows "graph_inv (fst (record_payload g r i w))"
  using inv_put [OF assms, of "node_at (nodes g) r\<lparr>words := om_put i w (words (node_at (nodes g) r))\<rparr>" r]
    inv_words [OF assms, of r] inv_started [OF assms] inv_absent [OF assms, of r] assms
  by (auto simp: record_payload_def Let_def om_wf_put)

lemma settled_edge:
  "settled ns es mo fc pn pe \<Longrightarrow> settled ns (os_insert e es) mo fc pn (os_insert e pe)"
  by (auto simp: settled_def)

lemma inv_record_edge:
  assumes "graph_inv g"
  shows "graph_inv (fst (record_edge g p c))"
  using assms settled_edge [of "nodes g" "edges g" "gmanifest g" "finished_cycle g" "pending_nodes g"
      "pending_edges g" "(p, c)"]
  by (auto simp: record_edge_def graph_inv_def maps_wf_def)

lemma inv_clear: "graph_inv g \<Longrightarrow> graph_inv (fst (clear g))"
  by (auto simp: clear_def graph_inv_def maps_wf_def)

lemma inv_bind_timing: "graph_inv g \<Longrightarrow> graph_inv (fst (bind_timing g t))"
  by (auto simp: bind_timing_def graph_inv_def maps_wf_def)

lemma inv_bind_manifest:
  assumes "graph_inv g"
  shows "graph_inv (fst (bind_manifest g m))"
proof -
  have "manifest_ok m" if "snd (bind_manifest g m) = Inr ()"
    using that validate_schema_ok [of m]
    by (auto simp: bind_manifest_def manifest_ok_def list_ex_iff not_le split: if_splits sum.splits)
  with assms show ?thesis
    by (auto simp: bind_manifest_def graph_inv_def maps_wf_def split: if_splits sum.splits)
qed

lemma settled_empty [simp]: "settled [] [] mo fc pn pe"
  by (simp add: settled_def)

lemma inv_reset: "graph_inv g \<Longrightarrow> graph_inv (fst (reset g a))"
  by (auto simp: reset_def graph_inv_def maps_wf_def Let_def split: option.splits)

lemma snapshot_ok: "graph_snapshot g = Inr h \<longleftrightarrow> gmanifest g \<noteq> None \<and> validate g = Inr () \<and> h = g"
  by (auto simp: graph_snapshot_def bind_unit_eq_Inr)

lemma inv_begin_stream: "graph_inv g \<Longrightarrow> graph_inv (fst (begin_stream g))"
  by (auto simp: begin_stream_def graph_inv_def maps_wf_def snapshot_ok
      split: sum.splits)

lemma inv_end_stream: "graph_inv g \<Longrightarrow> graph_inv (fst (end_stream g))"
  by (auto simp: end_stream_def graph_inv_def maps_wf_def)

section \<open>Finishing a cycle\<close>

definition in_interval :: "(ref \<times> node) list \<Rightarrow> u64 option \<Rightarrow> u64 \<Rightarrow> ref \<Rightarrow> bool" where
  "in_interval ns fc c r \<longleftrightarrow> cycle (node_at ns r) \<le> c \<and> \<not> streamed fc (cycle (node_at ns r))"

lemma batch_nodes_ok:
  "batch_nodes ns fc c rs = Inr b \<longleftrightarrow>
     (\<forall>r \<in> set rs. om_has ns r \<and> present (node_at ns r) \<and> in_interval ns fc c r)
     \<and> b = map (\<lambda>r. (r, node_at ns r)) rs"
  by (induction rs arbitrary: b) (auto simp: in_interval_def node_at_def not_less split: option.splits)

lemma validate_entries_ok:
  "validate_entries ns es all mo = Inr () \<longleftrightarrow>
     (\<forall>e \<in> set ns. check_node mo e = Inr ()) \<and> (\<forall>e \<in> set es. check_edge all mo e = Inr ())"
  by (simp add: validate_entries_def bind_unit_eq_Inr)

definition finish_conditions :: "graph \<Rightarrow> u64 \<Rightarrow> bool" where
  "finish_conditions g c \<longleftrightarrow> streaming g \<and> \<not> streamed (finished_cycle g) c
     \<and> (\<forall>r \<in> set (pending_nodes g). in_interval (nodes g) (finished_cycle g) c r)
     \<and> (\<forall>e \<in> set (pending_edges g). snd e \<in> set (pending_nodes g))"

definition pending_batch :: "graph \<Rightarrow> u64 \<Rightarrow> cycle_batch" where
  "pending_batch g c = \<lparr>bcycle = c, bnodes = map (\<lambda>r. (r, node_at (nodes g) r)) (pending_nodes g),
     bedges = pending_edges g\<rparr>"

lemma finish_cycle_ok:
  "finish_cycle g c = (g', Inr b) \<longleftrightarrow> finish_conditions g c
     \<and> (\<forall>r \<in> set (pending_nodes g). om_has (nodes g) r
          \<and> check_node (gmanifest g) (r, node_at (nodes g) r) = Inr ())
     \<and> (\<forall>e \<in> set (pending_edges g). check_edge (nodes g) (gmanifest g) e = Inr ())
     \<and> g' = g\<lparr>pending_nodes := [], pending_edges := [], finished_cycle := Some c\<rparr>
     \<and> b = pending_batch g c"
proof -
  let ?pn = "pending_nodes g" and ?b = "map (\<lambda>r. (r, node_at (nodes g) r)) (pending_nodes g)"
  define base where "base \<longleftrightarrow> (\<forall>r \<in> set ?pn. om_has (nodes g) r \<and> present (node_at (nodes g) r)
    \<and> in_interval (nodes g) (finished_cycle g) c r)"
  have b: "batch_nodes (nodes g) (finished_cycle g) c ?pn = Inr x \<longleftrightarrow> base \<and> x = ?b" for x
    unfolding base_def by (rule batch_nodes_ok)
  show ?thesis
  proof (cases "streaming g \<and> \<not> streamed (finished_cycle g) c \<and> base
      \<and> \<not> list_ex (\<lambda>e. snd e \<notin> set ?pn) (pending_edges g)
      \<and> validate_entries ?b (pending_edges g) (nodes g) (gmanifest g) = Inr ()")
    case True
    then have run: "finish_cycle g c = (g\<lparr>pending_nodes := [], pending_edges := [],
        finished_cycle := Some c\<rparr>, Inr (pending_batch g c))"
      using b [of ?b] by (simp add: finish_cycle_def pending_batch_def)
    show ?thesis
      unfolding run using True
      by (auto simp: finish_conditions_def base_def list_ex_iff validate_entries_ok)
  next
    case False
    have "snd (finish_cycle g c) \<noteq> Inr b"
      using False b by (auto simp: finish_cycle_def split: sum.splits if_splits)
    moreover have "\<not> (finish_conditions g c
        \<and> (\<forall>r \<in> set ?pn. om_has (nodes g) r \<and> check_node (gmanifest g) (r, node_at (nodes g) r) = Inr ())
        \<and> (\<forall>e \<in> set (pending_edges g). check_edge (nodes g) (gmanifest g) e = Inr ()))"
      using False check_node_present
      by (fastforce simp: finish_conditions_def base_def list_ex_iff validate_entries_ok)
    ultimately show ?thesis by (metis snd_conv)
  qed
qed

lemma finish_cycle_error: "snd (finish_cycle g c) = Inl e \<Longrightarrow> fst (finish_cycle g c) = g"
  by (auto simp: finish_cycle_def split: sum.splits if_splits)

lemma in_nodes_find: "graph_inv g \<Longrightarrow> (r, n) \<in> set (nodes g) \<longleftrightarrow> om_find (nodes g) r = Some n"
  by (simp add: graph_inv_def maps_wf_def om_find_iff)

lemma inv_pending_has: "graph_inv g \<Longrightarrow> r \<in> set (pending_nodes g) \<Longrightarrow> om_has (nodes g) r"
  using om_find_None [of "nodes g" r] by (auto simp: graph_inv_def)

lemma inv_finish_cycle:
  assumes "graph_inv g"
  shows "graph_inv (fst (finish_cycle g c))"
proof (cases "finish_cycle g c")
  case (Pair g' r)
  show ?thesis
  proof (cases r)
    case (Inl e)
    then show ?thesis using Pair finish_cycle_error [of g c e] assms by simp
  next
    case (Inr b)
    note ok = Pair [unfolded Inr finish_cycle_ok]
    have "settled (nodes g) (edges g) (gmanifest g) (Some c) [] []"
      using ok assms in_nodes_find [OF assms]
      by (fastforce simp: settled_def graph_inv_def finish_conditions_def in_interval_def
          streamed_def node_at_def split: option.splits)
    then show ?thesis
      using Pair ok assms by (auto simp: graph_inv_def maps_wf_def finish_conditions_def)
  qed
qed

theorem graph_step_inv: "graph_inv g \<Longrightarrow> graph_inv (fst (graph_step g op))"
  using inv_begin_stream [of g] inv_finish_cycle [of g]
  by (cases op) (auto simp: inv_clear inv_bind_timing inv_bind_manifest inv_record_node
      inv_record_payload inv_record_edge inv_reset inv_end_stream split_beta)

lemma new_graph_inv: "graph_inv new_graph"
  by (simp add: graph_inv_def maps_wf_def new_graph_def)

lemma reachable_inv: "graph_reachable g \<Longrightarrow> graph_inv g"
  by (induction rule: graph_reachable.induct) (simp_all add: new_graph_inv graph_step_inv)

end
