(* ===== verification/Rheg_Stream.thy ===== *)
theory Rheg_Stream
  imports Rheg_Invariant
begin

text \<open>
  A whole event stream: the batches that \<open>finish_cycle\<close> returns between \<open>begin_stream\<close> and
  \<open>end_stream\<close> are, together, exactly the nodes and edges of the graph, each of them once, in
  increasing cycles and every node in the first finished cycle that is not before its own.
\<close>

inductive stream_run :: "graph \<Rightarrow> cycle_batch list \<Rightarrow> bool" where
  start: "graph_reachable g \<Longrightarrow> begin_stream g = (g', Inr h) \<Longrightarrow> stream_run g' []"
| callback: "stream_run g bs \<Longrightarrow> op \<notin> {Op_begin_stream, Op_end_stream} \<union> range Op_finish_cycle \<Longrightarrow>
    stream_run (fst (graph_step g op)) bs"
| finish: "stream_run g bs \<Longrightarrow> finish_cycle g c = (g', Inr b) \<Longrightarrow> stream_run g' (bs @ [b])"

definition emitted_nodes :: "graph \<Rightarrow> (ref \<times> node) set" where
  "emitted_nodes g = {e \<in> set (nodes g). fst e \<notin> set (pending_nodes g)}"

definition emitted_edges :: "graph \<Rightarrow> edge set" where
  "emitted_edges g = set (edges g) - set (pending_edges g)"

definition batches_nodes :: "cycle_batch list \<Rightarrow> (ref \<times> node) list" where
  "batches_nodes bs = concat (map bnodes bs)"

definition batches_edges :: "cycle_batch list \<Rightarrow> edge list" where
  "batches_edges bs = concat (map bedges bs)"

text \<open>The cycle finished before a batch, and the intervals of the batches.\<close>

definition last_cycle :: "cycle_batch list \<Rightarrow> u64 option" where
  "last_cycle bs = (if bs = [] then None else Some (bcycle (last bs)))"

definition batch_intervals :: "cycle_batch list \<Rightarrow> bool" where
  "batch_intervals bs \<longleftrightarrow> (\<forall>i < length bs. \<not> streamed (last_cycle (take i bs)) (bcycle (bs ! i))
     \<and> (\<forall>(r, n) \<in> set (bnodes (bs ! i)). cycle n \<le> bcycle (bs ! i)
          \<and> \<not> streamed (last_cycle (take i bs)) (cycle n)))"

definition stream_inv :: "graph \<Rightarrow> cycle_batch list \<Rightarrow> bool" where
  "stream_inv g bs \<longleftrightarrow> graph_inv g \<and> streaming g \<and> finished_cycle g = last_cycle bs
     \<and> set (batches_nodes bs) = emitted_nodes g \<and> distinct (map fst (batches_nodes bs))
     \<and> set (batches_edges bs) = emitted_edges g \<and> distinct (batches_edges bs)
     \<and> batch_intervals bs"

lemma batch_intervals_snoc:
  "batch_intervals (bs @ [b]) \<longleftrightarrow> batch_intervals bs \<and> \<not> streamed (last_cycle bs) (bcycle b)
     \<and> (\<forall>(r, n) \<in> set (bnodes b). cycle n \<le> bcycle b \<and> \<not> streamed (last_cycle bs) (cycle n))"
proof -
  have "(\<forall>i < length (bs @ [b]). P i) \<longleftrightarrow> (\<forall>i < length bs. P i) \<and> P (length bs)" for P
    by (auto simp: less_Suc_eq)
  then show ?thesis by (simp add: batch_intervals_def nth_append)
qed

section \<open>Callbacks add nothing to what was emitted\<close>

lemma emitted_put:
  assumes "om_wf (nodes g)" "r \<in> set (pending_nodes g) \<or> om_find (nodes g) r = None"
  shows "{e \<in> set (om_put r n (nodes g)). fst e \<notin> set (os_insert r (pending_nodes g))} = emitted_nodes g"
  using assms by (auto simp: emitted_nodes_def in_om_put om_find_None image_iff)

lemma stream_inv_put:
  assumes inv: "stream_inv g bs" "om_wf (words n)" and absent: "\<not> present (node_at (nodes g) r)
    \<or> r \<in> set (pending_nodes g)"
  shows "stream_inv (g\<lparr>started := True, epoch_active := True, nodes := om_put r n (nodes g),
    pending_nodes := os_insert r (pending_nodes g)\<rparr>) bs"
proof -
  have g: "graph_inv g" "streaming g" "om_wf (nodes g)"
    using inv by (auto simp: stream_inv_def graph_inv_def maps_wf_def)
  have "r \<in> set (pending_nodes g) \<or> om_find (nodes g) r = None"
    using absent by (elim disjE) (rule inv_absent [OF g(1,2)], assumption, rule disjI1)
  with inv_put [OF g(1) assms(2)] emitted_put [OF g(3)] g(2) inv show ?thesis
    by (simp add: stream_inv_def emitted_nodes_def emitted_edges_def)
qed

lemma stream_inv_flags:
  "stream_inv g bs \<Longrightarrow> stream_inv (g\<lparr>started := True, epoch_active := True\<rparr>) bs"
  by (simp add: stream_inv_def inv_started emitted_nodes_def emitted_edges_def)

lemma stream_inv_node:
  assumes "stream_inv g bs"
  shows "stream_inv (fst (record_node g r c w)) bs"
proof -
  have "graph_inv g" "streaming g" using assms by (auto simp: stream_inv_def)
  then show ?thesis
    using stream_inv_put [OF assms, of "node_at (nodes g) r\<lparr>present := True, cycle := c, width := w\<rparr>" r]
      inv_words [of g r] stream_inv_flags [OF assms] assms
    by (auto simp: record_node_def Let_def)
qed

lemma stream_inv_payload:
  assumes "stream_inv g bs"
  shows "stream_inv (fst (record_payload g r i w)) bs"
proof -
  have "graph_inv g" "streaming g" using assms by (auto simp: stream_inv_def)
  then show ?thesis
    using stream_inv_put [OF assms, of "node_at (nodes g) r\<lparr>words := om_put i w (words (node_at (nodes g) r))\<rparr>" r]
      inv_words [of g r] stream_inv_flags [OF assms] assms
    by (auto simp: record_payload_def Let_def om_wf_put)
qed

lemma stream_inv_edge:
  assumes "stream_inv g bs"
  shows "stream_inv (fst (record_edge g p c)) bs"
proof (cases "present (node_at (nodes g) c) \<and> c \<notin> set (pending_nodes g)")
  case True
  with assms show ?thesis by (simp add: record_edge_def stream_inv_def)
next
  case False
  have g: "graph_inv g" "streaming g" "graph_inv (fst (record_edge g p c))"
    using assms inv_record_edge by (auto simp: stream_inv_def)
  have "(p, c) \<notin> emitted_edges g"
  proof
    assume e: "(p, c) \<in> emitted_edges g"
    then have "check_edge (nodes g) (gmanifest g) (p, c) = Inr ()" "c \<notin> set (pending_nodes g)"
      using g(1,2) by (auto simp: graph_inv_def settled_def emitted_edges_def)
    with False inv_absent [OF g(1,2), of c] check_edge_nodes show False by fastforce
  qed
  with assms g False show ?thesis
    by (auto simp: stream_inv_def record_edge_def emitted_nodes_def emitted_edges_def)
qed

lemma stream_inv_reset:
  assumes "stream_inv g bs"
  shows "stream_inv (fst (reset g a)) bs"
proof (cases "a \<and> \<not> epoch_active g \<and> finished_cycle g = None \<and> pending_nodes g = [] \<and> pending_edges g = []")
  case True
  then have "nodes g = []" "edges g = []" "bs = []"
    using assms by (auto simp: stream_inv_def graph_inv_def last_cycle_def split: if_splits)
  with True assms inv_reset [of g a] show ?thesis
    by (auto simp: stream_inv_def reset_def Let_def emitted_nodes_def emitted_edges_def split: option.splits)
next
  case False
  with assms inv_reset [of g a] show ?thesis
    by (auto simp: stream_inv_def reset_def Let_def emitted_nodes_def emitted_edges_def split: option.splits)
qed

lemma stream_inv_callback:
  assumes "stream_inv g bs" "op \<notin> {Op_begin_stream, Op_end_stream} \<union> range Op_finish_cycle"
  shows "stream_inv (fst (graph_step g op)) bs"
proof -
  have "streaming g" "gmanifest g \<noteq> None" "gtiming g \<noteq> None"
    using assms(1) by (auto simp: stream_inv_def graph_inv_def)
  with assms show ?thesis
    by (cases op) (auto simp: stream_inv_node stream_inv_payload stream_inv_edge stream_inv_reset
        clear_def bind_timing_def bind_manifest_def)
qed

section \<open>A finished cycle moves the pending entries to the batches\<close>

lemma stream_inv_finish:
  assumes inv: "stream_inv g bs" and run: "finish_cycle g c = (g', Inr b)"
  shows "stream_inv g' (bs @ [b])"
proof -
  note ok = run [unfolded finish_cycle_ok]
  have g: "graph_inv g" "om_wf (nodes g)" "os_wf (pending_nodes g)" "os_wf (pending_edges g)"
    using inv by (auto simp: stream_inv_def graph_inv_def maps_wf_def)
  have b: "b = pending_batch g c" "finish_conditions g c" and
    g': "g' = g\<lparr>pending_nodes := [], pending_edges := [], finished_cycle := Some c\<rparr>"
    using ok by blast+
  have ns: "set (bnodes b) = {e \<in> set (nodes g). fst e \<in> set (pending_nodes g)}"
    using in_nodes_find [OF g(1)] inv_pending_has [OF g(1)]
    by (fastforce simp: b(1) pending_batch_def node_at_def split: option.splits)
  have "set (batches_nodes (bs @ [b])) = emitted_nodes g'"
    using inv by (auto simp: batches_nodes_def stream_inv_def emitted_nodes_def g' ns)
  moreover have "distinct (map fst (batches_nodes (bs @ [b])))"
  proof -
    have "map fst (bnodes b) = pending_nodes g"
      by (simp add: b(1) pending_batch_def comp_def)
    moreover have "distinct (pending_nodes g)" using g(3) by (simp add: strict_sorted_iff)
    moreover have "fst ` set (batches_nodes bs) \<inter> set (pending_nodes g) = {}"
      using inv by (auto simp: stream_inv_def emitted_nodes_def)
    ultimately show ?thesis using inv by (simp add: batches_nodes_def stream_inv_def)
  qed
  moreover have "set (batches_edges (bs @ [b])) = emitted_edges g'"
    using inv g(1) by (auto simp: batches_edges_def stream_inv_def emitted_edges_def g' b(1)
        pending_batch_def graph_inv_def)
  moreover have "distinct (batches_edges (bs @ [b]))"
    using inv g(4) by (auto simp: batches_edges_def stream_inv_def emitted_edges_def b(1)
        pending_batch_def strict_sorted_iff)
  moreover have "batch_intervals (bs @ [b])"
    using inv b(2) by (auto simp: batch_intervals_snoc stream_inv_def finish_conditions_def
        in_interval_def b(1) pending_batch_def)
  moreover have "graph_inv g'"
    using inv_finish_cycle [OF g(1), of c] run by simp
  ultimately show ?thesis
    using inv by (simp add: stream_inv_def g' last_cycle_def b(1) pending_batch_def)
qed

lemma stream_run_inv: "stream_run g bs \<Longrightarrow> stream_inv g bs"
proof (induction rule: stream_run.induct)
  case (start g g' h)
  have "graph_inv g'" using inv_begin_stream [OF reachable_inv [OF start(1)]] start(2) by simp
  with start(2) reachable_inv [OF start(1)] show ?case
    by (auto simp: begin_stream_def stream_inv_def emitted_nodes_def emitted_edges_def batches_nodes_def
        batches_edges_def last_cycle_def batch_intervals_def graph_inv_def split: if_splits sum.splits)
qed (simp_all add: stream_inv_callback stream_inv_finish)

end
