(* ===== verification/Rheg_Collector.thy ===== *)
theory Rheg_Collector
  imports Rheg_Stream
begin

text \<open>
  The properties of the collector as a whole: its invariant, the equivalence of the incremental
  and the full validation, the exactness of a stream, and that the named fields of a snapshot
  carry every payload without loss. The example graph serves the concrete instances.
\<close>

section \<open>Runs and an example\<close>

definition graph_run :: "graph \<Rightarrow> graph_op list \<Rightarrow> graph" where
  "graph_run g ops = foldl (\<lambda>g op. fst (graph_step g op)) g ops"

lemma reachable_run: "graph_reachable g \<Longrightarrow> graph_reachable (graph_run g ops)"
  by (induction ops arbitrary: g) (auto simp: graph_run_def intro: graph_reachable.step)

definition example_field :: "string \<Rightarrow> u32 \<Rightarrow> u32 \<Rightarrow> string \<Rightarrow> field" where
  "example_field name w off enc = \<lparr>fname = name, fwidth = w, foffset = off, encoding = enc,
     isa = [], pc = [], symbols = [], label = False\<rparr>"

definition example_manifest :: manifest where
  "example_manifest = \<lparr>mjson = ''{}'', payload_widths = [40, 8], dependencies = [(0, 1)],
     mfields = [[example_field ''hi'' 20 20 ''hex'', example_field ''lo'' 20 0 ''signed''],
                [example_field ''b'' 8 0 ''unsigned'']]\<rparr>"

definition example_setup :: "graph_op list" where
  "example_setup = [Op_bind_timing \<lparr>clock_frequency_hz = 1000, epoch_id = 7\<rparr>,
     Op_bind_manifest example_manifest, Op_begin_stream]"

definition example_callbacks :: "graph_op list" where
  "example_callbacks = [Op_payload (Ref 0 0) 0 0xABCDE123, Op_node (Ref 0 0) 3 40,
     Op_payload (Ref 0 0) 1 0x45, Op_node (Ref 1 5) 4 8, Op_edge (Ref 0 0) (Ref 1 5),
     Op_payload (Ref 1 5) 0 200]"

definition example_graph :: graph where
  "example_graph = graph_run new_graph (example_setup @ example_callbacks)"

lemma example_reachable: "graph_reachable example_graph"
  unfolding example_graph_def by (rule reachable_run) (rule graph_reachable.initial)

section \<open>Properties\<close>

text \<open>C14: in every state the collector reaches by any sequence of callbacks, bindings, resets and stream
  operations, whether they succeed or throw, its invariant holds: keys and sets are in order,
  everything pending exists, nothing is pending outside a stream, the bound manifest and timing are
  valid, and within a stream every entry that is not pending is validated and in a finished cycle.\<close>

theorem collector_invariant: "graph_reachable g \<Longrightarrow> graph_inv g"
  by (rule reachable_inv)

theorem collector_invariant_witness: "graph_inv example_graph"
  by (rule collector_invariant [OF example_reachable])

lemma settled_iff_valid:
  assumes inv: "graph_inv g" "streaming g"
  shows "validate g = Inr () \<longleftrightarrow>
    (\<forall>r \<in> set (pending_nodes g). om_has (nodes g) r
      \<and> check_node (gmanifest g) (r, node_at (nodes g) r) = Inr ())
    \<and> (\<forall>e \<in> set (pending_edges g). check_edge (nodes g) (gmanifest g) e = Inr ())"
proof -
  have s: "settled (nodes g) (edges g) (gmanifest g) (finished_cycle g) (pending_nodes g) (pending_edges g)"
    using inv by (simp add: graph_inv_def)
  have "(\<forall>e \<in> set (nodes g). check_node (gmanifest g) e = Inr ()) \<longleftrightarrow>
      (\<forall>r \<in> set (pending_nodes g). om_has (nodes g) r
        \<and> check_node (gmanifest g) (r, node_at (nodes g) r) = Inr ())" (is "?l \<longleftrightarrow> ?r")
  proof
    assume l: ?l
    show ?r
    proof
      fix r assume "r \<in> set (pending_nodes g)"
      then obtain n where "om_find (nodes g) r = Some n" using inv_pending_has [OF inv(1)] by blast
      with l show "om_has (nodes g) r \<and> check_node (gmanifest g) (r, node_at (nodes g) r) = Inr ()"
        using in_nodes_find [OF inv(1)] by (auto simp: node_at_def)
    qed
  next
    assume r: ?r
    show ?l
    proof
      fix e assume e: "e \<in> set (nodes g)"
      then have "node_at (nodes g) (fst e) = snd e"
        using in_nodes_find [OF inv(1), of "fst e" "snd e"] by (simp add: node_at_def)
      with r have "fst e \<in> set (pending_nodes g) \<Longrightarrow> check_node (gmanifest g) e = Inr ()"
        by (metis prod.collapse)
      with s e show "check_node (gmanifest g) e = Inr ()" by (auto simp: settled_def)
    qed
  qed
  moreover have "(\<forall>e \<in> set (edges g). check_edge (nodes g) (gmanifest g) e = Inr ()) \<longleftrightarrow>
      (\<forall>e \<in> set (pending_edges g). check_edge (nodes g) (gmanifest g) e = Inr ())"
    using s inv(1) by (auto simp: settled_def graph_inv_def)
  ultimately show ?thesis by (simp add: validate_def validate_entries_ok)
qed

lemma finish_cycle_iff:
  assumes "graph_reachable g"
  shows "(\<exists>g' b. finish_cycle g c = (g', Inr b)) \<longleftrightarrow> finish_conditions g c \<and> validate g = Inr ()"
  using settled_iff_valid [OF reachable_inv [OF assms]]
  by (auto simp: finish_cycle_ok finish_conditions_def)

text \<open>C15: finishing a cycle, which validates the pending entries only, succeeds exactly when the cycle
  increases, the pending nodes lie in the unfinished interval, the pending edges end in pending
  nodes, and the validation of the whole graph succeeds.\<close>

theorem finish_cycle_full_validation:
  assumes "graph_reachable g"
  shows "(\<exists>g' b. finish_cycle g c = (g', Inr b)) \<longleftrightarrow> finish_conditions g c \<and> validate g = Inr ()"
  by (simp only: finish_cycle_iff [OF assms])

theorem finish_cycle_full_validation_witness:
  "(\<exists>g' b. finish_cycle example_graph 5 = (g', Inr b)) \<and> validate example_graph = Inr ()"
proof -
  have "finish_conditions example_graph 5" "validate example_graph = Inr ()"
    by (code_simp, code_simp)
  with finish_cycle_full_validation [OF example_reachable] show ?thesis by blast
qed

text \<open>C16: a cycle that cannot be finished leaves the graph as it was; a finished one returns exactly the
  pending nodes and edges, leaves nothing pending, and the retained graph validates.\<close>

theorem finish_cycle_batch:
  assumes "graph_reachable g" "finish_cycle g c = (g', r)"
  shows "case r of Inl e \<Rightarrow> g' = g
    | Inr b \<Rightarrow> b = pending_batch g c \<and> validate g' = Inr ()
        \<and> g' = g\<lparr>pending_nodes := [], pending_edges := [], finished_cycle := Some c\<rparr>"
proof (cases r)
  case (Inl e)
  then show ?thesis using assms(2) finish_cycle_error [of g c e] by simp
next
  case (Inr b)
  then have "validate g = Inr ()"
    using finish_cycle_iff [OF assms(1)] assms(2) by blast
  then show ?thesis using assms Inr by (simp add: finish_cycle_ok validate_def)
qed

theorem finish_cycle_batch_witness:
  "\<exists>g' b. finish_cycle example_graph 5 = (g', Inr b) \<and> map fst (bnodes b) = [Ref 0 0, Ref 1 5]
     \<and> validate g' = Inr ()"
proof -
  have "finish_conditions example_graph 5" by code_simp
  moreover have "validate example_graph = Inr ()" by code_simp
  ultimately obtain g' b where r: "finish_cycle example_graph 5 = (g', Inr b)"
    using finish_cycle_iff [OF example_reachable] by blast
  have "map fst (bnodes (pending_batch example_graph 5)) = [Ref 0 0, Ref 1 5]" by code_simp
  with r finish_cycle_batch [OF example_reachable r] show ?thesis by auto
qed

text \<open>C17: when a stream ends, its batches together are exactly the nodes and the edges of the graph, no
  node and no edge in two batches, cycles increase from batch to batch, every node is in the batch of
  the first finished cycle not before its own, and the graph validates.\<close>

theorem stream_batches_exact:
  assumes "stream_run g bs" "end_stream g = (g', Inr ())"
  shows "set (batches_nodes bs) = set (nodes g') \<and> distinct (map fst (batches_nodes bs))
    \<and> set (batches_edges bs) = set (edges g') \<and> distinct (batches_edges bs)
    \<and> batch_intervals bs \<and> validate g' = Inr ()"
proof -
  have inv: "stream_inv g bs" using stream_run_inv [OF assms(1)] .
  have g': "pending_nodes g = []" "pending_edges g = []"
    "g' = g\<lparr>streaming := False, finished_cycle := None\<rparr>"
    using assms(2) by (auto simp: end_stream_def split: if_splits)
  with inv settled_iff_valid [of g] show ?thesis
    by (simp add: stream_inv_def emitted_nodes_def emitted_edges_def validate_def)
qed

definition example_stream :: graph where
  "example_stream = graph_run new_graph example_setup"

lemma stream_run_callbacks:
  "stream_run g bs \<Longrightarrow> \<forall>op \<in> set ops. op \<notin> {Op_begin_stream, Op_end_stream} \<union> range Op_finish_cycle \<Longrightarrow>
    stream_run (graph_run g ops) bs"
  by (induction ops arbitrary: g) (auto simp: graph_run_def intro: stream_run.callback)

lemma example_stream_run: "stream_run example_graph []"
proof -
  let ?g = "graph_run new_graph (take 2 example_setup)"
  have "graph_reachable ?g" by (rule reachable_run) (rule graph_reachable.initial)
  moreover have "begin_stream ?g = (example_stream, Inr ?g)"
  proof -
    have "graph_snapshot ?g = Inr ?g" "\<not> streaming ?g" "nodes ?g = []" "edges ?g = []" "gtiming ?g \<noteq> None"
      by (code_simp)+
    moreover have "example_stream = fst (begin_stream ?g)"
      by (simp add: example_stream_def graph_run_def example_setup_def split_beta)
    ultimately show ?thesis by (auto simp: begin_stream_def)
  qed
  ultimately have "stream_run example_stream []" by (rule stream_run.start)
  then have "stream_run (graph_run example_stream example_callbacks) []"
    by (rule stream_run_callbacks) (auto simp: example_callbacks_def)
  then show ?thesis by (simp add: example_graph_def example_stream_def graph_run_def)
qed

theorem stream_batches_exact_witness:
  "\<exists>g bs. stream_run g bs \<and> set (batches_nodes bs) = set (nodes g) \<and> length (batches_nodes bs) = 2"
proof -
  have "finish_conditions example_graph 5" by code_simp
  moreover have "validate example_graph = Inr ()" by code_simp
  ultimately obtain g b where r: "finish_cycle example_graph 5 = (g, Inr b)"
    using finish_cycle_iff [OF example_reachable] by blast
  then have s: "stream_run g [b]" using stream_run.finish [OF example_stream_run r] by simp
  have g: "streaming g" "pending_nodes g = []" "pending_edges g = []" "b = pending_batch example_graph 5"
    using r by (auto simp: finish_cycle_ok finish_conditions_def)
  then have "end_stream g = (g\<lparr>streaming := False, finished_cycle := None\<rparr>, Inr ())"
    by (simp add: end_stream_def)
  from stream_batches_exact [OF s this] have "set (batches_nodes [b]) = set (nodes g)" by simp
  moreover have "length (pending_nodes example_graph) = 2" by code_simp
  then have "length (batches_nodes [b]) = 2" by (simp add: batches_nodes_def g(4) pending_batch_def)
  ultimately show ?thesis using s by blast
qed

section \<open>Fields of a snapshot\<close>

lemma check_node_complete:
  assumes "check_node (Some m) (r, n) = Inr ()" "om_wf (words n)"
  shows "node_complete n \<and> unat (site r) < length (payload_widths m)
    \<and> width n = payload_widths m ! unat (site r)"
  using assms
  by (auto simp: check_node_def node_complete_def bind_unit_eq_Inr throw_if_eq_Inr list_all_iff not_le)

lemma find_by_name:
  "distinct (map fname fs) \<Longrightarrow> f \<in> set fs \<Longrightarrow> List.find (\<lambda>g. fname g = fname f) fs = Some f"
  by (induction fs) (auto simp: image_iff)

lemma capture_all_map: "capture_all n fs = Inr vs \<Longrightarrow> map (capture_field n) fs = map Inr vs"
  by (induction fs arbitrary: vs) auto

lemma snapshot_node:
  assumes "graph_reachable g" "graph_snapshot g = Inr h" "gmanifest g = Some m" "mfields m \<noteq> []"
    "om_find (nodes g) r = Some n"
  shows "node_complete n \<and> unat (site r) < length (mfields m)
    \<and> site_ok (width n) (mfields m ! unat (site r))"
proof -
  have g: "graph_inv g" "manifest_ok m" using reachable_inv [OF assms(1)] assms(3) by (auto simp: graph_inv_def)
  have "(r, n) \<in> set (nodes g)" using in_nodes_find [OF g(1)] assms(5) by blast
  then have "check_node (Some m) (r, n) = Inr ()" "om_wf (words n)"
    using assms(2,3) g(1) by (auto simp: snapshot_ok validate_def validate_entries_ok graph_inv_def maps_wf_def)
  then show ?thesis
    using check_node_complete [of m r n] g(2) assms(4) by (auto simp: manifest_ok_def schema_ok_def)
qed

text \<open>C18: in a snapshot of a graph with a capture schema every field of every node can be read by its
  name, and the values at their offsets add up to the payload: no bit is lost or counted twice.\<close>

theorem snapshot_fields_lossless:
  assumes "graph_reachable g" "graph_snapshot g = Inr h" "gmanifest g = Some m" "mfields m \<noteq> []"
    "om_find (nodes g) r = Some n"
  shows "\<exists>vs. map (\<lambda>f. graph_field h r (fname f)) (mfields m ! unat (site r)) = map Inr vs
    \<and> (\<Sum>(f, v)\<leftarrow>zip (mfields m ! unat (site r)) vs. fv_value v * 2 ^ unat (foffset f)) = payload n"
proof -
  let ?fs = "mfields m ! unat (site r)"
  note n = snapshot_node [OF assms]
  have h: "h = g" using assms(2) by (simp add: snapshot_ok)
  have d: "distinct (map fname ?fs)" using n by (simp add: site_ok_def)
  obtain vs where vs: "capture_all n ?fs = Inr vs"
    "(\<Sum>(f, v)\<leftarrow>zip ?fs vs. fv_value v * 2 ^ unat (foffset f)) = payload n"
    using site_fields_payload n by blast
  have "graph_field h r (fname f) = capture_field n f" if "f \<in> set ?fs" for f
    using find_by_name [OF d that] n assms(3,5) by (simp add: graph_field_def h not_le)
  then have "map (\<lambda>f. graph_field h r (fname f)) ?fs = map (capture_field n) ?fs" by simp
  with vs capture_all_map [OF vs(1)] show ?thesis by auto
qed

theorem snapshot_fields_lossless_witness:
  "\<exists>vs. map (\<lambda>name. graph_field example_graph (Ref 0 0) name) [''hi'', ''lo''] = map Inr vs
     \<and> (\<Sum>(f, v)\<leftarrow>zip (mfields example_manifest ! 0) vs. fv_value v * 2 ^ unat (foffset f))
         = 0x45ABCDE123"
proof -
  define n where "n = \<lparr>present = True, cycle = 3, width = 40, words = [(0, 0xABCDE123), (1, 0x45)]\<rparr>"
  have "graph_snapshot example_graph = Inr example_graph"
  proof -
    have "gmanifest example_graph \<noteq> None" "validate example_graph = Inr ()" by (code_simp, code_simp)
    then show ?thesis by (simp add: snapshot_ok)
  qed
  moreover have "gmanifest example_graph = Some example_manifest" by code_simp
  moreover have "mfields example_manifest \<noteq> []" by (simp add: example_manifest_def)
  moreover have "om_find (nodes example_graph) (Ref 0 0) = Some n" unfolding n_def by code_simp
  ultimately obtain vs where vs: "map (\<lambda>f. graph_field example_graph (Ref 0 0) (fname f)) (mfields example_manifest ! 0) = map Inr vs"
    "(\<Sum>(f, v)\<leftarrow>zip (mfields example_manifest ! 0) vs. fv_value v * 2 ^ unat (foffset f)) = payload n"
    using snapshot_fields_lossless [OF example_reachable, of example_graph example_manifest "Ref 0 0" n] by auto
  moreover have "payload n = 0x45ABCDE123" by (simp add: n_def payload_def payload_words_def)
  moreover have "map fname (mfields example_manifest ! 0) = [''hi'', ''lo'']"
    by (simp add: example_manifest_def example_field_def)
  ultimately show ?thesis by (metis (no_types, lifting) list.map_comp comp_apply map_cong)
qed

section \<open>Epochs\<close>

text \<open>The epoch identity as a number, \<open>None\<close> before timing is bound.\<close>

definition epoch_of :: "graph \<Rightarrow> nat option" where
  "epoch_of g = map_option (\<lambda>t. unat (epoch_id t)) (gtiming g)"

lemma unat_succ: "e \<noteq> - 1 \<Longrightarrow> unat (e + 1 :: u64) = unat e + 1"
  by (metis add.commute add_eq_0_iff unatSuc Suc_eq_plus1)

lemma epoch_of_reset:
  "epoch_of g = Some e \<Longrightarrow> epoch_of (fst (reset g a))
    = Some (if a \<and> epoch_active g \<and> snd (reset g a) = Inr () then e + 1 else e)"
  by (auto simp: reset_def epoch_of_def Let_def unat_succ)

lemma epoch_of_other:
  assumes "gtiming g \<noteq> None" "\<forall>a. op \<noteq> Op_reset a"
  shows "epoch_of (fst (graph_step g op)) = epoch_of g"
  using assms by (cases op) (auto simp: epoch_of_def clear_def bind_timing_def bind_manifest_def
      record_node_def record_payload_def record_edge_def begin_stream_def finish_cycle_def end_stream_def
      Let_def split: sum.splits prod.splits)

text \<open>the epoch identity never decreases and never wraps: an operation leaves it as it is, except a
  successful active reset after activity, which adds exactly one.\<close>

theorem epoch_step:
  assumes "epoch_of g = Some e"
  shows "epoch_of (fst (graph_step g op))
    = Some (if op = Op_reset True \<and> epoch_active g \<and> snd (graph_step g op) = Inr () then e + 1 else e)"
proof (cases "\<exists>a. op = Op_reset a")
  case True
  then obtain a where "op = Op_reset a" by blast
  with epoch_of_reset [OF assms, of a] show ?thesis by simp
next
  case False
  then show ?thesis using epoch_of_other [of g op] assms by (auto simp: epoch_of_def)
qed

theorem epoch_step_witness:
  "epoch_of (fst (graph_step (example_graph\<lparr>streaming := False\<rparr>) (Op_reset True))) = Some 8"
proof -
  have "epoch_of (example_graph\<lparr>streaming := False\<rparr>) = Some 7" by code_simp
  moreover have "epoch_active (example_graph\<lparr>streaming := False\<rparr>)" by code_simp
  moreover have "snd (graph_step (example_graph\<lparr>streaming := False\<rparr>) (Op_reset True)) = Inr ()" by code_simp
  ultimately show ?thesis
    using epoch_step [of "example_graph\<lparr>streaming := False\<rparr>" 7 "Op_reset True"] by simp
qed

end
