(* ===== verification/Rheg_Order.thy ===== *)
theory Rheg_Order
  imports Rheg_Collector
begin

text \<open>
  The order of the callbacks of one unfinished cycle does not matter: the hardware may report a
  payload word before its node and an edge before either end. The locale \<open>commuting_steps\<close> proves
  it from the commutation of two adjacent steps; the interpretation discharges that for the
  collector's callbacks.
\<close>

fun run_steps :: "('s \<Rightarrow> 'a \<Rightarrow> 's option) \<Rightarrow> 's \<Rightarrow> 'a list \<Rightarrow> 's option" where
  "run_steps step s [] = Some s"
| "run_steps step s (a # as) = (case step s a of None \<Rightarrow> None | Some t \<Rightarrow> run_steps step t as)"

locale commuting_steps =
  fixes step :: "'s \<Rightarrow> 'a \<Rightarrow> 's option"
    and inv :: "'s \<Rightarrow> bool"
    and covered :: "'a \<Rightarrow> bool"
  assumes keep: "inv s \<Longrightarrow> covered a \<Longrightarrow> step s a = Some t \<Longrightarrow> inv t"
    and swap: "inv s \<Longrightarrow> covered a \<Longrightarrow> covered b \<Longrightarrow> step s a = Some t \<Longrightarrow> step t b = Some u \<Longrightarrow>
      \<exists>t'. step s b = Some t' \<and> step t' a = Some u"
begin

lemma run_inv:
  "inv s \<Longrightarrow> list_all covered as \<Longrightarrow> run_steps step s as = Some u \<Longrightarrow> inv u"
  by (induction as arbitrary: s) (auto split: option.splits intro: keep)

lemma bring_forward:
  "inv s \<Longrightarrow> list_all covered (as @ [b]) \<Longrightarrow> run_steps step s (as @ b # bs) = Some u \<Longrightarrow>
    run_steps step s (b # as @ bs) = Some u"
proof (induction as arbitrary: s)
  case (Cons a as)
  then obtain t where t: "step s a = Some t" "run_steps step t (as @ b # bs) = Some u"
    by (auto split: option.splits)
  have "inv t" using keep [OF Cons.prems(1) _ t(1)] Cons.prems(2) by simp
  then have "run_steps step t (b # as @ bs) = Some u" using Cons t(2) by simp
  then obtain v where v: "step t b = Some v" "run_steps step v (as @ bs) = Some u"
    by (auto split: option.splits)
  obtain t' where "step s b = Some t'" "step t' a = Some v"
    using swap [OF Cons.prems(1) _ _ t(1) v(1)] Cons.prems(2) by auto
  with v(2) show ?case by simp
qed simp

lemma run_permuted:
  "inv s \<Longrightarrow> list_all covered as \<Longrightarrow> mset as = mset bs \<Longrightarrow> run_steps step s as = Some u \<Longrightarrow>
    run_steps step s bs = Some u"
proof (induction bs arbitrary: s as)
  case (Cons b bs)
  from Cons.prems(3) have "b \<in> set as" by (metis list.set_intros(1) mset_eq_setD)
  then obtain xs ys where as: "as = xs @ b # ys" by (meson split_list)
  have "run_steps step s (b # xs @ ys) = Some u"
    using bring_forward [OF Cons.prems(1)] Cons.prems(2,4) as by simp
  then obtain t where t: "step s b = Some t" "run_steps step t (xs @ ys) = Some u"
    by (auto split: option.splits)
  have "inv t" "list_all covered (xs @ ys)" "mset (xs @ ys) = mset bs"
    using keep [OF Cons.prems(1) _ t(1)] Cons.prems(2,3) as by auto
  from Cons.IH [OF this t(2)] t(1) show ?case by simp
qed simp

end

section \<open>The callbacks of the collector commute\<close>

fun recording :: "graph_op \<Rightarrow> bool" where
  "recording (Op_node r c w) \<longleftrightarrow> True"
| "recording (Op_payload r i w) \<longleftrightarrow> True"
| "recording (Op_edge p c) \<longleftrightarrow> True"
| "recording _ \<longleftrightarrow> False"

text \<open>A step that did not throw.\<close>

definition succeeded :: "graph \<Rightarrow> graph_op \<Rightarrow> graph option" where
  "succeeded g op = (case graph_step g op of (g', Inl e) \<Rightarrow> None | (g', Inr _) \<Rightarrow> Some g')"

lemma node_at_put: "om_wf m \<Longrightarrow> node_at (om_put r n m) q = (if q = r then n else node_at m q)"
  by (simp add: node_at_def om_find_put)

lemma maps_wf_words: "maps_wf g \<Longrightarrow> om_wf (words (node_at (nodes g) r))"
  using om_find_in [of "nodes g" r]
  by (auto simp: maps_wf_def node_at_def new_node_def split: option.splits)

text \<open>What a node and a payload word have in common: one node changes and becomes pending.\<close>

definition touch :: "graph \<Rightarrow> ref \<Rightarrow> (node \<Rightarrow> node) \<Rightarrow> graph" where
  "touch g r f = g\<lparr>started := True, epoch_active := True,
     nodes := om_put r (f (node_at (nodes g) r)) (nodes g),
     pending_nodes := (if streaming g then os_insert r (pending_nodes g) else pending_nodes g)\<rparr>"

definition link :: "graph \<Rightarrow> edge \<Rightarrow> graph" where
  "link g e = g\<lparr>started := True, epoch_active := True, edges := os_insert e (edges g),
     pending_edges := (if streaming g then os_insert e (pending_edges g) else pending_edges g)\<rparr>"

lemma touch_select [simp]:
  "streaming (touch g r f) = streaming g" "finished_cycle (touch g r f) = finished_cycle g"
  "set (pending_nodes (touch g r f)) = (if streaming g then insert r (set (pending_nodes g)) else set (pending_nodes g))"
  "om_wf (nodes g) \<Longrightarrow> node_at (nodes (touch g r f)) q = (if q = r then f (node_at (nodes g) r) else node_at (nodes g) q)"
  by (simp_all add: touch_def node_at_put)

lemma link_select [simp]:
  "streaming (link g e) = streaming g" "finished_cycle (link g e) = finished_cycle g"
  "pending_nodes (link g e) = pending_nodes g" "nodes (link g e) = nodes g"
  by (simp_all add: link_def)

lemma touch_touch:
  assumes "maps_wf g"
  shows "touch (touch g r f) r h = touch g r (h \<circ> f)"
    "r \<noteq> q \<Longrightarrow> touch (touch g r f) q h = touch (touch g q h) r f"
  using assms
  by (simp_all add: touch_def maps_wf_def node_at_put om.put_again os_insert_member)
    (simp add: om.put_commute os_insert_commute)

lemma link_link: "maps_wf g \<Longrightarrow> link (link g e) d = link (link g d) e"
  by (simp add: link_def maps_wf_def os_insert_commute)

lemma touch_link: "touch (link g e) r f = link (touch g r f) e"
  by (simp add: link_def touch_def)

definition set_node :: "u64 \<Rightarrow> u32 \<Rightarrow> node \<Rightarrow> node" where
  "set_node c w n = n\<lparr>present := True, cycle := c, width := w\<rparr>"

definition set_word :: "u32 \<Rightarrow> u32 \<Rightarrow> node \<Rightarrow> node" where
  "set_word i w n = n\<lparr>words := om_put i w (words n)\<rparr>"

lemma set_node_select [simp]: "present (set_node c w n)" "words (set_node c w n) = words n"
  by (simp_all add: set_node_def)

lemma set_word_select [simp]: "present (set_word i w n) = present n"
  "om_wf (words n) \<Longrightarrow> om_find (words (set_word i w n)) j = (if j = i then Some w else om_find (words n) j)"
  by (simp_all add: set_word_def om_find_put)

lemma succeeded_node:
  "succeeded g (Op_node r c w) = Some g' \<longleftrightarrow> \<not> (streaming g \<and> streamed (finished_cycle g) c)
     \<and> \<not> present (node_at (nodes g) r) \<and> g' = touch g r (set_node c w)"
  by (auto simp: succeeded_def record_node_def Let_def touch_def set_node_def)

lemma succeeded_payload:
  "succeeded g (Op_payload r i w) = Some g' \<longleftrightarrow>
     \<not> (streaming g \<and> present (node_at (nodes g) r) \<and> r \<notin> set (pending_nodes g))
     \<and> \<not> om_has (words (node_at (nodes g) r)) i \<and> g' = touch g r (set_word i w)"
  by (auto simp: succeeded_def record_payload_def Let_def touch_def set_word_def)

lemma succeeded_edge:
  "succeeded g (Op_edge p c) = Some g' \<longleftrightarrow>
     \<not> (streaming g \<and> present (node_at (nodes g) c) \<and> c \<notin> set (pending_nodes g)) \<and> g' = link g (p, c)"
  by (auto simp: succeeded_def record_edge_def link_def)

lemmas succeeded_simps = succeeded_node succeeded_payload succeeded_edge

lemma maps_wf_touch: "maps_wf g \<Longrightarrow> om_wf (words (f (node_at (nodes g) r))) \<Longrightarrow> maps_wf (touch g r f)"
  by (auto simp: maps_wf_def touch_def om_wf_put in_om_put split: if_splits)

lemma maps_wf_link: "maps_wf g \<Longrightarrow> maps_wf (link g e)"
  by (simp add: maps_wf_def link_def)

lemma succeeded_keep: "maps_wf g \<Longrightarrow> recording op \<Longrightarrow> succeeded g op = Some g' \<Longrightarrow> maps_wf g'"
  using maps_wf_words [of g]
  by (cases op) (auto simp: succeeded_simps set_word_def om_wf_put maps_wf_link intro!: maps_wf_touch)

lemma set_word_commute:
  "om_wf (words n) \<Longrightarrow> i \<noteq> j \<Longrightarrow> set_word i v (set_word j w n) = set_word j w (set_word i v n)"
  by (simp add: set_word_def om.put_commute)

lemma set_word_node: "set_word i v (set_node c w n) = set_node c w (set_word i v n)"
  by (simp add: set_word_def set_node_def)

lemma touch_same: "maps_wf g \<Longrightarrow> f (h (node_at (nodes g) r)) = h (f (node_at (nodes g) r)) \<Longrightarrow>
    touch (touch g r f) r h = touch (touch g r h) r f"
  unfolding touch_touch by (simp add: touch_def)

lemma succeeded_swap:
  assumes "maps_wf g" "recording a" "recording b" "succeeded g a = Some t" "succeeded t b = Some u"
  shows "\<exists>t'. succeeded g b = Some t' \<and> succeeded t' a = Some u"
proof -
  have wf: "om_wf (nodes g)" using assms(1) by (simp add: maps_wf_def)
  note ww = maps_wf_words [OF assms(1)]
  note same = touch_same [OF assms(1)] touch_touch(2) [OF assms(1)]
  show ?thesis
  proof (cases a)
    case (Op_node r c w)
    then show ?thesis
      using assms(2-) wf ww [of r]
      by (cases b) (auto simp: succeeded_simps touch_link same set_word_node split: if_splits)
  next
    case (Op_payload r i w)
    then show ?thesis
      using assms(2-) wf ww [of r]
      by (cases b) (auto simp: succeeded_simps touch_link same set_word_node set_word_commute split: if_splits)
  next
    case (Op_edge p c)
    then show ?thesis
      using assms(2-) wf
      by (cases b) (auto simp: succeeded_simps touch_link link_link [OF assms(1)] split: if_splits)
  qed (use assms in auto)
qed

interpretation recorder: commuting_steps succeeded maps_wf recording
  by unfold_locales (auto intro: succeeded_keep succeeded_swap)

section \<open>Properties\<close>

lemma reachable_maps_wf: "graph_reachable g \<Longrightarrow> maps_wf g"
  using reachable_inv by (simp add: graph_inv_def)

text \<open>C19: the callbacks of an unfinished cycle may arrive in any order: if a sequence of node, payload
  and edge callbacks succeeds from a reachable graph, every permutation succeeds with the same graph.\<close>

theorem callbacks_any_order:
  assumes "graph_reachable g" "list_all recording ops" "mset ops = mset ops'"
    "run_steps succeeded g ops = Some g'"
  shows "run_steps succeeded g ops' = Some g'"
  using recorder.run_permuted [OF reachable_maps_wf [OF assms(1)] assms(2,3,4)] .

theorem callbacks_any_order_witness:
  "run_steps succeeded example_stream (rev example_callbacks) = Some example_graph"
proof (rule callbacks_any_order)
  show "graph_reachable example_stream"
    unfolding example_stream_def by (rule reachable_run) (rule graph_reachable.initial)
  show "list_all recording example_callbacks" by (simp add: example_callbacks_def)
  show "mset example_callbacks = mset (rev example_callbacks)" by simp
  show "run_steps succeeded example_stream example_callbacks = Some example_graph" by code_simp
qed

end
