(* ===== verification/Rheg_Json.thy ===== *)
theory Rheg_Json
  imports Rheg_Order
begin

text \<open>
  The JSON texts of \<open>rheg/runtime/rheg.cc\<close>: occurrences, snapshots and cycle batches. The locale
  \<open>readable\<close> states that a text determines the value it was printed from when a delimiter
  follows; lists of readable items are readable again, so a whole batch is.
\<close>

section \<open>Printing\<close>

text \<open>The loops with a \<open>comma\<close> flag.\<close>

fun separated :: "bool \<Rightarrow> ('a \<Rightarrow> string) \<Rightarrow> 'a list \<Rightarrow> string" where
  "separated comma f [] = []"
| "separated comma f (x # xs) = (if comma then '','' else []) @ f x @ separated True f xs"

definition show_word :: "'a::len word \<Rightarrow> string" where
  "show_word w = show_nat (unat w)"

type_synonym node_view = "ref \<times> u64 \<times> u32 \<times> u32 list"

definition node_view :: "ref \<times> node \<Rightarrow> node_view" where
  "node_view e = (fst e, cycle (snd e), width (snd e), map snd (words (snd e)))"

definition node_text :: "node_view \<Rightarrow> string" where
  \<open>node_text v = (case v of (r, c, w, ws) \<Rightarrow>
     ''{"site":'' @ show_word (site r) @ '',"sequence":"'' @ show_word (sequence r)
     @ ''","cycle":"'' @ show_word c @ ''","width":'' @ show_word w @ '',"words":[''
     @ separated False show_word ws @ '']}'')\<close>

definition edge_text :: "edge \<Rightarrow> string" where
  \<open>edge_text e = ''{"parent":['' @ show_word (site (fst e)) @ '',"'' @ show_word (sequence (fst e))
     @ ''"],"child":['' @ show_word (site (snd e)) @ '',"'' @ show_word (sequence (snd e)) @ ''"]}''\<close>

definition occurrences_json :: "(ref \<times> node) list \<Rightarrow> edge list \<Rightarrow> string" where
  \<open>occurrences_json ns es =
     ''{"format":"rhodium-event-occurrences","version":1,"nodes":[''
     @ separated False node_text (map node_view ns) @ ''],"edges":[''
     @ separated False edge_text es @ '']}'' @ [CHR 0x0A]\<close>

definition graph_json :: "graph \<Rightarrow> rheg_error + string" where
  "graph_json g = bind_result (validate g) (\<lambda>_. Inr (occurrences_json (nodes g) (edges g)))"

text \<open>A snapshot has a manifest; \<open>graph_.json()\<close> validates its copy again.\<close>

definition snapshot_json :: "snapshot \<Rightarrow> manifest \<Rightarrow> rheg_error + string" where
  \<open>snapshot_json h m =
     bind_result (graph_json h) (\<lambda>occurrences.
       Inr (''{"format":"rhodium-event-trace","version":1,"manifest":'' @ mjson m
         @ (case gtiming h of None \<Rightarrow> []
            | Some t \<Rightarrow> '',"timing":{"clock_frequency_hz":"'' @ show_word (clock_frequency_hz t)
                @ ''","epoch_id":"'' @ show_word (epoch_id t) @ ''","origin":"cycle-zero"}'')
         @ '',"occurrences":'' @ occurrences @ ''}'' @ [CHR 0x0A]))\<close>

definition cycle_batch_json :: "cycle_batch \<Rightarrow> string" where
  \<open>cycle_batch_json b =
     ''{"format":"rhodium-event-cycle","version":1,"cycle":"'' @ show_word (bcycle b)
     @ ''","occurrences":'' @ butlast (occurrences_json (bnodes b) (bedges b)) @ ''}'' @ [CHR 0x0A]\<close>

section \<open>Numerals can be read back\<close>

fun dec_value :: "nat list \<Rightarrow> nat" where
  "dec_value [] = 0"
| "dec_value (d # ds) = d + 10 * dec_value ds"

lemma dec_value_digits: "dec_value (dec_digits n) = n"
proof (induction n rule: dec_digits.induct)
  case (1 n)
  show ?case
  proof (cases "n < 10")
    case False
    with 1 show ?thesis by (subst dec_digits.simps) simp
  qed (simp add: dec_digits_small)
qed

lemma dec_digits_range: "set (dec_digits n) \<subseteq> {..<10}"
proof (induction n rule: dec_digits.induct)
  case (1 n)
  show ?case
  proof (cases "n < 10")
    case False
    with 1 show ?thesis by (subst dec_digits.simps) auto
  qed (simp add: dec_digits_small)
qed

lemma digit_char_code: "d < 10 \<Longrightarrow> char_code (digit_char d) = 48 + d"
  by (simp add: char_code_def digit_char_def)

lemma digit_digit_char: "d < 10 \<Longrightarrow> digit (digit_char d)"
  by (simp add: digit_def digit_char_code)

lemma digits_show_nat: "list_all digit (show_nat n)"
  using dec_digits_range [of n] by (auto simp: show_nat_def list_all_iff digit_digit_char)

lemma show_nat_nonempty: "show_nat n \<noteq> []"
  by (simp add: show_nat_def dec_digits.simps)

lemma inj_show_nat: "show_nat a = show_nat b \<longleftrightarrow> a = b"
proof
  assume "show_nat a = show_nat b"
  then have "map digit_char (dec_digits a) = map digit_char (dec_digits b)"
    by (simp add: show_nat_def)
  moreover have "inj_on digit_char {..<10}"
    by (rule inj_on_inverseI [where g = "\<lambda>c. char_code c - 48"]) (simp add: digit_char_code)
  then have "inj_on digit_char (set (dec_digits a) \<union> set (dec_digits b))"
    using dec_digits_range by (metis Un_least inj_on_subset)
  ultimately have "dec_digits a = dec_digits b" by (simp add: inj_on_map_eq_map)
  then show "a = b" by (metis dec_value_digits)
qed simp

lemma takeWhile_digits:
  "list_all digit s \<Longrightarrow> \<not> digit c \<Longrightarrow> takeWhile digit (s @ c # t) = s"
  by (induction s) auto

section \<open>Readable texts\<close>

text \<open>The characters that may follow an item of a list.\<close>

definition stops :: "char set" where
  "stops = {CHR '','', CHR '']''}"

locale readable =
  fixes render :: "'a \<Rightarrow> string"
  assumes unique: "c \<in> stops \<Longrightarrow> d \<in> stops \<Longrightarrow> render x @ c # s = render y @ d # t \<Longrightarrow> x = y \<and> c = d \<and> s = t"
    and starts: "render x \<noteq> [] \<and> hd (render x) \<notin> stops"
begin

lemma first_item: "render x @ s \<noteq> c # t" if "c \<in> stops"
  using starts [of x] that by (cases "render x") auto

lemma list_unique:
  "separated b render xs @ CHR '']'' # s = separated b render ys @ CHR '']'' # t \<Longrightarrow> xs = ys \<and> s = t"
proof (induction xs arbitrary: ys b)
  case Nil
  then show ?case
    using first_item [of "CHR '']''" "hd ys"] by (cases ys) (auto simp: stops_def eq_commute [of "CHR '']'' # s"] split: if_splits)
next
  case (Cons x xs)
  show ?case
  proof (cases ys)
    case Nil
    then show ?thesis using Cons.prems first_item [of "CHR '']''" x] by (auto simp: stops_def split: if_splits)
  next
    case (Cons y ys')
    have follow: "\<exists>c u. c \<in> stops \<and> separated True render zs @ CHR '']'' # v = c # u
        \<and> c # u = separated True render zs @ CHR '']'' # v" for zs v
      by (cases zs) (auto simp: stops_def)
    from Cons Cons.prems have eq: "render x @ separated True render xs @ CHR '']'' # s
        = render y @ separated True render ys' @ CHR '']'' # t"
      by (cases b) simp_all
    obtain c u d v where "c \<in> stops" "separated True render xs @ CHR '']'' # s = c # u"
      "d \<in> stops" "separated True render ys' @ CHR '']'' # t = d # v"
      using follow by metis
    moreover from this eq have "x = y \<and> c = d \<and> u = v" by (intro unique) simp_all
    ultimately show ?thesis using Cons.IH [of True ys'] Cons by auto
  qed
qed

end

lemma show_word_unique:
  fixes x y :: "'a::len word"
  assumes "\<not> digit c" "\<not> digit d" "show_word x @ c # s = show_word y @ d # t"
  shows "x = y \<and> c = d \<and> s = t"
proof -
  have "show_word x = show_word y"
    using assms takeWhile_digits [OF digits_show_nat] unfolding show_word_def by metis
  then have "x = y" by (simp add: show_word_def inj_show_nat word_unat_eq_iff)
  with assms(3) show ?thesis by simp
qed

lemma stops_no_digit: "c \<in> stops \<Longrightarrow> \<not> digit c"
  by (auto simp: stops_def digit_def char_code_def)

lemma show_word_starts: "show_word x \<noteq> [] \<and> hd (show_word x) \<notin> stops"
  using show_nat_nonempty [of "unat x"] digits_show_nat [of "unat x"] stops_no_digit
  by (cases "show_nat (unat x)") (auto simp: show_word_def)

interpretation words: readable "show_word :: u32 \<Rightarrow> string"
  by unfold_locales (use show_word_unique stops_no_digit show_word_starts in blast)+

text \<open>A quotation mark also ends a numeral.\<close>

lemma quote_no_digit [simp]: "\<not> digit (CHR 0x22)" "\<not> digit (CHR '','')" "\<not> digit (CHR '']'')"
  by (simp_all add: digit_def char_code_def)

lemma node_text_unique: "node_text x @ s = node_text y @ t \<Longrightarrow> x = y \<and> s = t"
  by (cases x; cases y)
    (auto simp: node_text_def dest!: show_word_unique [rotated 2] words.list_unique intro: ref.expand)

lemma edge_text_unique: "edge_text x @ s = edge_text y @ t \<Longrightarrow> x = y \<and> s = t"
  by (cases x; cases y) (auto simp: edge_text_def dest!: show_word_unique [rotated 2] intro: ref.expand)

interpretation node_texts: readable node_text
proof
  show "x = y \<and> c = d \<and> s = t" if "node_text x @ c # s = node_text y @ d # t" for x y c d s t
    using node_text_unique [OF that] by simp
  show "node_text x \<noteq> [] \<and> hd (node_text x) \<notin> stops" for x
    by (cases x) (simp add: node_text_def stops_def)
qed

interpretation edge_texts: readable edge_text
proof
  show "x = y \<and> c = d \<and> s = t" if "edge_text x @ c # s = edge_text y @ d # t" for x y c d s t
    using edge_text_unique [OF that] by simp
  show "edge_text x \<noteq> [] \<and> hd (edge_text x) \<notin> stops" for x
    by (simp add: edge_text_def stops_def)
qed

lemma occurrences_json_views:
  assumes "occurrences_json ns es = occurrences_json ns' es'"
  shows "map node_view ns = map node_view ns' \<and> es = es'"
proof -
  let ?rest = "\<lambda>es. '',\"edges\":['' @ separated False edge_text es @ CHR '']'' # ''}'' @ [CHR 0x0A]"
  have "separated False node_text (map node_view ns) @ CHR '']'' # ?rest es
      = separated False node_text (map node_view ns') @ CHR '']'' # ?rest es'"
    using assms by (simp add: occurrences_json_def)
  from node_texts.list_unique [OF this]
  have n: "map node_view ns = map node_view ns'" and "?rest es = ?rest es'" by blast+
  then have "separated False edge_text es @ CHR '']'' # ''}'' @ [CHR 0x0A]
      = separated False edge_text es' @ CHR '']'' # ''}'' @ [CHR 0x0A]" by simp
  from edge_texts.list_unique [OF this] n show ?thesis by blast
qed

lemma complete_node_view:
  assumes "node_complete m" "node_complete n" "node_view (r, m) = node_view (q, n)"
  shows "(r, m) = (q, n)"
proof -
  have len: "length (words m) = length (words n)"
    using assms(3) by (auto simp: node_view_def dest: map_eq_imp_length_eq)
  then have "map fst (words m) = map fst (words n)"
    using complete_keys [OF assms(1)] complete_keys [OF assms(2)] by simp
  moreover have "map snd (words m) = map snd (words n)" using assms(3) by (simp add: node_view_def)
  ultimately have "words m = words n" by (metis zip_map_fst_snd)
  with assms show ?thesis by (simp add: node_view_def node_complete_def)
qed

lemma complete_nodes_view:
  assumes "\<forall>e \<in> set ns. node_complete (snd e)" "\<forall>e \<in> set ns'. node_complete (snd e)"
    "map node_view ns = map node_view ns'"
  shows "ns = ns'"
proof (rule nth_equalityI)
  show len: "length ns = length ns'" using assms(3) by (rule map_eq_imp_length_eq)
  fix i assume i: "i < length ns"
  then have "node_view (ns ! i) = node_view (ns' ! i)" using assms(3) len by (metis nth_map)
  with i len assms(1,2) show "ns ! i = ns' ! i"
    by (cases "ns ! i"; cases "ns' ! i") (metis complete_node_view nth_mem snd_conv)
qed

text \<open>Validation without a manifest also leaves complete nodes.\<close>

lemma checked_complete: "check_node mo (r, n) = Inr () \<Longrightarrow> om_wf (words n) \<Longrightarrow> node_complete n"
  by (auto simp: check_node_def node_complete_def bind_unit_eq_Inr throw_if_eq_Inr list_all_iff)

lemma valid_complete:
  assumes "graph_inv g" "validate g = Inr ()"
  shows "\<forall>e \<in> set (nodes g). node_complete (snd e)"
  using assms checked_complete
  by (fastforce simp: validate_def validate_entries_ok graph_inv_def maps_wf_def)

text \<open>C20: the occurrence text of a graph determines its nodes and edges: two reachable graphs that print
  the same text have the same nodes, with all identities, cycles, widths and words, and edges.\<close>

theorem graph_json_lossless:
  assumes "graph_reachable g" "graph_reachable g'" "graph_json g = Inr s" "graph_json g' = Inr s"
  shows "nodes g = nodes g' \<and> edges g = edges g'"
proof -
  have v: "validate g = Inr ()" "validate g' = Inr ()"
    "occurrences_json (nodes g) (edges g) = occurrences_json (nodes g') (edges g')"
    using assms(3,4) by (auto simp: graph_json_def bind_unit_eq_Inr)
  show ?thesis
    using occurrences_json_views [OF v(3)] complete_nodes_view valid_complete reachable_inv assms(1,2) v(1,2)
    by blast
qed

definition example_reversed :: graph where
  "example_reversed = graph_run new_graph (example_setup @ rev example_callbacks)"

lemma example_reversed_reachable: "graph_reachable example_reversed"
  unfolding example_reversed_def by (rule reachable_run) (rule graph_reachable.initial)

lemma example_reversed_eq: "example_reversed = example_graph"
  by code_simp

theorem graph_json_lossless_witness:
  "nodes example_reversed = nodes example_graph \<and> edges example_reversed = edges example_graph"
proof -
  have "validate example_graph = Inr ()" by code_simp
  then have json: "graph_json example_graph
      = Inr (occurrences_json (nodes example_graph) (edges example_graph))"
    by (simp add: graph_json_def)
  show ?thesis
    using graph_json_lossless [OF example_reversed_reachable example_reachable _ json] json
    by (simp add: example_reversed_eq)
qed

text \<open>the line printed for a cycle batch determines the batch.\<close>

theorem cycle_batch_json_lossless:
  assumes "graph_reachable g" "finish_cycle g c = (h, Inr b)"
    and "graph_reachable g'" "finish_cycle g' c' = (h', Inr b')"
    and "cycle_batch_json b = cycle_batch_json b'"
  shows "b = b'"
proof -
  have batch: "\<forall>e \<in> set (bnodes b). node_complete (snd e)"
    if g: "graph_reachable g" and r: "finish_cycle g c = (h, Inr b)" for g c h b
  proof -
    have "validate g = Inr ()" using r finish_cycle_iff [OF g] by blast
    moreover have "b = pending_batch g c" using r by (simp add: finish_cycle_ok)
    ultimately show ?thesis
      using valid_complete [of g] inv_pending_has [of g] in_nodes_find [of g] reachable_inv [OF g]
      by (fastforce simp: pending_batch_def node_at_def split: option.splits)
  qed
  have eq: "show_word (bcycle b) @ CHR 0x22 # '',\"occurrences\":'' @ butlast (occurrences_json (bnodes b) (bedges b))
        @ ''}'' @ [CHR 0x0A]
      = show_word (bcycle b') @ CHR 0x22 # '',\"occurrences\":'' @ butlast (occurrences_json (bnodes b') (bedges b'))
        @ ''}'' @ [CHR 0x0A]"
    using assms(5) by (simp add: cycle_batch_json_def)
  from show_word_unique [OF _ _ eq] have c: "bcycle b = bcycle b'"
    and "butlast (occurrences_json (bnodes b) (bedges b)) = butlast (occurrences_json (bnodes b') (bedges b'))"
    by simp_all
  then have "occurrences_json (bnodes b) (bedges b) = occurrences_json (bnodes b') (bedges b')"
    by (simp add: occurrences_json_def butlast_append)
  from occurrences_json_views [OF this] have "bnodes b = bnodes b'" "bedges b = bedges b'"
    using complete_nodes_view batch assms(1-4) by blast+
  with c show ?thesis by simp
qed

theorem cycle_batch_json_lossless_witness:
  "pending_batch example_reversed 5 = pending_batch example_graph 5"
proof -
  have "finish_conditions example_graph 5" "validate example_graph = Inr ()"
    by (code_simp, code_simp)
  then obtain h b where "finish_cycle example_graph 5 = (h, Inr b)"
    using finish_cycle_iff [OF example_reachable] by meson
  then have r: "finish_cycle example_graph 5 = (h, Inr (pending_batch example_graph 5))"
    by (simp add: finish_cycle_ok)
  then have q: "finish_cycle example_reversed 5 = (h, Inr (pending_batch example_reversed 5))"
    by (simp add: example_reversed_eq)
  show ?thesis
    by (rule cycle_batch_json_lossless [OF example_reversed_reachable q example_reachable r])
      (simp add: example_reversed_eq)
qed

end
