(* ===== verification/Uart_Dpi.thy ===== *)
theory Uart_Dpi
  imports Prelude
begin

text \<open>
  \<open>devices/dpi/uart_dpi.cc\<close>: UART models, each with a pseudo-terminal and two byte queues. What the
  operating system answers is an argument: the results of the calls that open the terminal, and
  the results of successive \<open>read\<close> and \<open>write\<close> calls as lists. The I/O loops may run as long as the
  system keeps answering, so a loop that has used up its list has not returned: \<open>None\<close>.
\<close>

section \<open>The operating system\<close>

datatype errno = EINTR | EAGAIN | EWOULDBLOCK | EIO | Other_errno

datatype io_result =
    Transferred "u8 list"   \<comment> \<open>\<open>read\<close>: the bytes stored; empty for 0\<close>
  | Failed errno

datatype write_result = Accepted nat | Write_failed errno

datatype iflag = IGNBRK | BRKINT | PARMRK | ISTRIP | INLCR | IGNCR | ICRNL | IXON | IXOFF | IXANY
  | Other_iflag nat
datatype oflag = OPOST | Other_oflag nat
datatype lflag = ECHO | ECHONL | ICANON | ISIG | IEXTEN | Other_lflag nat
datatype char_size = CS5 | CS6 | CS7 | CS8

text \<open>\<open>termios\<close>: the flags that are set; \<open>CSIZE\<close> is the field \<open>c_csize\<close> of \<open>c_cflag\<close>.\<close>

record termios =
  c_iflag :: "iflag list"
  c_oflag :: "oflag list"
  c_lflag :: "lflag list"
  c_csize :: char_size
  c_parenb :: bool
  c_vmin :: nat
  c_vtime :: nat

record open_calls =
  posix_openpt :: int
  grantpt :: int
  unlockpt :: int
  ptsname :: "string option"
  open_slave :: int
  tcgetattr :: "termios option"      \<comment> \<open>\<open>None\<close>: a nonzero result\<close>
  tcsetattr :: int

datatype os_event = Closed int | Configured int termios

section \<open>One model\<close>

record uart_model =
  master_fd :: int
  configuration_fd :: int
  slave_path :: string
  pty_to_uart :: "u8 list"
  uart_to_pty :: "u8 list"
  framing_errors :: u32

definition new_uart :: uart_model where
  "new_uart = \<lparr>master_fd = - 1, configuration_fd = - 1, slave_path = [], pty_to_uart = [],
     uart_to_pty = [], framing_errors = 0\<rparr>"

definition raw_attributes :: "termios \<Rightarrow> termios" where
  "raw_attributes a = a\<lparr>
     c_iflag := filter (\<lambda>f. f \<notin> {IGNBRK, BRKINT, PARMRK, ISTRIP, INLCR, IGNCR, ICRNL, IXON, IXOFF, IXANY})
       (c_iflag a),
     c_oflag := filter (\<lambda>f. f \<noteq> OPOST) (c_oflag a),
     c_lflag := filter (\<lambda>f. f \<notin> {ECHO, ECHONL, ICANON, ISIG, IEXTEN}) (c_lflag a),
     c_parenb := False, c_csize := CS8, c_vmin := 1, c_vtime := 0\<rparr>"

definition open_pty :: "uart_model \<Rightarrow> open_calls \<Rightarrow> uart_model \<times> nat \<times> os_event list" where
  "open_pty u os =
     (if master_fd u \<ge> 0 then (u, 0, [])
      else let master = posix_openpt os in
        if master < 0 \<or> grantpt os \<noteq> 0 \<or> unlockpt os \<noteq> 0
        then (u, 2, if master \<ge> 0 then [Closed master] else [])
        else (case ptsname os of
            None \<Rightarrow> (u, 2, [Closed master])
          | Some path \<Rightarrow>
              let slave = open_slave os in
              if slave < 0 then (u, 2, [Closed master])
              else (case tcgetattr os of
                  None \<Rightarrow> (u, 3, [Closed slave, Closed master])
                | Some a \<Rightarrow>
                    let attributes = raw_attributes a in
                    if tcsetattr os \<noteq> 0
                    then (u, 3, [Configured slave attributes, Closed slave, Closed master])
                    else (u\<lparr>master_fd := master, configuration_fd := slave, slave_path := path\<rparr>, 0,
                      [Configured slave attributes]))))"

text \<open>The destructor.\<close>

definition destroy :: "uart_model \<Rightarrow> os_event list" where
  "destroy u = (if configuration_fd u \<ge> 0 then [Closed (configuration_fd u)] else [])
     @ (if master_fd u \<ge> 0 then [Closed (master_fd u)] else [])"

definition transient :: "errno \<Rightarrow> bool" where
  "transient e \<longleftrightarrow> e = EAGAIN \<or> e = EWOULDBLOCK \<or> e = EIO"

fun read_pty :: "uart_model \<Rightarrow> io_result list \<Rightarrow> (uart_model \<times> nat) option" where
  "read_pty u [] = None"
| "read_pty u (Transferred bs # os) =
     (if bs \<noteq> [] then read_pty (u\<lparr>pty_to_uart := pty_to_uart u @ bs\<rparr>) os else Some (u, 0))"
| "read_pty u (Failed e # os) =
     (if e = EINTR then read_pty u os else if transient e then Some (u, 0) else Some (u, 4))"

definition io_chunk_bytes :: nat where
  "io_chunk_bytes = 256"

text \<open>The bytes each call hands to the terminal are collected in the result.\<close>

fun write_pty :: "uart_model \<Rightarrow> write_result list \<Rightarrow> (uart_model \<times> nat \<times> u8 list) option" where
  "write_pty u [] = (if uart_to_pty u = [] then Some (u, 0, []) else None)"
| "write_pty u (r # os) =
     (if uart_to_pty u = [] then Some (u, 0, [])
      else let chunk = min io_chunk_bytes (length (uart_to_pty u)); bytes = take chunk (uart_to_pty u) in
        (case r of
          Accepted n \<Rightarrow>
            if n > 0
            then map_option (\<lambda>(u, s, sent). (u, s, take n bytes @ sent))
              (write_pty (u\<lparr>uart_to_pty := drop n (uart_to_pty u)\<rparr>) os)
            else Some (u, 0, [])
        | Write_failed e \<Rightarrow>
            if e = EINTR then write_pty u os else if transient e then Some (u, 0, []) else Some (u, 4, [])))"

section \<open>The DPI functions\<close>

type_synonym uarts = "u32 \<Rightarrow> uart_model option"

text \<open>The model of an identity, created on first use; the caller stores it back.\<close>

definition uart_of :: "uarts \<Rightarrow> u32 \<Rightarrow> uart_model" where
  "uart_of ms i = (case ms i of None \<Rightarrow> new_uart | Some u \<Rightarrow> u)"

record tick_inputs =
  in_reset :: u8
  in_valid :: u8
  in_byte :: u8
  in_framing_error :: u8
  in_ready :: u8

record tick_result =
  tick_status :: nat
  tick_out :: "(u8 \<times> u8) option"    \<comment> \<open>\<open>*pty_to_uart_valid\<close>, \<open>*pty_to_uart_byte\<close>; \<open>None\<close>: not written\<close>
  tick_sent :: "u8 list"

definition accept_byte :: "uart_model \<Rightarrow> tick_inputs \<Rightarrow> uart_model" where
  "accept_byte u i =
     (if in_reset i = 0 \<and> in_valid i \<noteq> 0
      then let u = u\<lparr>uart_to_pty := uart_to_pty u @ [in_byte i]\<rparr>
        in if in_framing_error i \<noteq> 0 then u\<lparr>framing_errors := framing_errors u + 1\<rparr> else u
      else u)"

definition deliver_byte :: "uart_model \<Rightarrow> tick_inputs \<Rightarrow> uart_model \<times> (u8 \<times> u8)" where
  "deliver_byte u i =
     (if in_reset i = 0 \<and> in_ready i \<noteq> 0
      then (case pty_to_uart u of [] \<Rightarrow> (u, (0, 0)) | b # bs \<Rightarrow> (u\<lparr>pty_to_uart := bs\<rparr>, (1, b)))
      else (u, (0, 0)))"

definition uart_pty_tick ::
  "uarts \<Rightarrow> u32 \<Rightarrow> tick_inputs \<Rightarrow> bool \<Rightarrow> open_calls \<Rightarrow> io_result list \<Rightarrow> write_result list
    \<Rightarrow> (uarts \<times> tick_result) option" where
  "uart_pty_tick ms i inputs pointers_given os reads writes =
     (if \<not> pointers_given then Some (ms, \<lparr>tick_status = 1, tick_out = None, tick_sent = []\<rparr>)
      else case open_pty (uart_of ms i) os of (u, s, _) \<Rightarrow>
        if s \<noteq> 0 then Some (ms(i \<mapsto> u), \<lparr>tick_status = s, tick_out = Some (0, 0), tick_sent = []\<rparr>)
        else (case read_pty u reads of
            None \<Rightarrow> None
          | Some (u, s) \<Rightarrow>
              if s \<noteq> 0 then Some (ms(i \<mapsto> u), \<lparr>tick_status = s, tick_out = Some (0, 0), tick_sent = []\<rparr>)
              else (case write_pty (accept_byte u inputs) writes of
                  None \<Rightarrow> None
                | Some (u, s, bytes) \<Rightarrow>
                    if s \<noteq> 0 then Some (ms(i \<mapsto> u), \<lparr>tick_status = s, tick_out = Some (0, 0), tick_sent = bytes\<rparr>)
                    else (case deliver_byte u inputs of (u, d) \<Rightarrow>
                      Some (ms(i \<mapsto> u), \<lparr>tick_status = 0, tick_out = Some d, tick_sent = bytes\<rparr>)))))"

definition uart_pty_path :: "uarts \<Rightarrow> u32 \<Rightarrow> open_calls \<Rightarrow> uarts \<times> string option" where
  "uart_pty_path ms i os =
     (case open_pty (uart_of ms i) os of (u, s, _) \<Rightarrow>
       (ms(i \<mapsto> u), if s \<noteq> 0 then None else Some (slave_path u)))"

definition uart_pty_framing_errors :: "uarts \<Rightarrow> u32 \<Rightarrow> uarts \<times> u32" where
  "uart_pty_framing_errors ms i = (ms(i \<mapsto> uart_of ms i), framing_errors (uart_of ms i))"

section \<open>Opening the terminal\<close>

text \<open>The descriptors the calls of one opening have returned.\<close>

definition opened_fds :: "open_calls \<Rightarrow> int list" where
  "opened_fds os =
     (if posix_openpt os < 0 then []
      else if grantpt os = 0 \<and> unlockpt os = 0 \<and> ptsname os \<noteq> None \<and> open_slave os \<ge> 0
      then [open_slave os, posix_openpt os] else [posix_openpt os])"

definition closed_fds :: "os_event list \<Rightarrow> int list" where
  "closed_fds es = concat (map (\<lambda>e. case e of Closed fd \<Rightarrow> [fd] | Configured _ _ \<Rightarrow> []) es)"

definition raw_mode :: "termios \<Rightarrow> bool" where
  "raw_mode a \<longleftrightarrow> set (c_iflag a) \<inter> {IGNBRK, BRKINT, PARMRK, ISTRIP, INLCR, IGNCR, ICRNL, IXON, IXOFF, IXANY} = {}
     \<and> OPOST \<notin> set (c_oflag a) \<and> set (c_lflag a) \<inter> {ECHO, ECHONL, ICANON, ISIG, IEXTEN} = {}
     \<and> c_csize a = CS8 \<and> \<not> c_parenb a"

lemma raw_attributes_raw: "raw_mode (raw_attributes a)"
  by (auto simp: raw_mode_def raw_attributes_def)

text \<open>C21: opening a terminal leaks no descriptor and half-opens no model: on failure the model is
  unchanged and every descriptor the calls returned has been closed, once; on success both
  descriptors and the path are kept and the slave has been put in raw eight-bit mode; an open
  model is left alone.\<close>

theorem uart_open_no_leak:
  "case open_pty u os of (u', s, es) \<Rightarrow>
     if master_fd u \<ge> 0 then u' = u \<and> s = 0 \<and> es = []
     else if s = 0
     then master_fd u' = posix_openpt os \<and> master_fd u' \<ge> 0 \<and> configuration_fd u' = open_slave os
       \<and> configuration_fd u' \<ge> 0 \<and> Some (slave_path u') = ptsname os \<and> closed_fds es = []
       \<and> (\<exists>a. es = [Configured (open_slave os) a] \<and> raw_mode a)
     else u' = u \<and> s \<in> {2, 3} \<and> closed_fds es = opened_fds os"
  by (auto simp: open_pty_def opened_fds_def closed_fds_def Let_def raw_attributes_raw split: option.splits)

section \<open>The loops\<close>

fun stops_read :: "io_result \<Rightarrow> bool" where
  "stops_read (Transferred bs) \<longleftrightarrow> bs = []"
| "stops_read (Failed e) \<longleftrightarrow> e \<noteq> EINTR"

text \<open>The bytes that arrive before the first result that ends the loop, and the status it gives.\<close>

definition bytes_read :: "io_result list \<Rightarrow> u8 list" where
  "bytes_read os = concat (map (\<lambda>r. case r of Transferred bs \<Rightarrow> bs | Failed e \<Rightarrow> [])
     (takeWhile (\<lambda>r. \<not> stops_read r) os))"

lemma read_pty_some:
  "read_pty u os = Some (u', s) \<Longrightarrow> u' = u\<lparr>pty_to_uart := pty_to_uart u @ bytes_read os\<rparr>"
  by (induction u os rule: read_pty.induct) (auto simp: bytes_read_def split: if_splits)

lemma read_pty_returns: "(\<exists>r. read_pty u os = Some r) \<longleftrightarrow> list_ex stops_read os"
  by (induction u os rule: read_pty.induct) auto

text \<open>\<open>write\<close> returns at most the number of bytes it was given.\<close>

fun write_bounded :: "write_result \<Rightarrow> bool" where
  "write_bounded (Accepted n) \<longleftrightarrow> n \<le> io_chunk_bytes"
| "write_bounded (Write_failed e) \<longleftrightarrow> True"

lemma chunk_prefix: "n \<le> io_chunk_bytes \<Longrightarrow> take (min n (min io_chunk_bytes (length q))) q = take n q"
  by (auto simp: min_def)

lemma write_pty_some:
  "list_all write_bounded os \<Longrightarrow> write_pty u os = Some (u', s, bytes) \<Longrightarrow>
    (\<exists>rest. u' = u\<lparr>uart_to_pty := rest\<rparr> \<and> uart_to_pty u = bytes @ rest)"
proof (induction u os arbitrary: bytes rule: write_pty.induct)
  case (2 u r os)
  show ?case
  proof (cases "uart_to_pty u \<noteq> [] \<and> (\<exists>n. r = Accepted n \<and> n > 0)")
    case True
    then obtain n where n: "r = Accepted n" "n > 0" "n \<le> io_chunk_bytes" using "2.prems"(1) by auto
    define v where "v = u\<lparr>uart_to_pty := drop n (uart_to_pty u)\<rparr>"
    obtain b where b: "write_pty v os = Some (u', s, b)" "bytes = take n (uart_to_pty u) @ b"
      using "2.prems"(2) True n by (auto simp: Let_def chunk_prefix v_def)
    have "\<exists>rest. u' = v\<lparr>uart_to_pty := rest\<rparr> \<and> uart_to_pty v = b @ rest"
      using "2.IH"(1) [of _ _ n b] "2.prems"(1) True n b(1) by (simp add: v_def)
    then obtain rest where rest: "u' = v\<lparr>uart_to_pty := rest\<rparr>" "uart_to_pty v = b @ rest" by blast
    have "uart_to_pty u = take n (uart_to_pty u) @ drop n (uart_to_pty u)" by simp
    also have "drop n (uart_to_pty u) = b @ rest" using rest(2) by (simp add: v_def)
    finally show ?thesis using rest b(2) by (auto simp: v_def)
  next
    case False
    then show ?thesis
      using "2.prems" "2.IH"(2) by (cases r) (auto simp: Let_def split: if_splits)
  qed
qed (auto split: if_splits)

section \<open>The queues\<close>

definition reads_done :: "uart_model \<Rightarrow> tick_inputs \<Rightarrow> open_calls \<Rightarrow> io_result list \<Rightarrow> u8 list" where
  "reads_done u i os reads = (if fst (snd (open_pty u os)) = 0 then bytes_read reads else [])"

fun read_status :: "io_result list \<Rightarrow> nat option" where
  "read_status [] = None"
| "read_status (Transferred bs # os) = (if bs \<noteq> [] then read_status os else Some 0)"
| "read_status (Failed e # os) =
     (if e = EINTR then read_status os else if transient e then Some 0 else Some 4)"

lemma read_pty_status: "map_option snd (read_pty u os) = read_status os"
  by (induction u os rule: read_pty.induct) auto

text \<open>The byte from the UART is taken when the reads before it have not failed.\<close>

definition byte_taken :: "uart_model \<Rightarrow> tick_inputs \<Rightarrow> open_calls \<Rightarrow> io_result list \<Rightarrow> u8 list" where
  "byte_taken u i os reads =
     (if fst (snd (open_pty u os)) = 0
        \<and> read_status reads = Some 0
        \<and> in_reset i = 0 \<and> in_valid i \<noteq> 0
      then [in_byte i] else [])"

definition byte_given :: "tick_result \<Rightarrow> u8 list" where
  "byte_given r = (case tick_out r of Some (v, b) \<Rightarrow> if v \<noteq> 0 then [b] else [] | None \<Rightarrow> [])"

text \<open>The history of one model \<open>i\<close> among ticks of any models: bytes read from its terminal, bytes
  given to the UART, bytes taken from the UART, bytes written to the terminal.\<close>

inductive uart_run :: "u32 \<Rightarrow> uarts \<Rightarrow> u8 list \<Rightarrow> u8 list \<Rightarrow> u8 list \<Rightarrow> u8 list \<Rightarrow> bool" where
  start: "uart_run i Map.empty [] [] [] []"
| tick: "uart_run i ms r g t w \<Longrightarrow> list_all write_bounded writes \<Longrightarrow>
    uart_pty_tick ms i inputs True os reads writes = Some (ms', res) \<Longrightarrow>
    uart_run i ms' (r @ reads_done (uart_of ms i) inputs os reads) (g @ byte_given res)
      (t @ byte_taken (uart_of ms i) inputs os reads) (w @ tick_sent res)"
| null_tick: "uart_run i ms r g t w \<Longrightarrow>
    uart_pty_tick ms j inputs False os reads writes = Some (ms', res) \<Longrightarrow> uart_run i ms' r g t w"
| other_tick: "uart_run i ms r g t w \<Longrightarrow> j \<noteq> i \<Longrightarrow>
    uart_pty_tick ms j inputs p os reads writes = Some (ms', res) \<Longrightarrow> uart_run i ms' r g t w"
| query: "uart_run i ms r g t w \<Longrightarrow> ms' = fst (uart_pty_path ms j os) \<or> ms' = fst (uart_pty_framing_errors ms j) \<Longrightarrow>
    uart_run i ms' r g t w"

lemma open_pty_queues:
  "open_pty u os = (u', s, es) \<Longrightarrow> pty_to_uart u' = pty_to_uart u \<and> uart_to_pty u' = uart_to_pty u"
  by (auto simp: open_pty_def Let_def split: if_splits option.splits)

lemma uart_of_update [simp]: "uart_of (ms(i \<mapsto> u)) j = (if j = i then u else uart_of ms j)"
  by (simp add: uart_of_def)

lemma tick_other: "uart_pty_tick ms j inputs p os reads writes = Some (ms', res) \<Longrightarrow> j \<noteq> i \<Longrightarrow> ms' i = ms i"
  by (auto simp: uart_pty_tick_def split: if_splits prod.splits option.splits)

lemma deliver_byte_queue:
  "deliver_byte u i = (u', v, b) \<Longrightarrow>
    pty_to_uart u = (if v \<noteq> 0 then [b] else []) @ pty_to_uart u' \<and> uart_to_pty u' = uart_to_pty u"
  by (auto simp: deliver_byte_def split: if_splits list.splits)

lemma accept_byte_queue:
  "pty_to_uart (accept_byte u i) = pty_to_uart u \<and> uart_to_pty (accept_byte u i)
    = uart_to_pty u @ (if in_reset i = 0 \<and> in_valid i \<noteq> 0 then [in_byte i] else [])"
  by (simp add: accept_byte_def Let_def)

lemma tick_queues:
  assumes run: "uart_pty_tick ms i inputs True os reads writes = Some (ms', res)"
    and b: "list_all write_bounded writes"
  shows "pty_to_uart (uart_of ms i) @ reads_done (uart_of ms i) inputs os reads
      = byte_given res @ pty_to_uart (uart_of ms' i)
    \<and> uart_to_pty (uart_of ms i) @ byte_taken (uart_of ms i) inputs os reads
      = tick_sent res @ uart_to_pty (uart_of ms' i)"
proof -
  obtain u s es where o1: "open_pty (uart_of ms i) os = (u, s, es)" by (metis prod.exhaust)
  note q = open_pty_queues [OF o1]
  show ?thesis
  proof (cases "s = 0")
    case False
    then show ?thesis
      using run o1 q by (auto simp: uart_pty_tick_def reads_done_def byte_taken_def byte_given_def)
  next
    case True
    then obtain v s2 where r: "read_pty u reads = Some (v, s2)"
      using run o1 by (auto simp: uart_pty_tick_def split: option.splits)
    note v = read_pty_some [OF r]
    have st: "read_status reads = Some s2" using read_pty_status [of u reads] r by simp
    show ?thesis
    proof (cases "s2 = 0")
      case False
      then show ?thesis
        using run o1 q True r v st
        by (auto simp: uart_pty_tick_def reads_done_def byte_taken_def byte_given_def)
    next
      case s2: True
      then obtain x s3 bytes where w: "write_pty (accept_byte v inputs) writes = Some (x, s3, bytes)"
        using run o1 True r by (auto simp: uart_pty_tick_def split: option.splits)
      obtain rest where rest: "x = accept_byte v inputs\<lparr>uart_to_pty := rest\<rparr>"
        "uart_to_pty (accept_byte v inputs) = bytes @ rest"
        using write_pty_some [OF b w] by blast
      note a = accept_byte_queue [of v inputs]
      show ?thesis
        using run o1 q True r v st s2 w rest a deliver_byte_queue [of x inputs]
        by (cases "s3 = 0"; cases "deliver_byte x inputs")
          (auto simp: uart_pty_tick_def reads_done_def byte_taken_def byte_given_def)
    qed
  qed
qed

lemma uart_run_queues:
  "uart_run i ms r g t w \<Longrightarrow> r = g @ pty_to_uart (uart_of ms i) \<and> t = w @ uart_to_pty (uart_of ms i)"
proof (induction rule: uart_run.induct)
  case (tick i ms r g t w writes inputs os reads ms' res)
  with tick_queues [OF tick(3) tick(2)] show ?case by simp
next
  case (null_tick i ms r g t w j inputs os reads writes ms' res)
  then show ?case by (simp add: uart_pty_tick_def)
next
  case (other_tick i ms r g t w j inputs p os reads writes ms' res)
  then show ?case using tick_other [OF other_tick(3,2)] by (simp add: uart_of_def)
next
  case (query i ms r g t w ms' j os)
  then show ?case
    using open_pty_queues [of "uart_of ms j" os]
    by (auto simp: uart_pty_path_def uart_pty_framing_errors_def split: prod.splits)
qed (simp add: uart_of_def new_uart_def)

section \<open>Properties\<close>

text \<open>C22: each direction of a UART model is a lossless FIFO through any ticks of any models, resets,
  failed ticks and queries: what was read from the terminal is what was given to the UART followed
  by the queue, and what was taken from the UART is what was written to the terminal followed by
  the queue.\<close>

theorem uart_queues_fifo:
  assumes "uart_run i ms received given accepted transmitted"
  shows "received = given @ pty_to_uart (uart_of ms i)
    \<and> accepted = transmitted @ uart_to_pty (uart_of ms i)"
  by (rule uart_run_queues [OF assms])

definition example_open :: open_calls where
  "example_open = \<lparr>posix_openpt = 5, grantpt = 0, unlockpt = 0, ptsname = Some ''/dev/pts/3'', open_slave = 6,
     tcgetattr = Some \<lparr>c_iflag = [ICRNL], c_oflag = [OPOST], c_lflag = [ECHO, ICANON], c_csize = CS7,
       c_parenb = True, c_vmin = 0, c_vtime = 0\<rparr>, tcsetattr = 0\<rparr>"

definition example_inputs :: tick_inputs where
  "example_inputs = \<lparr>in_reset = 0, in_valid = 1, in_byte = 65, in_framing_error = 0, in_ready = 1\<rparr>"

theorem uart_queues_fifo_witness:
  "\<exists>ms. [7, 8, 9] = [7] @ pty_to_uart (uart_of ms 1) \<and> [65] = [] @ uart_to_pty (uart_of ms 1)"
proof -
  let ?reads = "[Failed EINTR, Transferred [7, 8], Transferred [9], Failed EAGAIN]"
  let ?writes = "[Write_failed EINTR, Write_failed EAGAIN]"
  obtain ms res where run: "uart_pty_tick Map.empty 1 example_inputs True example_open ?reads ?writes = Some (ms, res)"
    and res: "byte_given res = [7]" "tick_sent res = []"
    by (auto simp: uart_pty_tick_def open_pty_def example_open_def example_inputs_def uart_of_def new_uart_def
        Let_def transient_def accept_byte_def deliver_byte_def byte_given_def)
  have w: "list_all write_bounded ?writes" by simp
  have "reads_done (uart_of Map.empty 1) example_inputs example_open ?reads = [7, 8, 9]"
    "byte_taken (uart_of Map.empty 1) example_inputs example_open ?reads = [65]"
    by (simp_all add: reads_done_def byte_taken_def open_pty_def example_open_def example_inputs_def
        uart_of_def new_uart_def Let_def bytes_read_def transient_def)
  then have "uart_run 1 ms [7, 8, 9] [7] [65] []"
    using uart_run.tick [OF uart_run.start w run] res by simp
  from uart_queues_fifo [OF this] show ?thesis by blast
qed

fun accepting :: "write_result \<Rightarrow> bool" where
  "accepting (Accepted n) \<longleftrightarrow> 0 < n \<and> n \<le> io_chunk_bytes"
| "accepting (Write_failed e) \<longleftrightarrow> e = EINTR"

fun progressing :: "write_result \<Rightarrow> bool" where
  "progressing (Accepted n) \<longleftrightarrow> True"
| "progressing (Write_failed e) \<longleftrightarrow> False"

lemma write_pty_drains:
  "list_all accepting os \<Longrightarrow> length (uart_to_pty u) \<le> length (filter progressing os) \<Longrightarrow>
    write_pty u os = Some (u\<lparr>uart_to_pty := []\<rparr>, 0, uart_to_pty u)"
proof (induction u os rule: write_pty.induct)
  case (2 u r os)
  show ?case
  proof (cases "uart_to_pty u = []")
    case False
    show ?thesis
    proof (cases r)
      case (Accepted n)
      then have n: "0 < n" "n \<le> io_chunk_bytes" using "2.prems"(1) by auto
      let ?v = "u\<lparr>uart_to_pty := drop n (uart_to_pty u)\<rparr>"
      have "length (uart_to_pty ?v) \<le> length (filter progressing os)"
        using "2.prems"(2) n Accepted False by simp
      then have "write_pty ?v os = Some (?v\<lparr>uart_to_pty := []\<rparr>, 0, uart_to_pty ?v)"
        using "2.IH"(1) [of _ _ n] "2.prems"(1) False n Accepted by simp
      then show ?thesis
        using False n Accepted by (simp add: Let_def chunk_prefix)
    next
      case (Write_failed e)
      then show ?thesis using "2.IH"(2) "2.prems" False by simp
    qed
  qed simp
qed simp

text \<open>C23: while the terminal accepts at least one byte of every call that is not interrupted, the
  write loop returns success with the queue drained in order, within one call per queued byte.\<close>

theorem uart_drains:
  assumes "list_all accepting writes" "length (uart_to_pty u) \<le> length (filter progressing writes)"
  shows "write_pty u writes = Some (u\<lparr>uart_to_pty := []\<rparr>, 0, uart_to_pty u)"
  by (rule write_pty_drains [OF assms])

theorem uart_drains_witness:
  "write_pty (new_uart\<lparr>uart_to_pty := [1, 2]\<rparr>) [Write_failed EINTR, Accepted 1, Accepted 1]
     = Some (new_uart, 0, [1, 2])"
  using uart_drains [of "[Write_failed EINTR, Accepted 1, Accepted 1]" "new_uart\<lparr>uart_to_pty := [1, 2]\<rparr>"]
  by (simp add: io_chunk_bytes_def new_uart_def)

text \<open>the read loop returns exactly when some \<open>read\<close> neither yields bytes nor is interrupted, and
  by then it has queued every byte that arrived before, in order.\<close>

theorem uart_read_terminates:
  "case read_pty u reads of
      None \<Rightarrow> \<not> list_ex stops_read reads
    | Some (u', s) \<Rightarrow> list_ex stops_read reads
        \<and> u' = u\<lparr>pty_to_uart := pty_to_uart u @ bytes_read reads\<rparr>"
proof (cases "read_pty u reads")
  case None
  then show ?thesis using read_pty_returns [of u reads] by simp
next
  case (Some r)
  then show ?thesis using read_pty_returns [of u reads] read_pty_some [of u reads] by (cases r) auto
qed

end
