(* ===== verification/Htif.thy ===== *)
theory Htif
  imports Image_Memory
begin

unbundle bit_operations_syntax

text \<open>
  The direct-memory host interface of \<open>sims/fesvr/direct_mem_htif.cc\<close>: the request handshake that
  \<open>tick\<close> drives and \<open>transact\<close> waits for, and the chunk operations, which split a range into native
  image segments and bus transactions of at most eight bytes. FESVR itself, the program of the
  host thread, is not in the repository: it is an argument, as is the bus that answers requests.
\<close>

section \<open>Little endian\<close>

definition max_bytes :: nat where
  "max_bytes = 8"

definition load_little_endian :: "u8 list \<Rightarrow> u64" where
  "load_little_endian bs = fold (\<lambda>i v. v OR push_bit (8 * i) (ucast (bs ! i))) [0..<length bs] 0"

definition store_little_endian :: "u64 \<Rightarrow> nat \<Rightarrow> u8 list" where
  "store_little_endian w n = map (\<lambda>i. ucast (drop_bit (8 * i) w)) [0..<n]"

section \<open>State\<close>

datatype 'e htif_error =
    Bad_transfer
  | Range_wraps
  | Reserved_write
  | Outstanding_request
  | Target_status bool u64 nat u8
  | Bad_entry
  | Bad_xlen
  | Unaligned_boot_register
  | Image_failed 'e

record bus_request =
  rq_write :: bool
  rq_address :: u64
  rq_data :: u64
  rq_length :: u8

record ('s, 'e) htif =
  request :: bus_request
  request_pending :: bool
  request_exposed :: bool
  request_accepted :: bool
  response_data :: u64
  response_status :: u8
  failed :: bool
  target_xlen :: int
  boot_register :: u64
  loading :: bool
  image_memories :: "('s, 'e) image_map"

definition new_htif :: "int \<Rightarrow> u64 \<Rightarrow> ('s, 'e) image_map \<Rightarrow> 'e htif_error + ('s, 'e) htif" where
  "new_htif xlen boot m =
     (if xlen \<noteq> 32 \<and> xlen \<noteq> 64 then Inl Bad_xlen
      else if boot mod 8 \<noteq> 0 then Inl Unaligned_boot_register
      else Inr \<lparr>request = \<lparr>rq_write = False, rq_address = 0, rq_data = 0, rq_length = 0\<rparr>,
        request_pending = False, request_exposed = False, request_accepted = False,
        response_data = 0, response_status = 0, failed = False, target_xlen = xlen,
        boot_register = boot, loading = True, image_memories = image_freeze m\<rparr>)"

section \<open>Checks\<close>

definition wraps :: "u64 \<Rightarrow> nat \<Rightarrow> bool" where
  "wraps a n \<longleftrightarrow> a > - 1 - of_nat (n - 1)"

definition transfer_ok :: "u64 \<Rightarrow> nat \<Rightarrow> bool" where
  "transfer_ok a n \<longleftrightarrow> \<not> (n = 0 \<or> n > max_bytes \<or> wraps a n)"

definition range_ok :: "u64 \<Rightarrow> nat \<Rightarrow> bool" where
  "range_ok a n \<longleftrightarrow> \<not> (n \<noteq> 0 \<and> wraps a n)"

text \<open>Overlap of inclusive ranges with the eight-byte boot-address register.\<close>

definition touches_boot :: "('s, 'e) htif \<Rightarrow> u64 \<Rightarrow> nat \<Rightarrow> bool" where
  "touches_boot h a n \<longleftrightarrow> a \<le> boot_register h + of_nat max_bytes - 1 \<and> a + of_nat n - 1 \<ge> boot_register h"

definition require_loading_write :: "('s, 'e) htif \<Rightarrow> u64 \<Rightarrow> nat \<Rightarrow> 'e htif_error + unit" where
  "require_loading_write h a n =
     (if \<not> range_ok a n then Inl Range_wraps
      else if loading h \<and> n \<noteq> 0 \<and> touches_boot h a n then Inl Reserved_write
      else Inr ())"

section \<open>The handshake\<close>

record tick_in =
  request_ready :: bool
  response_valid :: bool
  in_data :: u64
  in_status :: u8

definition request_valid :: "('s, 'e) htif \<Rightarrow> bool" where
  "request_valid h \<longleftrightarrow> request_pending h \<and> request_exposed h \<and> \<not> request_accepted h"

definition response_ready :: "('s, 'e) htif \<Rightarrow> bool" where
  "response_ready h \<longleftrightarrow> request_pending h \<and> request_accepted h"

text \<open>\<open>tick\<close> up to the switch to the host thread.\<close>

definition tick_target :: "('s, 'e) htif \<Rightarrow> tick_in \<Rightarrow> ('s, 'e) htif" where
  "tick_target h i =
     (if request_pending h then
        let h = (if \<not> request_exposed h then h\<lparr>request_exposed := True\<rparr>
                 else if \<not> request_accepted h \<and> request_ready i then h\<lparr>request_accepted := True\<rparr>
                 else h)
        in if request_accepted h \<and> response_valid i
           then h\<lparr>response_data := in_data i, response_status := in_status i,
               request_pending := False, request_exposed := False, request_accepted := False\<rparr>
           else h
      else h)"

text \<open>\<open>transact\<close> up to its first switch to the target, and what it does when it is resumed.\<close>

definition transact_begin ::
  "('s, 'e) htif \<Rightarrow> bool \<Rightarrow> u64 \<Rightarrow> u64 \<Rightarrow> nat \<Rightarrow> 'e htif_error + ('s, 'e) htif" where
  "transact_begin h w a d n =
     (if \<not> transfer_ok a n then Inl Bad_transfer
      else if loading h \<and> w \<and> touches_boot h a n then Inl Reserved_write
      else if request_pending h then Inl Outstanding_request
      else Inr (h\<lparr>request := \<lparr>rq_write = w, rq_address = a, rq_data = d, rq_length = of_nat n\<rparr>,
        request_pending := True, request_exposed := False, request_accepted := False\<rparr>))"

definition transact_resume :: "('s, 'e) htif \<Rightarrow> bool \<Rightarrow> u64 \<Rightarrow> nat \<Rightarrow> ('e htif_error + u64) option" where
  "transact_resume h w a n =
     (if request_pending h then None
      else Some (if response_status h \<noteq> 0 then Inl (Target_status w a n (response_status h))
                 else Inr (response_data h)))"

text \<open>A transaction waiting through ticks: each tick ends with the switch to the waiting thread.\<close>

fun transact_wait :: "('s, 'e) htif \<Rightarrow> bool \<Rightarrow> u64 \<Rightarrow> nat \<Rightarrow> tick_in list
    \<Rightarrow> (('s, 'e) htif \<times> ('e htif_error + u64) \<times> tick_in list) option" where
  "transact_wait h w a n [] = None"
| "transact_wait h w a n (i # is) =
     (let h = tick_target h i
      in case transact_resume h w a n of
           None \<Rightarrow> transact_wait h w a n is
         | Some r \<Rightarrow> Some (h, r, is))"

section \<open>Chunks\<close>

text \<open>
  The bus completes one transaction: the outside state, the response status and its data. A chunk
  operation leaves the transport between transactions, so only its configuration matters here.
\<close>

type_synonym 's bus = "'s \<Rightarrow> bus_request \<Rightarrow> 's \<times> u8 \<times> u64"

definition transact :: "('s, 'e) htif \<Rightarrow> 's bus \<Rightarrow> 's \<Rightarrow> bool \<Rightarrow> u64 \<Rightarrow> u64 \<Rightarrow> nat \<Rightarrow> 's \<times> ('e htif_error + u64)" where
  "transact h bus s w a d n =
     (case transact_begin h w a d n of
        Inl e \<Rightarrow> (s, Inl e)
      | Inr h' \<Rightarrow> (case bus s (request h') of
          (s, st, v) \<Rightarrow> (s, if st \<noteq> 0 then Inl (Target_status w a n st) else Inr v)))"

definition next_segment :: "('s, 'e) htif \<Rightarrow> u64 \<Rightarrow> nat \<Rightarrow> ('s, 'e) segment" where
  "next_segment h a n = (if loading h then image_segment (image_memories h) a n
     else \<lparr>seg_region = None, seg_offset = 0, seg_length = n\<rparr>)"

lemma find_segment_pos: "0 < n \<Longrightarrow> 0 < seg_length (find_segment rs a n)"
  by (induction rs) (auto simp: Let_def word_less_unat_iff unat_sub_le word_le_unat_iff)

lemma next_segment_pos: "0 < n \<Longrightarrow> 0 < seg_length (next_segment h a n)"
  by (simp add: next_segment_def image_segment_def find_segment_pos)

text \<open>The bytes one iteration moves.\<close>

definition step_length :: "('s, 'e) segment \<Rightarrow> nat" where
  "step_length g = (case seg_region g of Some _ \<Rightarrow> seg_length g | None \<Rightarrow> min (seg_length g) max_bytes)"

lemma step_length_pos: "0 < n \<Longrightarrow> 0 < step_length (next_segment h a n)"
  using next_segment_pos [of n h a] by (simp add: step_length_def max_bytes_def split: option.split)

definition read_chunk_step :: "('s, 'e) htif \<Rightarrow> 's bus \<Rightarrow> 's \<Rightarrow> u64 \<Rightarrow> ('s, 'e) segment \<Rightarrow> 's \<times> ('e htif_error + u8 list)" where
  "read_chunk_step h bus s a g =
     (case seg_region g of
        Some r \<Rightarrow> (s, map_sum Image_failed id ((the (region_read r)) s (seg_offset g) (seg_length g)))
      | None \<Rightarrow> (case transact h bus s False a 0 (step_length g) of
          (s, v) \<Rightarrow> (s, map_sum id (\<lambda>v. store_little_endian v (step_length g)) v)))"

function read_chunk_loop :: "('s, 'e) htif \<Rightarrow> 's bus \<Rightarrow> 's \<Rightarrow> u64 \<Rightarrow> nat \<Rightarrow> 's \<times> ('e htif_error + u8 list)" where
  "read_chunk_loop h bus s a n =
     (if n = 0 then (s, Inr [])
      else let g = next_segment h a n; k = step_length g
        in case read_chunk_step h bus s a g of
             (s, Inl e) \<Rightarrow> (s, Inl e)
           | (s, Inr bs) \<Rightarrow> (case read_chunk_loop h bus s (a + of_nat k) (n - k) of
               (s, r) \<Rightarrow> (s, map_sum id (\<lambda>rest. bs @ rest) r)))"
  by pat_completeness auto
termination
  by (relation "measure (\<lambda>(h, bus, s, a, n). n)") (auto intro!: diff_less step_length_pos)

definition read_chunk :: "('s, 'e) htif \<Rightarrow> 's bus \<Rightarrow> 's \<Rightarrow> u64 \<Rightarrow> nat \<Rightarrow> 's \<times> ('e htif_error + u8 list)" where
  "read_chunk h bus s a n = (if \<not> range_ok a n then (s, Inl Range_wraps) else read_chunk_loop h bus s a n)"

definition write_chunk_step :: "('s, 'e) htif \<Rightarrow> 's bus \<Rightarrow> 's \<Rightarrow> u64 \<Rightarrow> ('s, 'e) segment \<Rightarrow> u8 list \<Rightarrow> 's \<times> ('e htif_error + unit)" where
  "write_chunk_step h bus s a g bs =
     (case seg_region g of
        Some r \<Rightarrow> (case (the (region_write r)) s (seg_offset g) (take (seg_length g) bs) of
          (s, v) \<Rightarrow> (s, map_sum Image_failed id v))
      | None \<Rightarrow> (case transact h bus s True a (load_little_endian (take (step_length g) bs)) (step_length g) of
          (s, v) \<Rightarrow> (s, map_sum id (\<lambda>_. ()) v)))"

function write_chunk_loop :: "('s, 'e) htif \<Rightarrow> 's bus \<Rightarrow> 's \<Rightarrow> u64 \<Rightarrow> u8 list \<Rightarrow> 's \<times> ('e htif_error + unit)" where
  "write_chunk_loop h bus s a bs =
     (if bs = [] then (s, Inr ())
      else let g = next_segment h a (length bs); k = step_length g
        in case write_chunk_step h bus s a g bs of
             (s, Inl e) \<Rightarrow> (s, Inl e)
           | (s, Inr _) \<Rightarrow> write_chunk_loop h bus s (a + of_nat k) (drop k bs))"
  by pat_completeness auto
termination
  by (relation "measure (\<lambda>(h, bus, s, a, bs). length bs)") (auto intro!: diff_less step_length_pos)

definition write_chunk :: "('s, 'e) htif \<Rightarrow> 's bus \<Rightarrow> 's \<Rightarrow> u64 \<Rightarrow> u8 list \<Rightarrow> 's \<times> ('e htif_error + unit)" where
  "write_chunk h bus s a bs =
     (case require_loading_write h a (length bs) of
        Inl e \<Rightarrow> (s, Inl e) | Inr _ \<Rightarrow> write_chunk_loop h bus s a bs)"

definition clear_chunk_step :: "('s, 'e) htif \<Rightarrow> 's bus \<Rightarrow> 's \<Rightarrow> u64 \<Rightarrow> ('s, 'e) segment \<Rightarrow> 's \<times> ('e htif_error + unit)" where
  "clear_chunk_step h bus s a g =
     (case seg_region g of
        Some r \<Rightarrow> (case (the (region_zero r)) s (seg_offset g) (seg_length g) of
          (s, v) \<Rightarrow> (s, map_sum Image_failed id v))
      | None \<Rightarrow> (case transact h bus s True a 0 (step_length g) of
          (s, v) \<Rightarrow> (s, map_sum id (\<lambda>_. ()) v)))"

function clear_chunk_loop :: "('s, 'e) htif \<Rightarrow> 's bus \<Rightarrow> 's \<Rightarrow> u64 \<Rightarrow> nat \<Rightarrow> 's \<times> ('e htif_error + unit)" where
  "clear_chunk_loop h bus s a n =
     (if n = 0 then (s, Inr ())
      else let g = next_segment h a n; k = step_length g
        in case clear_chunk_step h bus s a g of
             (s, Inl e) \<Rightarrow> (s, Inl e)
           | (s, Inr _) \<Rightarrow> clear_chunk_loop h bus s (a + of_nat k) (n - k))"
  by pat_completeness auto
termination
  by (relation "measure (\<lambda>(h, bus, s, a, n). n)") (auto intro!: diff_less step_length_pos)

declare read_chunk_loop.simps [simp del] write_chunk_loop.simps [simp del] clear_chunk_loop.simps [simp del]

definition clear_chunk :: "('s, 'e) htif \<Rightarrow> 's bus \<Rightarrow> 's \<Rightarrow> u64 \<Rightarrow> nat \<Rightarrow> 's \<times> ('e htif_error + unit)" where
  "clear_chunk h bus s a n =
     (case require_loading_write h a n of Inl e \<Rightarrow> (s, Inl e) | Inr _ \<Rightarrow> clear_chunk_loop h bus s a n)"

definition chunk_align :: nat where
  "chunk_align = 1"

definition chunk_max_size :: "('s, 'e) htif \<Rightarrow> nat" where
  "chunk_max_size h = (if loading h \<and> \<not> image_empty (image_memories h) then 64 * 1024 else max_bytes)"

text \<open>The startup callback: the entry point FESVR read from the program is published last.\<close>

definition htif_reset :: "('s, 'e) htif \<Rightarrow> 's bus \<Rightarrow> 's \<Rightarrow> u64 \<Rightarrow> ('s, 'e) htif \<times> 's \<times> ('e htif_error + unit)" where
  "htif_reset h bus s entry =
     (if entry = 0 \<or> (target_xlen h = 32 \<and> entry > 0xFFFFFFFF) then (h, s, Inl Bad_entry)
      else let h = h\<lparr>loading := False\<rparr>
        in case transact h bus s True (boot_register h) entry max_bytes of
             (s, v) \<Rightarrow> (h, s, map_sum id (\<lambda>_. ()) v))"

definition exit_word :: "('s, 'e) htif \<Rightarrow> bool \<Rightarrow> u32 \<Rightarrow> u32" where
  "exit_word h finished exit_code =
     (if failed h then 3 else if finished then push_bit 1 exit_code OR 1 else 0)"

section \<open>The chunk checks over unbounded numbers\<close>

lemma wraps_iff: "0 < n \<Longrightarrow> n < 2 ^ 64 \<Longrightarrow> wraps a n \<longleftrightarrow> unat a + n > 2 ^ 64"
proof -
  assume n: "0 < n" "n < 2 ^ 64"
  have "unat (- 1 :: u64) = 2 ^ 64 - 1" by (simp add: unsigned_minus_1_eq_mask mask_eq_exp_minus_1)
  moreover have u: "unat (of_nat (n - 1) :: u64) = n - 1"
    using n by (intro unat_of_nat64) linarith
  moreover have "(of_nat (n - 1) :: u64) \<le> - 1" by simp
  ultimately have "unat (- 1 - of_nat (n - 1) :: u64) = 2 ^ 64 - 1 - (n - 1)"
    by (simp only: unat_sub_le)
  with n unat_lt64 [of a] show ?thesis by (auto simp: wraps_def word_less_unat_iff)
qed

lemma range_ok_iff: "n < 2 ^ 64 \<Longrightarrow> range_ok a n \<longleftrightarrow> n = 0 \<or> unat a + n \<le> 2 ^ 64"
  using wraps_iff [of n a] by (cases "n = 0") (auto simp: range_ok_def)

lemma unat_last: "0 < n \<Longrightarrow> unat a + n \<le> 2 ^ 64 \<Longrightarrow> unat (a + of_nat n - 1 :: u64) = unat a + n - 1"
proof -
  assume n: "0 < n" "unat a + n \<le> 2 ^ 64"
  then have "a + of_nat n - 1 = a + of_nat (n - 1)" by (simp add: of_nat_diff)
  with n show ?thesis by (simp only: unat_add_of_nat)
qed

definition boot_ok :: "('s, 'e) htif \<Rightarrow> bool" where
  "boot_ok h \<longleftrightarrow> unat (boot_register h) mod 8 = 0"

lemma boot_fits: "boot_ok h \<Longrightarrow> unat (boot_register h) + 8 \<le> 2 ^ 64"
proof -
  assume "boot_ok h"
  then obtain q where q: "unat (boot_register h) = 8 * q" by (auto simp: boot_ok_def)
  with unat_lt64 [of "boot_register h"] have "8 * q < 8 * 2 ^ 61" by simp
  then have "q + 1 \<le> 2 ^ 61" by simp
  then have "8 * (q + 1) \<le> 8 * 2 ^ 61" by (rule mult_le_mono2)
  with q show ?thesis by simp
qed

lemma touches_boot_iff:
  assumes "boot_ok h" "0 < n" "unat a + n \<le> 2 ^ 64"
  shows "touches_boot h a n \<longleftrightarrow> unat a < unat (boot_register h) + 8 \<and> unat (boot_register h) < unat a + n"
proof -
  have "unat (boot_register h + of_nat max_bytes - 1) = unat (boot_register h) + 7"
    using unat_last [of max_bytes "boot_register h"] boot_fits [OF assms(1)] by (simp add: max_bytes_def)
  with unat_last [OF assms(2,3)] assms(2) show ?thesis
    by (auto simp: touches_boot_def word_le_unat_iff)
qed

section \<open>Little endian round trip\<close>

lemma load_bits:
  "k \<le> length bs \<Longrightarrow> k \<le> 8 \<Longrightarrow>
    bit (fold (\<lambda>i v. v OR push_bit (8 * i) (ucast (bs ! i))) [0..<k] (0::u64)) j
      \<longleftrightarrow> j < 8 * k \<and> bit (bs ! (j div 8)) (j mod 8)" for bs :: "u8 list"
proof (induction k arbitrary: j)
  case (Suc k)
  have shifted: "bit (push_bit (8 * k) (ucast (bs ! k)) :: u64) j
      \<longleftrightarrow> 8 * k \<le> j \<and> j < 64 \<and> bit (bs ! k) (j - 8 * k)"
    by (auto simp: bit_push_bit_iff bit_ucast_iff dest: bit_imp_le_length)
  have step: "bit (fold (\<lambda>i v. v OR push_bit (8 * i) (ucast (bs ! i))) [0..<Suc k] (0::u64)) j \<longleftrightarrow>
      (j < 8 * k \<and> bit (bs ! (j div 8)) (j mod 8)) \<or> (8 * k \<le> j \<and> j < 64 \<and> bit (bs ! k) (j - 8 * k))"
    using Suc by (simp add: bit_or_iff shifted)
  consider "j < 8 * k" | "8 * k \<le> j" "j < 8 * Suc k" | "8 * Suc k \<le> j" by linarith
  then show ?case
  proof cases
    case 1
    then show ?thesis unfolding step by simp
  next
    case 2
    then have "j div 8 = k" "j mod 8 = j - 8 * k" by (auto simp: div_nat_eqI mod_nat_eqI)
    with 2 Suc.prems show ?thesis unfolding step by simp
  next
    case 3
    then have "\<not> bit (bs ! k) (j - 8 * k)" using bit_imp_le_length [of "bs ! k" "j - 8 * k"] by auto
    with 3 show ?thesis unfolding step by simp
  qed
qed simp

lemma store_load_little_endian:
  assumes "length bs \<le> 8"
  shows "store_little_endian (load_little_endian bs) (length bs) = bs"
proof (rule nth_equalityI)
  fix i assume "i < length (store_little_endian (load_little_endian bs) (length bs))"
  then have i: "i < length bs" by (simp add: store_little_endian_def)
  have "bit (ucast (drop_bit (8 * i) (load_little_endian bs)) :: u8) j \<longleftrightarrow> bit (bs ! i) j" for j
  proof (cases "j < 8")
    case True
    then have "(8 * i + j) div 8 = i" "(8 * i + j) mod 8 = j" "8 * i + j < 8 * length bs"
      using i by auto
    then show ?thesis
      using True assms load_bits [of "length bs" bs "8 * i + j"]
      by (simp add: bit_ucast_iff bit_drop_bit_eq load_little_endian_def)
  next
    case False
    then show ?thesis using bit_imp_le_length by fastforce
  qed
  then have "ucast (drop_bit (8 * i) (load_little_endian bs)) = bs ! i" by (rule bit_word_eqI)
  with i show "store_little_endian (load_little_endian bs) (length bs) ! i = bs ! i"
    by (simp add: store_little_endian_def)
qed (simp add: store_little_endian_def)

end
