(* ===== verification/Htif_Chunks.thy ===== *)
theory Htif_Chunks
  imports Htif
begin

unbundle bit_operations_syntax

text \<open>
  What the chunk operations of the host interface do to memory as the program sees it. The
  hypotheses on the code outside: the bus answers a transaction like a byte memory, and the
  callbacks of an image region reach the bytes of that region's physical range.
\<close>

definition bus_memory :: "'s bus \<Rightarrow> ('s \<Rightarrow> u64 \<Rightarrow> u8) \<Rightarrow> bool" where
  "bus_memory bus view \<longleftrightarrow> (\<forall>s q. let a = rq_address q; n = unat (rq_length q) in
     0 < n \<and> n \<le> 8 \<and> unat a + n \<le> 2 ^ 64 \<longrightarrow>
     (case bus s q of (s', st, v) \<Rightarrow> st = 0
        \<and> (if rq_write q then view s' = overwrite (view s) a (store_little_endian (rq_data q) n)
           else view s' = view s \<and> store_little_endian v n = bytes_at (view s) a n)))"

definition in_storage :: "('s, 'e) image_region \<Rightarrow> u64 \<Rightarrow> nat \<Rightarrow> bool" where
  "in_storage r off n \<longleftrightarrow> unat (region_offset r) \<le> unat off
     \<and> unat off + n \<le> unat (region_offset r) + unat (region_size r)"

definition region_address :: "('s, 'e) image_region \<Rightarrow> u64 \<Rightarrow> u64" where
  "region_address r off = region_base r + (off - region_offset r)"

definition region_memory :: "('s, 'e) image_region \<Rightarrow> ('s \<Rightarrow> u64 \<Rightarrow> u8) \<Rightarrow> bool" where
  "region_memory r view \<longleftrightarrow>
     (\<forall>s off n. in_storage r off n \<longrightarrow>
        (the (region_read r)) s off n = Inr (bytes_at (view s) (region_address r off) n))
     \<and> (\<forall>s off bs. in_storage r off (length bs) \<longrightarrow>
        (\<exists>s'. (the (region_write r)) s off bs = (s', Inr ())
          \<and> view s' = overwrite (view s) (region_address r off) bs))
     \<and> (\<forall>s off n. in_storage r off n \<longrightarrow>
        (\<exists>s'. (the (region_zero r)) s off n = (s', Inr ())
          \<and> view s' = overwrite (view s) (region_address r off) (replicate n 0)))"


lemma region_memory_zero:
  "region_memory r view \<Longrightarrow> in_storage r off n \<Longrightarrow>
    \<exists>s'. (the (region_zero r)) s off n = (s', Inr ())
      \<and> view s' = overwrite (view s) (region_address r off) (replicate n 0)"
  unfolding region_memory_def by blast

definition htif_idle :: "('s, 'e) htif \<Rightarrow> bool" where
  "htif_idle h \<longleftrightarrow> image_wf (image_memories h) \<and> boot_ok h \<and> \<not> request_pending h"

definition memory_system :: "('s, 'e) htif \<Rightarrow> 's bus \<Rightarrow> ('s \<Rightarrow> u64 \<Rightarrow> u8) \<Rightarrow> bool" where
  "memory_system h bus view \<longleftrightarrow> htif_idle h \<and> bus_memory bus view
     \<and> (\<forall>r \<in> set (regions (image_memories h)). region_memory r view)"

text \<open>A range that a loading write may touch.\<close>

definition writable :: "('s, 'e) htif \<Rightarrow> u64 \<Rightarrow> nat \<Rightarrow> bool" where
  "writable h a n \<longleftrightarrow> unat a + n \<le> 2 ^ 64
     \<and> (loading h \<longrightarrow> \<not> (unat a < unat (boot_register h) + 8 \<and> unat (boot_register h) < unat a + n))"

lemma length_store_le [simp]: "length (store_little_endian w n) = n"
  by (simp add: store_little_endian_def)

section \<open>One transaction\<close>

lemma begin_ok:
  assumes "htif_idle h" "0 < n" "n \<le> 8" "unat a + n \<le> 2 ^ 64" "w \<Longrightarrow> writable h a n"
  shows "transact_begin h w a d n = Inr (h\<lparr>request := \<lparr>rq_write = w, rq_address = a, rq_data = d,
    rq_length = of_nat n\<rparr>, request_pending := True, request_exposed := False, request_accepted := False\<rparr>)"
proof -
  have "transfer_ok a n" using assms(2-4) by (simp add: transfer_ok_def max_bytes_def wraps_iff)
  moreover have "\<not> (loading h \<and> w \<and> touches_boot h a n)"
    using assms touches_boot_iff [of h n a] by (auto simp: htif_idle_def writable_def)
  ultimately show ?thesis using assms(1) by (auto simp: transact_begin_def htif_idle_def)
qed

lemma unat_byte_length: "n \<le> 8 \<Longrightarrow> unat (of_nat n :: u8) = n"
  by (simp add: unsigned_of_nat take_bit_nat_eq_self)

lemma transact_write:
  assumes "memory_system h bus view" "0 < n" "n \<le> 8" "writable h a n"
  shows "\<exists>s' v. transact h bus s True a d n = (s', Inr v)
    \<and> view s' = overwrite (view s) a (store_little_endian d n)"
proof -
  let ?q = "\<lparr>rq_write = True, rq_address = a, rq_data = d, rq_length = of_nat n\<rparr>"
  obtain s' st v where b: "bus s ?q = (s', st, v)" by (metis prod.exhaust)
  have "st = 0 \<and> view s' = overwrite (view s) a (store_little_endian d n)"
    using assms b unat_byte_length [OF assms(3)]
    by (auto simp: memory_system_def bus_memory_def writable_def Let_def dest!: spec [of _ s] spec [of _ ?q])
  moreover have "htif_idle h" "unat a + n \<le> 2 ^ 64"
    using assms by (auto simp: memory_system_def writable_def)
  ultimately show ?thesis
    using b assms(2,3) begin_ok [of h n a True d] assms(4) by (simp add: transact_def)
qed

lemma transact_read:
  assumes "memory_system h bus view" "0 < n" "n \<le> 8" "unat a + n \<le> 2 ^ 64"
  shows "\<exists>s' v. transact h bus s False a d n = (s', Inr v)
    \<and> view s' = view s \<and> store_little_endian v n = bytes_at (view s) a n"
proof -
  let ?q = "\<lparr>rq_write = False, rq_address = a, rq_data = d, rq_length = of_nat n\<rparr>"
  obtain s' st v where b: "bus s ?q = (s', st, v)" by (metis prod.exhaust)
  have "st = 0 \<and> view s' = view s \<and> store_little_endian v n = bytes_at (view s) a n"
    using assms b unat_byte_length [OF assms(3)]
    by (auto simp: memory_system_def bus_memory_def Let_def dest!: spec [of _ s] spec [of _ ?q])
  moreover have "htif_idle h"
    using assms by (auto simp: memory_system_def)
  ultimately show ?thesis
    using b assms(2-4) begin_ok [of h n a False d] by (simp add: transact_def)
qed

section \<open>One segment\<close>

lemma segment_cases:
  fixes a :: u64
  assumes "htif_idle h" "0 < n"
  defines "g \<equiv> next_segment h a n"
  obtains (region) r where "seg_region g = Some r" "r \<in> set (regions (image_memories h))"
      "in_storage r (seg_offset g) (seg_length g)" "region_address r (seg_offset g) = a"
      "0 < seg_length g" "seg_length g \<le> n"
    | (gap) "seg_region g = None" "0 < seg_length g" "seg_length g \<le> n"
proof (cases "seg_region g")
  case None
  then show thesis
    using assms gap next_segment_pos [of n h a] find_segment_ok [of "regions (image_memories h)" a n]
    by (auto simp: next_segment_def image_segment_def segment_ok_def htif_idle_def image_wf_def split: if_splits)
next
  case (Some r)
  have ok: "segment_ok (regions (image_memories h)) a n g"
    using Some assms find_segment_ok [of "regions (image_memories h)" a n]
    by (auto simp: next_segment_def image_segment_def htif_idle_def image_wf_def split: if_splits)
  have "unat (seg_offset g - region_offset r) = unat a - unat (region_base r)"
    using ok Some by (subst unat_sub_le) (auto simp: segment_ok_def word_le_unat_iff)
  moreover have "unat (a - region_base r) = unat a - unat (region_base r)"
    using ok Some by (subst unat_sub_le) (auto simp: segment_ok_def word_le_unat_iff)
  ultimately have "seg_offset g - region_offset r = a - region_base r" by (simp add: word_unat_eq_iff)
  then have "region_address r (seg_offset g) = a" by (simp add: region_address_def)
  moreover have "in_storage r (seg_offset g) (seg_length g)"
  proof -
    have "unat (region_base r) \<le> unat a" "unat a + seg_length g \<le> unat (region_base r) + unat (region_size r)"
      "unat (seg_offset g) = unat (region_offset r) + (unat a - unat (region_base r))"
      using ok Some by (simp_all add: segment_ok_def)
    then show ?thesis unfolding in_storage_def by linarith
  qed
  ultimately show thesis
    using region [OF Some] ok Some assms(2) by (auto simp: segment_ok_def)
qed

lemma step_bounds:
  assumes "htif_idle h" "0 < n"
  shows "0 < step_length (next_segment h a n)" "step_length (next_segment h a n) \<le> n"
  by (rule step_length_pos [OF assms(2)])
    (rule segment_cases [OF assms, of a], auto simp: step_length_def)

lemma read_step_memory:
  assumes "memory_system h bus view" "0 < n" "unat a + n \<le> 2 ^ 64"
  defines "g \<equiv> next_segment h a n"
  shows "\<exists>s'. read_chunk_step h bus s a g = (s', Inr (bytes_at (view s) a (step_length g))) \<and> view s' = view s"
proof -
  have idle: "htif_idle h" using assms(1) by (simp add: memory_system_def)
  show ?thesis
  proof (cases rule: segment_cases [OF idle assms(2), of a])
    case region: (1 r)
    then have "region_memory r view" using assms(1) by (simp add: memory_system_def)
    with region show ?thesis by (simp add: read_chunk_step_def region_memory_def step_length_def g_def)
  next
    case gap: 2
    then have k: "0 < step_length g" "step_length g \<le> 8" "unat a + step_length g \<le> 2 ^ 64"
      using step_bounds [OF idle assms(2), of a] assms(3) by (auto simp: g_def step_length_def max_bytes_def)
    from transact_read [OF assms(1) k, of s 0] gap show ?thesis
      by (auto simp: read_chunk_step_def g_def)
  qed
qed


lemma store_zero: "store_little_endian 0 n = replicate n 0"
  by (simp add: store_little_endian_def map_replicate_const)

lemma clear_step_memory:
  assumes "memory_system h bus view" "0 < n" "writable h a n"
  defines "g \<equiv> next_segment h a n"
  shows "\<exists>s'. clear_chunk_step h bus s a g = (s', Inr ())
    \<and> view s' = overwrite (view s) a (replicate (step_length g) 0)"
proof -
  have idle: "htif_idle h" using assms(1) by (simp add: memory_system_def)
  show ?thesis
  proof (cases rule: segment_cases [OF idle assms(2), of a])
    case region: (1 r)
    then have "region_memory r view" using assms(1) by (simp add: memory_system_def)
    then have "in_storage r (seg_offset g) (seg_length g) \<longrightarrow>
        (\<exists>s'. (the (region_zero r)) s (seg_offset g) (seg_length g) = (s', Inr ())
          \<and> view s' = overwrite (view s) (region_address r (seg_offset g)) (replicate (seg_length g) 0))"
      by (intro impI region_memory_zero)
    with region show ?thesis by (auto simp: clear_chunk_step_def step_length_def g_def)
  next
    case gap: 2
    then have k: "0 < step_length g" "step_length g \<le> 8" "step_length g \<le> n"
      using step_bounds [OF idle assms(2), of a] by (auto simp: g_def step_length_def max_bytes_def)
    moreover have "writable h a (step_length g)" using assms(3) k by (auto simp: writable_def)
    ultimately show ?thesis
      using transact_write [OF assms(1), of "step_length g" a s 0] gap
      by (auto simp: clear_chunk_step_def g_def store_zero)
  qed
qed

section \<open>Whole ranges\<close>

lemma writable_rest:
  "writable h a n \<Longrightarrow> k < n \<Longrightarrow> writable h (a + of_nat k) (n - k) \<and> unat (a + of_nat k) = unat a + k"
  by (auto simp: writable_def unat_add_of_nat)

lemma rest_bound:
  "k \<le> n \<Longrightarrow> unat a + n \<le> 2 ^ 64 \<Longrightarrow> unat (a + of_nat k :: u64) + (n - k) \<le> 2 ^ 64"
proof (cases "k = n")
  case True
  then show ?thesis using unat_lt64 [of "a + of_nat k"] by simp
next
  case False
  moreover assume "k \<le> n" "unat a + n \<le> 2 ^ 64"
  ultimately show ?thesis by (subst unat_add_of_nat) simp_all
qed

lemma read_loop_memory:
  assumes m: "memory_system h bus view"
  shows "unat a + n \<le> 2 ^ 64 \<Longrightarrow>
    \<exists>s'. read_chunk_loop h bus s a n = (s', Inr (bytes_at (view s) a n)) \<and> view s' = view s"
proof (induction n arbitrary: a s rule: less_induct)
  case (less n)
  show ?case
  proof (cases "n = 0")
    case True
    then show ?thesis by (simp add: read_chunk_loop.simps)
  next
    case False
    let ?k = "step_length (next_segment h a n)"
    have idle: "htif_idle h" using m by (simp add: memory_system_def)
    have k: "0 < ?k" "?k \<le> n" using step_bounds [OF idle, of n a] False by auto
    obtain s1 where s1: "read_chunk_step h bus s a (next_segment h a n) = (s1, Inr (bytes_at (view s) a ?k))"
      "view s1 = view s"
      using read_step_memory [OF m _ less.prems] False by blast
    have "n - ?k < n" "unat (a + of_nat ?k) + (n - ?k) \<le> 2 ^ 64"
      using k(1) False rest_bound [OF k(2) less.prems] by simp_all
    from less.IH [OF this] obtain s2 where
      "read_chunk_loop h bus s1 (a + of_nat ?k) (n - ?k) = (s2, Inr (bytes_at (view s1) (a + of_nat ?k) (n - ?k)))"
      "view s2 = view s1" by blast
    moreover have "bytes_at (view s) a n = bytes_at (view s) a ?k @ bytes_at (view s) (a + of_nat ?k) (n - ?k)"
      using bytes_at_add [of "view s" a ?k "n - ?k"] k by simp
    ultimately show ?thesis
      using False s1 by (subst read_chunk_loop.simps) (simp add: Let_def)
  qed
qed


lemma clear_loop_memory:
  assumes m: "memory_system h bus view"
  shows "writable h a n \<Longrightarrow>
    \<exists>s'. clear_chunk_loop h bus s a n = (s', Inr ()) \<and> view s' = overwrite (view s) a (replicate n 0)"
proof (induction n arbitrary: a s rule: less_induct)
  case (less n)
  show ?case
  proof (cases "n = 0")
    case True
    then show ?thesis by (simp add: clear_chunk_loop.simps)
  next
    case False
    let ?k = "step_length (next_segment h a n)"
    have idle: "htif_idle h" using m by (simp add: memory_system_def)
    have k: "0 < ?k" "?k \<le> n" using step_bounds [OF idle, of n a] False by auto
    obtain s1 where s1: "clear_chunk_step h bus s a (next_segment h a n) = (s1, Inr ())"
      "view s1 = overwrite (view s) a (replicate ?k 0)"
      using clear_step_memory [OF m _ less.prems] False by blast
    have run: "clear_chunk_loop h bus s a n = clear_chunk_loop h bus s1 (a + of_nat ?k) (n - ?k)"
      using False s1(1) by (subst clear_chunk_loop.simps) (simp add: Let_def)
    show ?thesis
    proof (cases "?k = n")
      case True
      then show ?thesis using run s1(2) by (simp add: clear_chunk_loop.simps)
    next
      case False
      with k have lt: "?k < n" by simp
      from less.IH [of "n - ?k" "a + of_nat ?k" s1] writable_rest [OF less.prems lt] k obtain s2 where
        s2: "clear_chunk_loop h bus s1 (a + of_nat ?k) (n - ?k) = (s2, Inr ())"
        "view s2 = overwrite (view s1) (a + of_nat ?k) (replicate (n - ?k) 0)"
        by auto
      have "unat a + length (replicate ?k (0::u8)) < 2 ^ 64"
        using less.prems lt by (simp add: writable_def)
      from overwrite_append [OF this, of "view s" "replicate (n - ?k) 0"] s2 s1(2) k run show ?thesis
        by (simp flip: replicate_add)
    qed
  qed
qed

section \<open>Properties\<close>

lemma range_ok_memory: "unat a + n \<le> 2 ^ 64 \<Longrightarrow> n < 2 ^ 64 \<Longrightarrow> range_ok a n"
  by (simp add: range_ok_iff)

lemma require_ok:
  assumes "boot_ok h" "n < 2 ^ 64"
  shows "require_loading_write h a n =
    (if n \<noteq> 0 \<and> unat a + n > 2 ^ 64 then Inl Range_wraps
     else if n \<noteq> 0 \<and> \<not> writable h a n then Inl Reserved_write else Inr ())"
  using range_ok_iff [OF assms(2), of a] touches_boot_iff [OF assms(1), of n a]
  by (auto simp: require_loading_write_def writable_def)


text \<open>reading a chunk returns the bytes of memory at its addresses and changes none of them; a
  chunk that would wrap around the address space is refused.\<close>

theorem htif_read_chunk:
  assumes "memory_system h bus view" "n < 2 ^ 64"
  shows "\<exists>s'. read_chunk h bus s a n =
      (s', if n \<noteq> 0 \<and> unat a + n > 2 ^ 64 then Inl Range_wraps else Inr (bytes_at (view s) a n))
    \<and> view s' = view s"
proof (cases "n = 0")
  case True
  then show ?thesis by (simp add: read_chunk_def range_ok_def read_chunk_loop.simps)
next
  case False
  then show ?thesis
    using read_loop_memory [OF assms(1), of a n s] range_ok_iff [OF assms(2), of a]
    by (auto simp: read_chunk_def)
qed

text \<open>clearing a range that loading may write zeroes exactly its bytes and returns.\<close>

theorem htif_clear_chunk:
  assumes "memory_system h bus view" "n < 2 ^ 64" "writable h a n"
  shows "\<exists>s'. clear_chunk h bus s a n = (s', Inr ()) \<and> view s' = overwrite (view s) a (replicate n 0)"
proof -
  have boot: "boot_ok h" using assms(1) by (simp add: memory_system_def htif_idle_def)
  show ?thesis
    using clear_loop_memory [OF assms(1,3), of s] assms(3)
    by (auto simp: clear_chunk_def require_ok [OF boot assms(2)] writable_def)
qed

text \<open>A flat memory behind both a region and the bus, for the concrete instances.\<close>

definition flat_bus :: "(u64 \<Rightarrow> u8) bus" where
  "flat_bus c q =
     (let a = rq_address q; n = unat (rq_length q)
      in if rq_write q then (overwrite c a (store_little_endian (rq_data q) n), 0, 0)
         else (c, 0, load_little_endian (bytes_at c a n)))"

definition flat_region :: "(u64 \<Rightarrow> u8, unit) image_region" where
  "flat_region = \<lparr>region_name = ''ram'', region_base = 4096, region_size = 64, storage_size = 64, region_offset = 0,
     region_read = Some (\<lambda>c off n. Inr (bytes_at c (4096 + off) n)),
     region_write = Some (\<lambda>c off bs. (overwrite c (4096 + off) bs, Inr ())),
     region_zero = Some (\<lambda>c off n. (overwrite c (4096 + off) (replicate n 0), Inr ()))\<rparr>"

definition flat_htif :: "(u64 \<Rightarrow> u8, unit) htif" where
  "flat_htif = \<lparr>request = \<lparr>rq_write = False, rq_address = 0, rq_data = 0, rq_length = 0\<rparr>,
     request_pending = False, request_exposed = False, request_accepted = False, response_data = 0,
     response_status = 0, failed = False, target_xlen = 64, boot_register = 16, loading = True,
     image_memories = \<lparr>map_frozen = True, regions = [flat_region]\<rparr>\<rparr>"

lemma flat_memory_system: "memory_system flat_htif flat_bus id"
proof -
  have "bus_memory flat_bus id"
  proof -
    have "store_little_endian (load_little_endian (bytes_at c a n)) n = bytes_at c a n" if "n \<le> 8" for c a n
      using store_load_little_endian [of "bytes_at c a n"] that by simp
    then show ?thesis by (simp add: bus_memory_def flat_bus_def Let_def)
  qed
  moreover have "region_memory flat_region id"
    by (simp add: region_memory_def flat_region_def region_address_def)
  moreover have "htif_idle flat_htif"
    by (simp add: htif_idle_def flat_htif_def boot_ok_def image_wf_def region_ok_def window_ok_def flat_region_def)
  ultimately show ?thesis by (simp add: memory_system_def flat_htif_def)
qed


theorem htif_read_chunk_witness:
  "\<exists>s'. read_chunk flat_htif flat_bus (\<lambda>_. 7) 4158 4 = (s', Inr [7, 7, 7, 7])"
proof -
  have "bytes_at (\<lambda>_. 7) 4158 4 = [7, 7, 7, 7]"
    by (simp add: bytes_at_def numeral_eq_Suc)
  then show ?thesis
    using htif_read_chunk [OF flat_memory_system, of 4 "\<lambda>_. 7" 4158] by auto
qed

theorem htif_clear_chunk_witness:
  "\<exists>s'. clear_chunk flat_htif flat_bus (\<lambda>_. 7) 4158 4 = (s', Inr ())"
proof -
  have "writable flat_htif 4158 4" by (simp add: writable_def flat_htif_def)
  then show ?thesis using htif_clear_chunk [OF flat_memory_system, of 4 4158 "\<lambda>_. 7"] by auto
qed

end
