(* ===== verification/Htif_Dpi.thy ===== *)
theory Htif_Dpi
  imports Htif_Chunks
begin

text \<open>
  The request handshake tick by tick, and the DPI tick of
  \<open>sims/verilator/direct_mem_htif_dpi.cc\<close>. The resumed host thread, that is FESVR's program up to
  its next switch, is an argument, together with what FESVR says of the program's end.
\<close>

section \<open>A transaction through the ticks\<close>

text \<open>
  The specification of a handshake over the inputs of the ticks: the first tick exposes the request,
  the first later tick that is ready accepts it, and the first tick from there on with a valid
  response ends it.
\<close>

definition handshake :: "tick_in list \<Rightarrow> (tick_in \<times> tick_in list) option" where
  "handshake is = (case is of [] \<Rightarrow> None
     | _ # js \<Rightarrow> (case dropWhile (\<lambda>i. \<not> response_valid i) (dropWhile (\<lambda>i. \<not> request_ready i) js) of
         [] \<Rightarrow> None | i # rest \<Rightarrow> Some (i, rest)))"

definition answer :: "bool \<Rightarrow> u64 \<Rightarrow> nat \<Rightarrow> tick_in \<Rightarrow> 'e htif_error + u64" where
  "answer w a n i = (if in_status i \<noteq> 0 then Inl (Target_status w a n (in_status i)) else Inr (in_data i))"

definition idle_after :: "('s, 'e) htif \<Rightarrow> tick_in \<Rightarrow> ('s, 'e) htif" where
  "idle_after h i = h\<lparr>response_data := in_data i, response_status := in_status i,
     request_pending := False, request_exposed := False, request_accepted := False\<rparr>"

lemma wait_accepted:
  "request_pending h \<Longrightarrow> request_exposed h \<Longrightarrow> request_accepted h \<Longrightarrow>
    transact_wait h w a n is = (case dropWhile (\<lambda>i. \<not> response_valid i) is of
      [] \<Rightarrow> None | i # rest \<Rightarrow> Some (idle_after h i, answer w a n i, rest))"
  by (induction "is" arbitrary: h)
    (auto simp: tick_target_def transact_resume_def Let_def idle_after_def answer_def)

lemma idle_after_flags: "idle_after (h\<lparr>request_accepted := b\<rparr>) i = idle_after h i"
  "idle_after (h\<lparr>request_exposed := b\<rparr>) i = idle_after h i"
  by (simp_all add: idle_after_def)

lemma wait_exposed:
  "request_pending h \<Longrightarrow> request_exposed h \<Longrightarrow> \<not> request_accepted h \<Longrightarrow>
    transact_wait h w a n is =
      (case dropWhile (\<lambda>i. \<not> response_valid i) (dropWhile (\<lambda>i. \<not> request_ready i) is) of
        [] \<Rightarrow> None | i # rest \<Rightarrow> Some (idle_after h i, answer w a n i, rest))"
proof (induction "is" arbitrary: h)
  case (Cons i js)
  show ?case
  proof (cases "request_ready i")
    case False
    with Cons have "tick_target h i = h" by (auto simp: tick_target_def Let_def)
    with Cons False show ?thesis by (simp add: transact_resume_def)
  next
    case ready: True
    show ?thesis
    proof (cases "response_valid i")
      case True
      with Cons ready have "tick_target h i = idle_after h i"
        by (simp add: tick_target_def Let_def idle_after_def)
      with Cons ready True show ?thesis
        by (simp add: transact_resume_def idle_after_def answer_def Let_def)
    next
      case False
      with Cons ready have "tick_target h i = h\<lparr>request_accepted := True\<rparr>"
        by (simp add: tick_target_def Let_def)
      with Cons ready False wait_accepted [of "h\<lparr>request_accepted := True\<rparr>" w a n js] show ?thesis
        by (simp add: transact_resume_def Let_def idle_after_flags del: dropWhile_eq_Nil_conv split: list.split)
    qed
  qed
qed simp

lemma wait_new:
  assumes "request_pending h" "\<not> request_exposed h" "\<not> request_accepted h"
  shows "transact_wait h w a n is =
    map_option (\<lambda>(i, rest). (idle_after h i, answer w a n i, rest)) (handshake is)"
proof (cases "is")
  case (Cons i js)
  have "tick_target h i = h\<lparr>request_exposed := True\<rparr>" using assms by (simp add: tick_target_def Let_def)
  with Cons assms wait_exposed [of "h\<lparr>request_exposed := True\<rparr>" w a n js] show ?thesis
    by (simp add: transact_resume_def Let_def idle_after_flags handshake_def del: dropWhile_eq_Nil_conv
        split: list.split)
qed (simp add: handshake_def)

section \<open>The DPI tick\<close>

record ('s, 'e) htif_dpi =
  transport :: "('s, 'e) htif option"
  startup_failed :: bool
  saw_reset :: bool

definition new_dpi :: "('s, 'e) htif_dpi" where
  "new_dpi = \<lparr>transport = None, startup_failed = False, saw_reset = False\<rparr>"

record dpi_outputs =
  out_request_valid :: bool
  out_request_write :: bool
  out_request_address :: u64
  out_request_data :: u64
  out_request_length :: u8
  out_response_ready :: bool

definition clear_outputs :: dpi_outputs where
  "clear_outputs = \<lparr>out_request_valid = False, out_request_write = False, out_request_address = 0,
     out_request_data = 0, out_request_length = 0, out_response_ready = False\<rparr>"

definition starts_with :: "string \<Rightarrow> string \<Rightarrow> bool" where
  "starts_with prefix s \<longleftrightarrow> take (length prefix) s = prefix"

text \<open>The plus-arguments of the test driver are taken out; the program name is kept as it is.\<close>

definition test_driver_argument :: "string \<Rightarrow> bool" where
  "test_driver_argument s \<longleftrightarrow> s = ''+load-through-chi'' \<or> starts_with ''+rheg-trace='' s
     \<or> starts_with ''+max-cycles='' s"

definition htif_arguments :: "string list \<Rightarrow> string list" where
  "htif_arguments args = (case args of [] \<Rightarrow> [] | name # rest \<Rightarrow> name # filter (\<lambda>s. \<not> test_driver_argument s) rest)"

definition load_through_chi :: "string list \<Rightarrow> bool" where
  "load_through_chi args \<longleftrightarrow> ''+load-through-chi'' \<in> set (tl args)"

text \<open>
  The environment: the simulator's argument vector (\<open>None\<close> when the simulator cannot give it, which
  aborts), the image map it builds, and the host thread with its state \<open>'h\<close>.
\<close>

record ('s, 'e, 'h) dpi_env =
  vpi_arguments :: "string list option"
  make_memories :: "'e htif_error + ('s, 'e) image_map"
  start_host :: "string list \<Rightarrow> 'h option"      \<comment> \<open>\<open>None\<close>: the constructor of \<open>htif_t\<close> throws\<close>
  switch_to_host :: "'h \<Rightarrow> ('s, 'e) htif \<Rightarrow> 'h \<times> ('s, 'e) htif"
  host_done :: "'h \<Rightarrow> bool"
  host_exit_code :: "'h \<Rightarrow> u32"

datatype startup_error = No_clocked_reset | Startup_failed

definition start_transport ::
  "('s, 'e, 'h) dpi_env \<Rightarrow> bool \<Rightarrow> string list \<Rightarrow> int \<Rightarrow> u64 \<Rightarrow> startup_error + 'h \<times> ('s, 'e) htif" where
  "start_transport env reset_seen args xlen boot =
     (if \<not> reset_seen then Inl No_clocked_reset
      else case make_memories env of Inl e \<Rightarrow> Inl Startup_failed
        | Inr m \<Rightarrow> (case start_host env (htif_arguments args) of
            None \<Rightarrow> Inl Startup_failed
          | Some host \<Rightarrow> (case new_htif xlen boot (if load_through_chi args then empty_image_map else m) of
              Inl e \<Rightarrow> Inl Startup_failed | Inr h \<Rightarrow> Inr (host, h))))"

definition htif_tick :: "('s, 'e, 'h) dpi_env \<Rightarrow> 'h \<Rightarrow> ('s, 'e) htif \<Rightarrow> tick_in \<Rightarrow> 'h \<times> ('s, 'e) htif" where
  "htif_tick env host h i = switch_to_host env host (tick_target h i)"

definition dpi_out :: "('s, 'e) htif \<Rightarrow> dpi_outputs" where
  "dpi_out h = \<lparr>out_request_valid = request_valid h, out_request_write = rq_write (request h),
     out_request_address = rq_address (request h), out_request_data = rq_data (request h),
     out_request_length = rq_length (request h), out_response_ready = response_ready h\<rparr>"

text \<open>\<open>None\<close> is \<open>std::abort\<close>; outputs \<open>None\<close> are left as they were.\<close>

definition rhodium_htif_tick ::
  "('s, 'e, 'h) dpi_env \<Rightarrow> ('s, 'e) htif_dpi \<times> 'h \<Rightarrow> bool \<Rightarrow> u8 \<Rightarrow> u64 \<Rightarrow> tick_in
    \<Rightarrow> ((('s, 'e) htif_dpi \<times> 'h) \<times> dpi_outputs option \<times> u32) option" where
  "rhodium_htif_tick env st reset xlen boot i =
     (case st of (d, host) \<Rightarrow>
      if reset then Some ((d\<lparr>saw_reset := True\<rparr>, host), Some clear_outputs, 0)
      else case transport d of
        Some h \<Rightarrow> (case htif_tick env host h i of (host, h) \<Rightarrow>
          Some ((d\<lparr>transport := Some h\<rparr>, host), Some (dpi_out h),
            exit_word h (host_done env host) (host_exit_code env host)))
      | None \<Rightarrow>
        if startup_failed d then Some ((d, host), None, 3)
        else (case vpi_arguments env of None \<Rightarrow> None
          | Some args \<Rightarrow>
            (case start_transport env (saw_reset d) args (int (unat xlen)) boot of
              Inl e \<Rightarrow> Some ((d\<lparr>startup_failed := True\<rparr>, host), Some clear_outputs, 3)
            | Inr (host, h) \<Rightarrow>
              (case htif_tick env host h i of (host, h) \<Rightarrow>
                Some ((d\<lparr>transport := Some h\<rparr>, host), Some (dpi_out h),
                  exit_word h (host_done env host) (host_exit_code env host))))))"

section \<open>Properties\<close>

text \<open>C25: a transaction of the host thread returns exactly when its handshake completes, with the data
  of the response that ends it or an exception carrying that response's status: the request is
  exposed for a tick before it can be accepted, a response counts only once the request has been
  accepted, and the transport is idle again afterwards.\<close>

theorem htif_transact_handshake:
  assumes "transact_begin h w a d n = Inr h'"
  shows "transact_wait h' w a n is =
    map_option (\<lambda>(i, rest). (idle_after h' i, answer w a n i, rest)) (handshake is)"
  using assms by (intro wait_new) (auto simp: transact_begin_def split: if_splits)

definition tick_of :: "bool \<Rightarrow> bool \<Rightarrow> u64 \<Rightarrow> tick_in" where
  "tick_of r v d = \<lparr>request_ready = r, response_valid = v, in_data = d, in_status = 0\<rparr>"

theorem htif_transact_handshake_witness:
  "\<exists>h' h2. transact_begin flat_htif False 4096 0 4 = Inr h' \<and>
    transact_wait h' False 4096 4 [tick_of True True 1, tick_of False True 2, tick_of True False 3, tick_of False True 4]
      = Some (h2, Inr 4, [])"
proof -
  have idle: "htif_idle flat_htif" using flat_memory_system by (simp add: memory_system_def)
  obtain h' where h': "transact_begin flat_htif False 4096 0 4 = Inr h'"
    using begin_ok [OF idle, of 4 4096 False 0] by simp
  show ?thesis
    using h' htif_transact_handshake [OF h', of "[tick_of True True 1, tick_of False True 2, tick_of True False 3, tick_of False True 4]"]
    by (simp add: handshake_def tick_of_def answer_def)
qed

text \<open>What the handshake flags of a transport may be.\<close>

definition flags_ok :: "('s, 'e) htif \<Rightarrow> bool" where
  "flags_ok h \<longleftrightarrow> (request_exposed h \<longrightarrow> request_pending h) \<and> (request_accepted h \<longrightarrow> request_exposed h)"

text \<open>What the host thread may do to them: begin transactions.\<close>

inductive host_moves :: "('s, 'e) htif \<Rightarrow> ('s, 'e) htif \<Rightarrow> bool" where
  stay: "host_moves h h"
| begin_transaction: "host_moves h g \<Longrightarrow> transact_begin g w a d n = Inr k \<Longrightarrow> host_moves h k"
| other: "host_moves h g \<Longrightarrow> host_moves h (g\<lparr>failed := f, loading := l\<rparr>)"

lemma host_moves_flags: "host_moves h k \<Longrightarrow> flags_ok h \<Longrightarrow>
    flags_ok k \<and> (request_pending h \<longrightarrow> request_pending k \<and> request k = request h
      \<and> request_exposed k = request_exposed h \<and> request_accepted k = request_accepted h)"
  by (induction rule: host_moves.induct) (auto simp: flags_ok_def transact_begin_def split: if_splits)

lemma tick_target_flags: "flags_ok h \<Longrightarrow> flags_ok (tick_target h i) \<and> request (tick_target h i) = request h"
  by (auto simp: flags_ok_def tick_target_def Let_def)

text \<open>C26: from one tick to the next, whatever the host thread does in between, the bus sees a legal
  handshake: request valid and response ready are never raised together, and a request that was
  offered and not accepted is offered again unchanged, and withdrawn only when it is ready.\<close>

theorem htif_request_stable:
  assumes "flags_ok h" "request_valid h" "host_moves (tick_target h i) k"
  shows "flags_ok k \<and> \<not> (request_valid k \<and> response_ready k)
    \<and> (if request_ready i then response_valid i \<or> (response_ready k \<and> request k = request h)
       else request_valid k \<and> request k = request h)"
proof -
  have t: "flags_ok (tick_target h i)" "request (tick_target h i) = request h"
    using tick_target_flags [OF assms(1)] by auto
  note k = host_moves_flags [OF assms(3) t(1)]
  have p: "request_pending h" "request_exposed h" "\<not> request_accepted h"
    using assms(2) by (auto simp: request_valid_def)
  show ?thesis
    using k t(2) p by (auto simp: request_valid_def response_ready_def tick_target_def Let_def split: if_splits)
qed

definition offered_htif :: "(u64 \<Rightarrow> u8, unit) htif" where
  "offered_htif = flat_htif\<lparr>request_pending := True, request_exposed := True\<rparr>"

theorem htif_request_stable_witness:
  "request_valid (tick_target offered_htif (tick_of False True 0))"
proof -
  have f: "flags_ok offered_htif" "request_valid offered_htif"
    by (simp_all add: offered_htif_def flat_htif_def flags_ok_def request_valid_def)
  show ?thesis
    using htif_request_stable [OF f host_moves.stay, of "tick_of False True 0"] by (simp add: tick_of_def)
qed

text \<open>A run of ticks, with the exit words they return.\<close>

fun dpi_ticks :: "('s, 'e, 'h) dpi_env \<Rightarrow> ('s, 'e) htif_dpi \<times> 'h \<Rightarrow> (bool \<times> u8 \<times> u64 \<times> tick_in) list
    \<Rightarrow> ((('s, 'e) htif_dpi \<times> 'h) \<times> u32 list) option" where
  "dpi_ticks env st [] = Some (st, [])"
| "dpi_ticks env st ((reset, xlen, boot, i) # ticks) =
     (case rhodium_htif_tick env st reset xlen boot i of
        None \<Rightarrow> None
      | Some (st, outs, code) \<Rightarrow> map_option (\<lambda>(st, codes). (st, code # codes)) (dpi_ticks env st ticks))"

lemma failed_ticks:
  assumes "startup_failed d" "transport d = None"
  shows "\<exists>d'. dpi_ticks env (d, host) ticks = Some ((d', host), map (\<lambda>(reset, _). if reset then 0 else 3) ticks)"
  using assms
proof (induction ticks arbitrary: d)
  case (Cons x ticks)
  obtain reset xlen boot i where x: "x = (reset, xlen, boot, i)" by (cases x)
  define d1 where "d1 = (if reset then d\<lparr>saw_reset := True\<rparr> else d)"
  have "\<exists>outs. rhodium_htif_tick env (d, host) reset xlen boot i = Some ((d1, host), outs, if reset then 0 else 3)"
    using Cons.prems by (simp add: rhodium_htif_tick_def d1_def)
  moreover have "startup_failed d1" "transport d1 = None" using Cons.prems by (auto simp: d1_def)
  from Cons.IH [OF this] obtain d' where
    "dpi_ticks env (d1, host) ticks = Some ((d', host), map (\<lambda>(reset, _). if reset then 0 else 3) ticks)" ..
  ultimately show ?case unfolding x by auto
qed simp

text \<open>C27: a failed start is final: when a tick outside reset could not build the transport (no clocked
  reset before it, an image map that fails, a bad width or register, a host that does not start),
  it and every later tick outside reset report exit status 3, whatever the later inputs and
  resets, and no host thread ever runs.\<close>

theorem htif_startup_failure_final:
  assumes "rhodium_htif_tick env (d, host) False xlen boot i = Some ((d', host'), outs, code)"
    and "transport d' = None"
  shows "code = 3 \<and> host' = host \<and> (\<exists>d''. dpi_ticks env (d', host) ticks
    = Some ((d'', host), map (\<lambda>(reset, _). if reset then 0 else 3) ticks))"
proof -
  have "code = 3 \<and> host' = host \<and> startup_failed d'"
    using assms by (auto simp: rhodium_htif_tick_def split: option.splits sum.splits prod.splits if_splits)
  with failed_ticks [of d' env host ticks] assms(2) show ?thesis by blast
qed

definition example_env :: "(u64 \<Rightarrow> u8, unit, unit) dpi_env" where
  "example_env = \<lparr>vpi_arguments = Some [''sim'', ''+max-cycles=9'', ''program.elf''],
     make_memories = Inr empty_image_map, start_host = (\<lambda>_. Some ()), switch_to_host = (\<lambda>_ h. ((), h)),
     host_done = (\<lambda>_. False), host_exit_code = (\<lambda>_. 0)\<rparr>"

theorem htif_startup_failure_final_witness:
  "\<exists>d outs d''. rhodium_htif_tick example_env (new_dpi, ()) False 64 0 (tick_of False False 0) = Some ((d, ()), outs, 3)
    \<and> dpi_ticks example_env (d, ()) [(True, 64, 0, tick_of False False 0), (False, 64, 0, tick_of False False 0)]
      = Some ((d'', ()), [0, 3])"
proof -
  let ?d = "(new_dpi :: (u64 \<Rightarrow> u8, unit) htif_dpi)\<lparr>startup_failed := True\<rparr>"
  have t: "rhodium_htif_tick example_env (new_dpi, ()) False 64 0 (tick_of False False 0)
      = Some ((?d, ()), Some clear_outputs, 3)"
    by (simp add: rhodium_htif_tick_def new_dpi_def example_env_def start_transport_def)
  have "transport ?d = None" by (simp add: new_dpi_def)
  from htif_startup_failure_final [OF t this,
      of "[(True, 64, 0, tick_of False False 0), (False, 64, 0, tick_of False False 0)]"]
  have "\<exists>d''. dpi_ticks example_env (?d, ()) [(True, 64, 0, tick_of False False 0), (False, 64, 0, tick_of False False 0)]
      = Some ((d'', ()), [0, 3])" by simp
  with t show ?thesis by blast
qed

end
