(* ===== verification/Perfetto_Wire.thy ===== *)
theory Perfetto_Wire
  imports Rheg_Json
begin

unbundle bit_operations_syntax

text \<open>
  The wire encoder of \<open>rheg/perfetto/rheg_perfetto.cc\<close>: varints and length-delimited fields. The
  reader below is the specification: a protobuf reader that sees a message as the list of its
  fields gets back what was written.
\<close>

section \<open>Encoding\<close>

lemma unat_drop_septet: "unat (drop_bit 7 (n::u64)) = unat n div 128"
  by (simp add: drop_bit_eq_div unat_div)

function varint :: "u64 \<Rightarrow> u8 list" where
  "varint n = (if n \<ge> 128 then ucast ((n AND 127) OR 128) # varint (drop_bit 7 n) else [ucast n])"
  by pat_completeness auto
termination
proof (relation "measure unat")
  fix n :: u64 assume "128 \<le> n"
  then have "unat n div 128 < unat n" by (intro div_less_dividend) (auto simp: word_le_unat_iff)
  then show "(drop_bit 7 n, n) \<in> measure unat" by (simp only: in_measure unat_drop_septet)
qed simp

declare varint.simps [simp del]

definition integer :: "nat \<Rightarrow> u64 \<Rightarrow> u8 list" where
  "integer field n = varint (push_bit 3 (of_nat field)) @ varint n"

definition bytes_field :: "nat \<Rightarrow> u8 list \<Rightarrow> u8 list" where
  "bytes_field field value = varint (push_bit 3 (of_nat field) OR 2) @ varint (of_nat (length value)) @ value"

definition packet :: "u8 list \<Rightarrow> u8 list" where
  "packet value = bytes_field 1 value"

text \<open>The bytes of a \<open>std::string\<close>.\<close>

definition octets :: "string \<Rightarrow> u8 list" where
  "octets s = map of_char s"

section \<open>Reading\<close>

datatype wire_value = Varint u64 | Delimited "u8 list"

fun read_varint :: "u8 list \<Rightarrow> (nat \<times> u8 list) option" where
  "read_varint [] = None"
| "read_varint (b # bs) =
     (if b < 128 then Some (unat b, bs)
      else map_option (\<lambda>(n, rest). (unat b - 128 + 128 * n, rest)) (read_varint bs))"

definition read_field :: "u8 list \<Rightarrow> ((nat \<times> wire_value) \<times> u8 list) option" where
  "read_field bs = (case read_varint bs of None \<Rightarrow> None
     | Some (tag, bs) \<Rightarrow> (case read_varint bs of None \<Rightarrow> None
        | Some (n, bs) \<Rightarrow>
            if tag mod 8 = 0 then Some ((tag div 8, Varint (of_nat n)), bs)
            else if tag mod 8 = 2 \<and> n \<le> length bs then Some ((tag div 8, Delimited (take n bs)), drop n bs)
            else None))"

lemma read_varint_shorter: "read_varint bs = Some (n, rest) \<Longrightarrow> length rest < length bs"
  by (induction bs arbitrary: n) (auto split: if_splits)

lemma read_field_shorter: "read_field bs = Some (f, rest) \<Longrightarrow> length rest < length bs"
  by (fastforce simp: read_field_def dest!: read_varint_shorter split: option.splits if_splits)

function read_message :: "u8 list \<Rightarrow> (nat \<times> wire_value) list option" where
  "read_message bs = (if bs = [] then Some []
     else case read_field bs of None \<Rightarrow> None
       | Some (f, rest) \<Rightarrow> map_option (\<lambda>fs. f # fs) (read_message rest))"
  by pat_completeness auto
termination
  by (relation "measure length") (auto dest: read_field_shorter)

declare read_message.simps [simp del]

section \<open>Reading back what was written\<close>

lemma low_septet: "unat (ucast ((n AND 127) OR 128) :: u8) = unat (n::u64) mod 128 + 128"
proof -
  have b128: "bit (128::u64) k \<longleftrightarrow> k = 7" for k
  proof -
    have "(128::u64) = 2 ^ 7" by simp
    then show ?thesis by (simp only: bit_exp_iff possible_bit_word) auto
  qed
  have "(127::u64) = mask 7" by (simp add: mask_eq_exp_minus_1)
  then have "(n AND 127) OR 128 = take_bit 7 n OR 128" by (simp only: take_bit_eq_mask)
  also have "\<dots> = take_bit 7 n + 128"
    by (rule disjunctive_add [symmetric]) (unfold b128 bit_take_bit_iff, auto)
  finally have "(n AND 127) OR 128 = take_bit 7 n + 128" .
  moreover have t: "unat (take_bit 7 n) = unat n mod 128"
    by (simp add: take_bit_eq_mod unat_mod)
  moreover have "unat (take_bit 7 n + 128) = unat n mod 128 + 128"
    by (subst unat_add_no_wrap) (simp_all add: t)
  moreover have "unat n mod 128 + 128 < 256" by simp
  ultimately show ?thesis by (simp add: unsigned_ucast_eq take_bit_nat_eq_self)
qed

lemma read_varint_varint: "read_varint (varint n @ rest) = Some (unat n, rest)"
proof (induction n rule: varint.induct)
  case (1 n)
  show ?case
  proof (cases "n \<ge> 128")
    case True
    let ?b = "ucast ((n AND 127) OR 128) :: u8"
    have "\<not> ?b < 128" by (simp add: word_less_unat_iff low_septet)
    then show ?thesis
      using 1 [OF True] True
      by (subst varint.simps) (simp add: low_septet unat_drop_septet mult.commute [of 128])
  next
    case False
    then have u: "unat n < 128" by (simp add: word_le_unat_iff)
    then have "unat (ucast n :: u8) = unat n"
      by (simp add: unsigned_ucast_eq take_bit_nat_eq_self)
    with False u show ?thesis by (subst varint.simps) (simp add: word_less_unat_iff)
  qed
qed

lemma tag_value: "field < 2 ^ 61 \<Longrightarrow> unat (push_bit 3 (of_nat field) :: u64) = 8 * field"
  by (simp add: push_bit_eq_mult unat_word_ariths unsigned_of_nat take_bit_nat_eq_self)

lemma tag_value2: "field < 2 ^ 61 \<Longrightarrow> unat (push_bit 3 (of_nat field) OR 2 :: u64) = 8 * field + 2"
proof -
  assume f: "field < 2 ^ 61"
  have "(2::u64) = push_bit 1 1" by simp
  then have "push_bit 3 (of_nat field) OR 2 = (push_bit 3 (of_nat field) + 2 :: u64)"
    by (intro disjunctive_add [symmetric]) (auto simp: bit_simps)
  then show ?thesis using f tag_value [OF f] by (simp add: unat_add_no_wrap)
qed

text \<open>A field as the encoder writes it.\<close>

fun write_field :: "nat \<times> wire_value \<Rightarrow> u8 list" where
  "write_field (f, Varint n) = integer f n"
| "write_field (f, Delimited bs) = bytes_field f bs"

definition field_fits :: "nat \<times> wire_value \<Rightarrow> bool" where
  "field_fits f \<longleftrightarrow> fst f < 2 ^ 61 \<and> (case snd f of Varint _ \<Rightarrow> True | Delimited bs \<Rightarrow> length bs < 2 ^ 64)"

lemma read_field_write: "field_fits f \<Longrightarrow> read_field (write_field f @ rest) = Some (f, rest)"
proof (cases f rule: write_field.cases)
  case (1 k n)
  moreover assume "field_fits f"
  ultimately show ?thesis
    by (simp add: read_field_def integer_def read_varint_varint tag_value field_fits_def)
next
  case (2 k bs)
  moreover assume "field_fits f"
  ultimately have fits: "k < 2 ^ 61" "length bs < 2 ^ 64" by (simp_all add: field_fits_def)
  have "(8 * k + 2) mod 8 = 2" "(8 * k + 2) div 8 = k" by presburger+
  with 2 fits show ?thesis
    by (simp add: read_field_def bytes_field_def read_varint_varint tag_value2 unat_of_nat64)
qed

lemma varint_nonempty: "varint n \<noteq> []"
  by (subst varint.simps) simp

lemma write_field_nonempty: "write_field f \<noteq> []"
  by (cases f rule: write_field.cases) (auto simp: integer_def bytes_field_def varint_nonempty)

lemma read_message_write:
  "list_all field_fits fs \<Longrightarrow> read_message (concat (map write_field fs)) = Some fs"
proof (induction fs)
  case Nil
  then show ?case by (simp add: read_message.simps)
next
  case (Cons f fs)
  then show ?case
    using write_field_nonempty [of f]
    by (subst read_message.simps) (simp add: read_field_write)
qed

lemma length_varint: "unat n < 2 ^ (7 * k) \<Longrightarrow> 0 < k \<Longrightarrow> length (varint n) \<le> k"
proof (induction k arbitrary: n)
  case (Suc k)
  show ?case
  proof (cases "n \<ge> 128")
    case True
    have "unat n < 2 ^ (7 * k) * 128" using Suc.prems(1) by (simp add: power_add mult.commute)
    then have lt: "unat (drop_bit 7 n) < 2 ^ (7 * k)"
      by (simp only: unat_drop_septet less_mult_imp_div_less)
    have "0 < k"
    proof (rule ccontr)
      assume "\<not> 0 < k"
      with Suc.prems(1) True show False by (simp add: word_le_unat_iff)
    qed
    with Suc.IH [OF lt] True show ?thesis by (subst varint.simps) simp
  next
    case False
    then show ?thesis by (subst varint.simps) simp
  qed
qed simp

section \<open>Properties\<close>

text \<open>C28: a protobuf reader gets back exactly the fields that were written, in order, from their
  concatenated encodings, and every integer takes at most ten bytes.\<close>

theorem wire_round_trip:
  assumes "list_all field_fits fs"
  shows "read_message (concat (map write_field fs)) = Some fs
    \<and> (\<forall>n. length (varint n) \<le> 10)"
proof -
  have "length (varint n) \<le> 10" for n
    using unat_lt64 [of n] by (intro length_varint) simp_all
  with read_message_write [OF assms] show ?thesis by blast
qed

theorem wire_round_trip_witness:
  "read_message (integer 9 300 @ bytes_field 23 [1, 2, 3]) = Some [(9, Varint 300), (23, Delimited [1, 2, 3])]"
  using wire_round_trip [of "[(9, Varint 300), (23, Delimited [1, 2, 3])]"] by (simp add: field_fits_def)

end
