(* ===== verification/Perfetto_Intern.thy ===== *)
theory Perfetto_Intern
  imports Perfetto_Wire "HOL-Library.List_Lexorder" "HOL-Library.Char_ord"
begin

text \<open>
  String interning of the exporter: four bounded dictionaries from strings to interning
  identities (IIDs), entries admitted during one batch kept apart until its output has been
  written, and the messages that refer to them. The specification is a reader that keeps a table
  per dictionary and learns the entries each packet carries.
\<close>

section \<open>Dictionaries\<close>

datatype kind = Category | Name | Annotation_Name | Value

record dictionary =
  ids :: "(string \<times> u64) list"
  dict_bytes :: nat

type_synonym interned = "kind \<Rightarrow> dictionary"

definition no_strings :: interned where
  "no_strings = (\<lambda>_. \<lparr>ids = [], dict_bytes = 0\<rparr>)"

record pending_interns =
  known_strings :: interned
  added_strings :: interned
  pending :: "u8 list"

definition new_pending :: "interned \<Rightarrow> pending_interns" where
  "new_pending committed = \<lparr>known_strings = committed, added_strings = no_strings, pending = []\<rparr>"

text \<open>The field of \<open>InternedData\<close> each dictionary is sent in.\<close>

fun intern_table :: "kind \<Rightarrow> nat" where
  "intern_table Category = 1"
| "intern_table Name = 2"
| "intern_table Annotation_Name = 3"
| "intern_table Value = 29"

definition intern_entry :: "u64 \<Rightarrow> string \<Rightarrow> u8 list" where
  "intern_entry iid v = integer 1 iid @ bytes_field 2 (octets v)"

text \<open>The bytes appended to the message come next to the new state.\<close>

definition reference :: "nat \<Rightarrow> nat \<Rightarrow> kind \<Rightarrow> string \<Rightarrow> pending_interns \<Rightarrow> pending_interns \<times> u8 list" where
  "reference iid_field inline_field k v ps =
     (let prior = known_strings ps k; fresh = added_strings ps k
      in case om_find (ids prior) v of
           Some i \<Rightarrow> (ps, integer iid_field i)
         | None \<Rightarrow> (case om_find (ids fresh) v of
             Some i \<Rightarrow> (ps, integer iid_field i)
           | None \<Rightarrow>
               if length (ids prior) + length (ids fresh) \<ge> 4096 \<or> length v > 1024
                  \<or> dict_bytes prior + dict_bytes fresh + length v > 1024 * 1024
               then (ps, bytes_field inline_field (octets v))
               else let iid = of_nat (length (ids prior) + length (ids fresh) + 1)
                 in (ps\<lparr>added_strings := (added_strings ps)(k :=
                        \<lparr>ids = om_put v iid (ids fresh), dict_bytes = dict_bytes fresh + length v\<rparr>),
                      pending := pending ps @ bytes_field (intern_table k) (intern_entry iid v)\<rparr>,
                    integer iid_field iid)))"

text \<open>\<open>std::map::merge\<close>: entries of the other map whose key is absent are moved over.\<close>

definition om_merge :: "('k::linorder \<times> 'v) list \<Rightarrow> ('k \<times> 'v) list \<Rightarrow> ('k \<times> 'v) list" where
  "om_merge m n = fold (\<lambda>(k, v) m. if om_has m k then m else om_put k v m) n m"

definition commit :: "pending_interns \<Rightarrow> interned" where
  "commit ps = (\<lambda>k. \<lparr>ids = om_merge (ids (known_strings ps k)) (ids (added_strings ps k)),
     dict_bytes = dict_bytes (known_strings ps k) + dict_bytes (added_strings ps k)\<rparr>)"

section \<open>Annotations\<close>

definition annotation :: "string \<Rightarrow> string \<Rightarrow> bool \<Rightarrow> pending_interns \<Rightarrow> pending_interns \<times> u8 list" where
  "annotation name v intern_value ps =
     (case reference 1 10 Annotation_Name name ps of (ps, a) \<Rightarrow>
      case (if intern_value then reference 17 6 Value v ps else (ps, bytes_field 6 (octets v))) of (ps, b) \<Rightarrow>
        (ps, bytes_field 4 (a @ b)))"

definition int64_max :: u64 where
  "int64_max = 0x7FFFFFFFFFFFFFFF"

definition shown_as_text :: "field \<Rightarrow> field_value \<Rightarrow> rheg_error + bool" where
  "shown_as_text f value =
     (if encoding f = ''hex'' \<or> fwidth f > 64 then Inr True
      else if encoding f = ''unsigned'' \<or> encoding f = ''enum''
      then bind_result (unsigned_value value) (\<lambda>u. Inr (u > int64_max))
      else Inr False)"

definition capture_annotation :: "field \<Rightarrow> node \<Rightarrow> pending_interns \<Rightarrow> rheg_error + pending_interns \<times> u8 list" where
  "capture_annotation f n ps =
     bind_result (capture_field n f) (\<lambda>value.
     bind_result (shown_as_text f value) (\<lambda>as_text.
       if as_text
       then bind_result (if encoding f = ''hex'' then fv_hex value else fv_decimal value)
         (\<lambda>s. Inr (annotation (fname f) s True ps))
       else case reference 1 10 Annotation_Name (fname f) ps of (ps, a) \<Rightarrow>
         bind_result
           (if encoding f = ''bool'' then map_sum id (integer 2) (unsigned_value value)
            else if encoding f = ''signed'' then map_sum id (integer 4) (signed_value value)
            else map_sum id (integer 3) (unsigned_value value))
           (\<lambda>b. Inr (ps, bytes_field 4 (a @ b)))))"

section \<open>The reader\<close>

text \<open>A table per dictionary; what a reader makes of the fields of an \<open>InternedData\<close> message.\<close>

type_synonym tables = "kind \<Rightarrow> u64 \<Rightarrow> u8 list option"

definition table_kind :: "nat \<Rightarrow> kind option" where
  "table_kind f = (if f = 1 then Some Category else if f = 2 then Some Name
     else if f = 3 then Some Annotation_Name else if f = 29 then Some Value else None)"

definition learn_entry :: "nat \<times> wire_value \<Rightarrow> tables \<Rightarrow> tables" where
  "learn_entry f t = (case (table_kind (fst f), snd f) of
     (Some k, Delimited e) \<Rightarrow>
       (case read_message e of
          Some [(Suc 0, Varint i), (Suc (Suc 0), Delimited v)] \<Rightarrow> t(k := (t k)(i \<mapsto> v))
        | _ \<Rightarrow> t)
   | _ \<Rightarrow> t)"

definition learn :: "u8 list \<Rightarrow> tables \<Rightarrow> tables" where
  "learn bs t = (case read_message bs of None \<Rightarrow> t | Some fs \<Rightarrow> fold learn_entry fs t)"

text \<open>The string a field of a message denotes.\<close>

definition resolve :: "tables \<Rightarrow> nat \<Rightarrow> nat \<Rightarrow> kind \<Rightarrow> nat \<times> wire_value \<Rightarrow> u8 list option" where
  "resolve t iid_field inline_field k f = (case snd f of
     Varint i \<Rightarrow> if fst f = iid_field then t k i else None
   | Delimited v \<Rightarrow> if fst f = inline_field then Some v else None)"

section \<open>Invariant\<close>

definition entries_ok :: "(string \<times> u64) list \<Rightarrow> nat \<Rightarrow> bool" where
  "entries_ok es b \<longleftrightarrow> distinct (map fst es) \<and> distinct (map snd es)
     \<and> unat ` snd ` set es = {1..length es} \<and> length es \<le> 4096
     \<and> (\<forall>e \<in> set es. length (fst e) \<le> 1024)
     \<and> b = sum_list (map (length \<circ> fst) es) \<and> b \<le> 1024 * 1024"

definition entries :: "pending_interns \<Rightarrow> kind \<Rightarrow> (string \<times> u64) list" where
  "entries ps k = ids (known_strings ps k) @ ids (added_strings ps k)"

definition entry_bytes :: "pending_interns \<Rightarrow> kind \<Rightarrow> nat" where
  "entry_bytes ps k = dict_bytes (known_strings ps k) + dict_bytes (added_strings ps k)"

definition interned_ok :: "interned \<Rightarrow> bool" where
  "interned_ok d \<longleftrightarrow> (\<forall>k. om_wf (ids (d k)) \<and> entries_ok (ids (d k)) (dict_bytes (d k)))"

definition pending_ok :: "pending_interns \<Rightarrow> bool" where
  "pending_ok ps \<longleftrightarrow> (\<forall>k. om_wf (ids (known_strings ps k)) \<and> om_wf (ids (added_strings ps k))
     \<and> entries_ok (entries ps k) (entry_bytes ps k))"

definition knows :: "tables \<Rightarrow> (kind \<Rightarrow> (string \<times> u64) list) \<Rightarrow> bool" where
  "knows t es \<longleftrightarrow> (\<forall>k i v. t k i = Some v \<longleftrightarrow> (\<exists>s. (s, i) \<in> set (es k) \<and> v = octets s))"

text \<open>\<open>t\<close> is what the reader knows from the packets sent so far.\<close>

definition reader_ok :: "tables \<Rightarrow> pending_interns \<Rightarrow> bool" where
  "reader_ok t ps \<longleftrightarrow> (\<exists>fs. list_all field_fits fs \<and> pending ps = concat (map write_field fs)
     \<and> knows (fold learn_entry fs t) (entries ps))"

lemma reader_ok_learn: "reader_ok t ps \<Longrightarrow> knows (learn (pending ps) t) (entries ps)"
  by (auto simp: reader_ok_def learn_def read_message_write)

lemma entries_ok_mset: "mset xs = mset ys \<Longrightarrow> entries_ok xs b = entries_ok ys b"
proof -
  assume m: "mset xs = mset ys"
  then have "length xs = length ys" "set xs = set ys"
    by (auto dest: mset_eq_length mset_eq_setD)
  moreover have "distinct (map fst xs) = distinct (map fst ys)" "distinct (map snd xs) = distinct (map snd ys)"
    using m by (metis mset_eq_imp_distinct_iff mset_map)+
  moreover have "sum_list (map (length \<circ> fst) xs) = sum_list (map (length \<circ> fst) ys)"
    using m by (metis mset_map sum_mset_sum_list)
  ultimately show ?thesis unfolding entries_ok_def by simp
qed

lemma mset_om_put: "k \<notin> fst ` set m \<Longrightarrow> mset (om_put k v m) = add_mset (k, v) (mset m)"
proof (induction k v m rule: om_put.induct)
  case (2 k v a b m)
  then show ?case by (cases "k = a") auto
qed simp

lemma om_has_iff: "om_has m k \<longleftrightarrow> k \<in> fst ` set m"
  by (simp add: om_find_None)

lemma entries_ok_fresh:
  assumes "entries_ok es b" "v \<notin> fst ` set es" "length es < 4096" "length v \<le> 1024"
    and "b + length v \<le> 1024 * 1024"
  shows "entries_ok ((v, of_nat (length es + 1)) # es) (b + length v)"
proof -
  let ?i = "of_nat (length es + 1) :: u64"
  have u: "unat ?i = length es + 1" using assms(3) by (intro unat_of_nat64) simp
  have r: "unat ` snd ` set es = {1..length es}" using assms(1) by (simp add: entries_ok_def)
  then have "?i \<notin> snd ` set es" using u by (metis Suc_eq_plus1 atLeastAtMost_iff image_eqI not_less_eq_eq order_refl)
  moreover have "unat ` snd ` set ((v, ?i) # es) = {1..length es + 1}"
    using r u by (auto simp: atLeastAtMostSuc_conv)
  ultimately show ?thesis using assms by (auto simp: entries_ok_def)
qed

definition fresh_iid :: "kind \<Rightarrow> pending_interns \<Rightarrow> u64" where
  "fresh_iid k ps = of_nat (length (entries ps k) + 1)"

definition admitted :: "kind \<Rightarrow> string \<Rightarrow> pending_interns \<Rightarrow> pending_interns" where
  "admitted k v ps = ps\<lparr>added_strings := (added_strings ps)(k :=
       \<lparr>ids = om_put v (fresh_iid k ps) (ids (added_strings ps k)),
        dict_bytes = dict_bytes (added_strings ps k) + length v\<rparr>),
     pending := pending ps @ bytes_field (intern_table k) (intern_entry (fresh_iid k ps) v)\<rparr>"

lemma reference_cases:
  assumes "reference i_field s_field k v ps = (ps', m)"
  obtains (found) i where "(v, i) \<in> set (entries ps k)" "ps' = ps" "m = integer i_field i"
  | (inline) "ps' = ps" "m = bytes_field s_field (octets v)"
  | (fresh) "v \<notin> fst ` set (entries ps k)" "length (entries ps k) < 4096" "length v \<le> 1024"
      "entry_bytes ps k + length v \<le> 1024 * 1024" "ps' = admitted k v ps"
      "m = integer i_field (fresh_iid k ps)"
proof (cases "om_find (ids (known_strings ps k)) v")
  case (Some i)
  with assms show ?thesis by (intro found [of i]) (auto simp: reference_def entries_def dest: om_find_in)
next
  case absent: None
  show ?thesis
  proof (cases "om_find (ids (added_strings ps k)) v")
    case (Some i)
    with assms absent show ?thesis
      by (intro found [of i]) (auto simp: reference_def entries_def dest: om_find_in)
  next
    case None
    let ?full = "length (ids (known_strings ps k)) + length (ids (added_strings ps k)) \<ge> 4096 \<or> length v > 1024
      \<or> dict_bytes (known_strings ps k) + dict_bytes (added_strings ps k) + length v > 1024 * 1024"
    note run = assms [unfolded reference_def Let_def absent None option.case]
    show ?thesis
    proof (cases ?full)
      case True
      from run [unfolded if_P [OF True]] show ?thesis by (intro inline) simp_all
    next
      case False
      from run [unfolded if_not_P [OF False]] have
        "ps' = admitted k v ps" "m = integer i_field (fresh_iid k ps)"
        by (simp_all add: admitted_def fresh_iid_def entries_def)
      with False absent None show ?thesis
        by (intro fresh) (auto simp: entries_def entry_bytes_def om_find_None)
    qed
  qed
qed

lemma mset_entries_admitted:
  assumes "v \<notin> fst ` set (entries ps k)"
  shows "mset (entries (admitted k v ps) j) =
    (if j = k then add_mset (v, fresh_iid k ps) (mset (entries ps k)) else mset (entries ps j))"
  using assms by (auto simp: entries_def admitted_def mset_om_put image_Un)

lemma set_entries_admitted:
  "v \<notin> fst ` set (entries ps k) \<Longrightarrow> set (entries (admitted k v ps) j) =
    (if j = k then insert (v, fresh_iid k ps) (set (entries ps k)) else set (entries ps j))"
  using arg_cong [OF mset_entries_admitted [of v ps k j], of set_mset] by (auto split: if_splits)

lemma pending_reference:
  assumes ok: "pending_ok ps" and run: "reference i_field s_field k v ps = (ps', m)"
  shows "pending_ok ps' \<and> known_strings ps' = known_strings ps"
  using run
proof (cases rule: reference_cases)
  case fresh
  have "entries_ok (entries ps' j) (entry_bytes ps' j)" for j
  proof (cases "j = k")
    case True
    have "entries_ok (entries ps k) (entry_bytes ps k)" using ok by (simp add: pending_ok_def)
    from entries_ok_fresh [OF this fresh(1-4)]
    have "entries_ok ((v, fresh_iid k ps) # entries ps k) (entry_bytes ps k + length v)"
      by (simp add: fresh_iid_def)
    moreover have "mset (entries ps' k) = mset ((v, fresh_iid k ps) # entries ps k)"
      by (simp add: fresh(5) mset_entries_admitted [OF fresh(1)])
    moreover have "entry_bytes ps' k = entry_bytes ps k + length v"
      by (simp add: fresh(5) admitted_def entry_bytes_def)
    ultimately show ?thesis using True by (metis entries_ok_mset)
  next
    case False
    then have "entries ps' j = entries ps j" "entry_bytes ps' j = entry_bytes ps j"
      by (simp_all add: fresh(5) admitted_def entry_bytes_def entries_def)
    then show ?thesis using ok by (simp add: pending_ok_def)
  qed
  moreover have "om_wf (ids (added_strings ps' j)) \<and> known_strings ps' = known_strings ps" for j
    using ok by (simp add: fresh(5) admitted_def pending_ok_def om_wf_put)
  ultimately show ?thesis using ok by (simp add: pending_ok_def)
qed (use ok in simp_all)

lemma table_kind_table: "table_kind (intern_table k) = Some k"
  by (cases k) (simp_all add: table_kind_def)

lemma field_table: "intern_table k < 2 ^ 61"
  by (cases k) simp_all

lemma length_octets [simp]: "length (octets s) = length s"
  by (simp add: octets_def)

lemma length_varint_64: "length (varint n) \<le> 10"
  using unat_lt64 [of n] by (intro length_varint) simp_all

lemma read_entry: "length v \<le> 1024 \<Longrightarrow>
    read_message (intern_entry i v) = Some [(1, Varint i), (2, Delimited (octets v))]"
  using read_message_write [of "[(1, Varint i), (2, Delimited (octets v))]"]
  by (simp add: field_fits_def intern_entry_def)

lemma length_intern_entry: "length (intern_entry i v) \<le> 40 + length v"
  using length_varint_64 [of i] length_varint_64 [of "push_bit 3 1"]
    length_varint_64 [of "push_bit 3 2 OR 2"] length_varint_64 [of "of_nat (length v)"]
  by (simp add: intern_entry_def integer_def bytes_field_def)

text \<open>What a reference adds to its message, and that the reader can resolve it.\<close>

lemma learn_admitted:
  assumes "reader_ok t ps" "v \<notin> fst ` set (entries ps k)" "length v \<le> 1024"
    and new: "fresh_iid k ps \<notin> snd ` set (entries ps k)"
  shows "reader_ok t (admitted k v ps)"
proof -
  obtain fs where fs: "list_all field_fits fs" "pending ps = concat (map write_field fs)"
    "knows (fold learn_entry fs t) (entries ps)"
    using assms(1) by (auto simp: reader_ok_def)
  let ?f = "(intern_table k, Delimited (intern_entry (fresh_iid k ps) v))"
  let ?t = "fold learn_entry fs t"
  have "field_fits ?f"
    using length_intern_entry [of "fresh_iid k ps" v] assms(3) field_table [of k]
    by (simp add: field_fits_def)
  moreover have "learn_entry ?f ?t = ?t(k := (?t k)(fresh_iid k ps \<mapsto> octets v))"
    using read_entry [OF assms(3)] by (simp add: learn_entry_def table_kind_table)
  moreover have "knows (?t(k := (?t k)(fresh_iid k ps \<mapsto> octets v))) (entries (admitted k v ps))"
    using fs(3) new unfolding knows_def set_entries_admitted [OF assms(2)] by (force simp: image_iff)
  ultimately show ?thesis
    unfolding reader_ok_def using fs
    by (intro exI [of _ "fs @ [?f]"]) (simp add: admitted_def)
qed

text \<open>What a reference adds to its message, and that the reader can resolve it.\<close>

lemma reader_reference:
  assumes ok: "pending_ok ps" "reader_ok t ps" and run: "reference i_field s_field k v ps = (ps', m)"
  shows "reader_ok t ps' \<and> set (entries ps j) \<subseteq> set (entries ps' j)
    \<and> (m = bytes_field s_field (octets v) \<or> (\<exists>i. m = integer i_field i \<and> (v, i) \<in> set (entries ps' k)))"
  using run
proof (cases rule: reference_cases)
  case fresh
  have e: "unat ` snd ` set (entries ps k) = {1..length (entries ps k)}"
    using ok(1) by (simp add: pending_ok_def entries_ok_def)
  have "unat (fresh_iid k ps) = length (entries ps k) + 1"
    unfolding fresh_iid_def using fresh(2) by (intro unat_of_nat64) simp
  then have "fresh_iid k ps \<notin> snd ` set (entries ps k)"
    using e by (metis Suc_eq_plus1 atLeastAtMost_iff image_eqI not_less_eq_eq order_refl)
  from learn_admitted [OF ok(2) fresh(1,3) this] fresh show ?thesis
    by (auto simp: set_entries_admitted [OF fresh(1)])
qed (use ok in auto)

section \<open>Committing\<close>

lemma om_merge_disjoint:
  "om_wf m \<Longrightarrow> distinct (map fst n) \<Longrightarrow> fst ` set m \<inter> fst ` set n = {} \<Longrightarrow>
    om_wf (om_merge m n) \<and> mset (om_merge m n) = mset m + mset n"
proof (induction n arbitrary: m)
  case (Cons e n)
  obtain k v where e: "e = (k, v)" by (cases e)
  have new: "k \<notin> fst ` set m" using Cons.prems(3) e by auto
  let ?m = "om_put k v m"
  have m: "mset ?m = add_mset (k, v) (mset m)" using new by (rule mset_om_put)
  then have "set ?m = insert (k, v) (set m)" by (metis set_mset_add_mset_insert set_mset_mset)
  then have "fst ` set ?m \<inter> fst ` set n = {}" using Cons.prems(2,3) e by auto
  from Cons.IH [OF om_wf_put [OF Cons.prems(1)] _ this] Cons.prems(2) m
  have "om_wf (om_merge ?m n)" "mset (om_merge ?m n) = mset m + mset (e # n)" by (simp_all add: e)
  moreover have "om_merge m (e # n) = om_merge ?m n"
    using new by (simp add: om_merge_def e om_find_None)
  ultimately show ?case by simp
qed (simp add: om_merge_def)

lemma commit_entries:
  assumes "pending_ok ps"
  shows "om_wf (ids (commit ps k)) \<and> mset (ids (commit ps k)) = mset (entries ps k)
    \<and> dict_bytes (commit ps k) = entry_bytes ps k"
proof -
  have "om_wf (ids (known_strings ps k))" "distinct (map fst (entries ps k))"
    using assms by (auto simp: pending_ok_def entries_ok_def)
  then show ?thesis
    using om_merge_disjoint [of "ids (known_strings ps k)" "ids (added_strings ps k)"]
    by (simp add: commit_def entries_def entry_bytes_def)
qed

lemma commit_ok: "pending_ok ps \<Longrightarrow> interned_ok (commit ps)"
proof -
  assume ok: "pending_ok ps"
  then have "entries_ok (entries ps k) (entry_bytes ps k)" for k by (simp add: pending_ok_def)
  then have "entries_ok (ids (commit ps k)) (dict_bytes (commit ps k))" for k
    using commit_entries [OF ok, of k] entries_ok_mset [of "ids (commit ps k)" "entries ps k"] by simp
  then show ?thesis using commit_entries [OF ok] by (simp add: interned_ok_def)
qed

lemma commit_knows: "pending_ok ps \<Longrightarrow> knows t (entries ps) \<longleftrightarrow> knows t (\<lambda>k. ids (commit ps k))"
proof -
  assume ok: "pending_ok ps"
  have "set (ids (commit ps k)) = set (entries ps k)" for k
    using commit_entries [OF ok, of k] by (blast dest: mset_eq_setD)
  then show ?thesis by (simp add: knows_def)
qed

lemma new_pending_ok: "interned_ok d \<Longrightarrow> pending_ok (new_pending d)"
  by (simp add: interned_ok_def pending_ok_def new_pending_def entries_def entry_bytes_def no_strings_def)

lemma new_reader_ok: "knows t (\<lambda>k. ids (d k)) \<Longrightarrow> reader_ok t (new_pending d)"
  unfolding reader_ok_def
  by (intro exI [of _ "[]"]) (simp add: new_pending_def entries_def no_strings_def knows_def)

text \<open>The pending entries are sent with a packet; the reader learns them before it goes on.\<close>

lemma reader_sent: "reader_ok t ps \<Longrightarrow> reader_ok (learn (pending ps) t) (ps\<lparr>pending := []\<rparr>)"
proof -
  assume "reader_ok t ps"
  then have "knows (learn (pending ps) t) (entries ps)" by (rule reader_ok_learn)
  moreover have "entries (ps\<lparr>pending := []\<rparr>) = entries ps" by (simp add: entries_def fun_eq_iff)
  ultimately have "knows (fold learn_entry [] (learn (pending ps) t)) (entries (ps\<lparr>pending := []\<rparr>))" by simp
  then show ?thesis unfolding reader_ok_def by (intro exI [of _ "[]"]) simp
qed

lemma pending_sent: "pending_ok (ps\<lparr>pending := []\<rparr>) \<longleftrightarrow> pending_ok ps"
  by (simp add: pending_ok_def entries_def entry_bytes_def)

section \<open>Properties\<close>

fun refer_all :: "(nat \<times> nat \<times> kind \<times> string) list \<Rightarrow> pending_interns \<Rightarrow> pending_interns \<times> u8 list list" where
  "refer_all [] ps = (ps, [])"
| "refer_all ((i, s, k, v) # rs) ps =
     (case reference i s k v ps of (ps, m) \<Rightarrow> case refer_all rs ps of (ps, ms) \<Rightarrow> (ps, m # ms))"

definition reference_fits :: "nat \<times> nat \<times> kind \<times> string \<Rightarrow> bool" where
  "reference_fits r = (case r of (i, s, k, v) \<Rightarrow> i < 2 ^ 61 \<and> s < 2 ^ 61 \<and> length v < 2 ^ 64)"

definition denotes :: "(kind \<Rightarrow> (string \<times> u64) list) \<Rightarrow> nat \<times> nat \<times> kind \<times> string \<Rightarrow> u8 list \<Rightarrow> bool" where
  "denotes es r m = (case r of (i, s, k, v) \<Rightarrow>
     m = bytes_field s (octets v) \<or> (\<exists>iid. m = integer i iid \<and> (v, iid) \<in> set (es k)))"

lemma refer_all_ok:
  "refer_all rs ps = (ps', ms) \<Longrightarrow> pending_ok ps \<Longrightarrow> reader_ok t ps \<Longrightarrow>
    pending_ok ps' \<and> reader_ok t ps' \<and> (\<forall>k. set (entries ps k) \<subseteq> set (entries ps' k))
    \<and> list_all2 (denotes (entries ps')) rs ms"
proof (induction rs ps arbitrary: ps' ms rule: refer_all.induct)
  case (2 i s k v rs ps)
  obtain ps1 m where r: "reference i s k v ps = (ps1, m)" by (metis prod.exhaust)
  obtain ms' where rest: "refer_all rs ps1 = (ps', ms')" "ms = m # ms'"
    using 2(2) r by (auto split: prod.splits)
  have ok: "pending_ok ps1" using pending_reference [OF 2(3) r] by simp
  have rd: "reader_ok t ps1" "\<forall>j. set (entries ps j) \<subseteq> set (entries ps1 j)"
    "denotes (entries ps1) (i, s, k, v) m"
    using reader_reference [OF 2(3,4) r] by (auto simp: denotes_def)
  note IH = 2(1) [OF r [symmetric] rest(1) ok rd(1)]
  have "denotes (entries ps') (i, s, k, v) m" using rd(3) IH by (auto simp: denotes_def)
  then show ?case using IH rd(2) rest(2) by auto
qed simp

lemma denotes_resolves:
  assumes "denotes es (i, s, k, v) m" "knows t es" "reference_fits (i, s, k, v)"
  shows "\<exists>f. read_message m = Some [f] \<and> resolve t i s k f = Some (octets v)"
proof -
  obtain f where f: "m = write_field f" "field_fits f" "resolve t i s k f = Some (octets v)"
  proof (cases "m = bytes_field s (octets v)")
    case True
    then show ?thesis
      using assms(3) by (intro that [of "(s, Delimited (octets v))"])
        (auto simp: field_fits_def reference_fits_def resolve_def)
  next
    case False
    then obtain iid where "m = integer i iid" "(v, iid) \<in> set (es k)"
      using assms(1) by (auto simp: denotes_def)
    then show ?thesis
      using assms(2,3) by (intro that [of "(i, Varint iid)"])
        (auto simp: field_fits_def reference_fits_def resolve_def knows_def)
  qed
  then show ?thesis using read_message_write [of "[f]"] by auto
qed

text \<open>C29: interning loses nothing and stays bounded: after any references from committed dictionaries,
  a reader that knows the committed entries and learns the pending ones resolves every reference
  to exactly its string, knows what the writer commits, and the committed dictionaries again have
  unique, consecutive identities, at most 4096 entries of at most 1024 bytes and 1 MiB in all.\<close>

theorem intern_lossless:
  assumes "interned_ok d" "knows t (\<lambda>k. ids (d k))" "list_all reference_fits rs"
    and "refer_all rs (new_pending d) = (ps, ms)"
  shows "interned_ok (commit ps) \<and> knows (learn (pending ps) t) (\<lambda>k. ids (commit ps k))
    \<and> list_all2 (\<lambda>(i, s, k, v) m. \<exists>f. read_message m = Some [f]
        \<and> resolve (learn (pending ps) t) i s k f = Some (octets v)) rs ms"
proof -
  note run = refer_all_ok [OF assms(4) new_pending_ok [OF assms(1)] new_reader_ok [OF assms(2)]]
  then have knows: "knows (learn (pending ps) t) (entries ps)" by (intro reader_ok_learn) blast
  have "list_all2 (\<lambda>(i, s, k, v) m. \<exists>f. read_message m = Some [f]
        \<and> resolve (learn (pending ps) t) i s k f = Some (octets v)) rs ms"
    unfolding list_all2_conv_all_nth
  proof (intro conjI allI impI)
    show "length rs = length ms" using run by (auto dest: list_all2_lengthD)
    fix n assume n: "n < length rs"
    obtain i s k v where r: "rs ! n = (i, s, k, v)" by (metis prod.exhaust)
    have "denotes (entries ps) (rs ! n) (ms ! n)" using run n by (auto dest: list_all2_nthD)
    moreover have "reference_fits (rs ! n)" using assms(3) n by (simp add: list_all_length)
    ultimately show "(case rs ! n of (i, s, k, v) \<Rightarrow> \<lambda>m. \<exists>f. read_message m = Some [f]
        \<and> resolve (learn (pending ps) t) i s k f = Some (octets v)) (ms ! n)"
      using denotes_resolves [OF _ knows] unfolding r by simp
  qed
  with run knows commit_ok commit_knows show ?thesis by blast
qed

lemma no_strings_ok: "interned_ok no_strings"
  by (simp add: interned_ok_def no_strings_def entries_ok_def)

theorem intern_lossless_witness:
  "list_all2 (\<lambda>(i, s, k, v) m. \<exists>f. read_message m = Some [f]
      \<and> resolve (learn [18, 9, 8, 1, 18, 5, 115, 116, 97, 108, 108] (\<lambda>_ _. None)) i s k f = Some (octets v))
    [(10, 23, Name, ''stall''), (10, 23, Name, ''stall'')] [[80, 1], [80, 1]]"
proof -
  let ?rs = "[(10, 23, Name, ''stall''), (10, 23, Name, ''stall'')]"
  let ?ps = "fst (refer_all ?rs (new_pending no_strings))"
  have bytes: "integer 10 1 = [80, 1]"
    "bytes_field 2 (intern_entry 1 ''stall'') = [18, 9, 8, 1, 18, 5, 115, 116, 97, 108, 108]" by code_simp+
  have run: "refer_all ?rs (new_pending no_strings) = (?ps, [[80, 1], [80, 1]])"
    and sent: "pending ?ps = [18, 9, 8, 1, 18, 5, 115, 116, 97, 108, 108]"
    by (simp_all add: reference_def new_pending_def no_strings_def Let_def bytes)
  have k: "knows (\<lambda>_ _. None) (\<lambda>k. ids (no_strings k))" by (simp add: knows_def no_strings_def)
  have f: "list_all reference_fits ?rs" by (simp add: reference_fits_def)
  from intern_lossless [OF no_strings_ok k f run] show ?thesis unfolding sent by blast
qed

end
