(* ===== verification/Perfetto_Riscv.thy ===== *)
theory Perfetto_Riscv
  imports Perfetto_Intern
begin

unbundle bit_operations_syntax

text \<open>
  The exceptions of the exporter, and its rendering of instruction captures: disassembly by Spike,
  which is not in the repository and is an argument here, resolution of a \<open>pc +/- offset\<close> operand,
  whitespace normalisation, and the bounded cache in front of it.
\<close>

section \<open>Exceptions\<close>

datatype export_error =
    Collector rheg_error
  | Expected_decimal
  | Integer_overflow
  | Expected_unsigned
  | Integer_out_of_range
  | Nesting_limit
  | Duplicate_key
  | Input_read_failed
  | Json_rejected                   \<comment> \<open>an exception of the JSON library\<close>
  | Unsupported_format
  | Invalid_site_table
  | Bad_site_identity
  | Unsupported_event_kind
  | Stall_needs_observation
  | Inconsistent_schema
  | Fields_not_array
  | Symbols_not_array
  | Symbols_need_enum
  | Stall_observes_transfer
  | Dependencies_not_array
  | Unknown_dependency_site
  | Stall_lineage
  | Invalid_reference
  | Unsupported_origin
  | Occurrences_not_arrays
  | Invalid_payload_words
  | Requires_timing
  | Frequency_required
  | Descriptor_differs
  | Unsupported_compression
  | Gzip_failed
  | Output_failed_before
  | Output_write_failed
  | Batch_too_large
  | Timestamp_overflow
  | Already_finished
  | Watermark_must_increase
  | Duplicate_or_unknown_node
  | Shared_track_conflict
  | Outside_unfinished_interval
  | Incomplete_or_wrong_width
  | Incomplete_payload
  | Missing_word
  | Payload_padding
  | Missing_endpoint
  | Edge_forbidden
  | Parent_occurs_later
  | Cyclic_dependencies
  | Flow_exhausted
  | Spike_rejected
  | No_decoder
  | No_pc_field
  | Bad_numeral
  | Numeral_overflow

definition collector :: "rheg_error + 'a \<Rightarrow> export_error + 'a" where
  "collector r = map_sum Collector id r"

lemma collector_simps [simp]: "collector (Inl e) = Inl (Collector e)" "collector (Inr a) = Inr a"
  by (simp_all add: collector_def)

lemma collector_eq_Inr [simp]: "collector r = Inr a \<longleftrightarrow> r = Inr a"
  by (cases r) simp_all

section \<open>Strings\<close>

text \<open>\<open>find\<close>: the first position of a substring.\<close>

fun find_substring :: "string \<Rightarrow> string \<Rightarrow> nat option" where
  "find_substring pat [] = (if pat = [] then Some 0 else None)"
| "find_substring pat (c # s) =
     (if take (length pat) (c # s) = pat then Some 0 else map_option Suc (find_substring pat s))"

definition is_space :: "char \<Rightarrow> bool" where
  "is_space c \<longleftrightarrow> c = CHR 0x20 \<or> c \<in> {CHR 0x09, CHR 0x0A, CHR 0x0B, CHR 0x0C, CHR 0x0D}"

text \<open>The words \<open>operator>>\<close> reads, and their concatenation with single blanks.\<close>

function split_words :: "string \<Rightarrow> string list" where
  "split_words s =
     (case dropWhile is_space s of [] \<Rightarrow> []
      | c # cs \<Rightarrow> takeWhile (\<lambda>c. \<not> is_space c) (c # cs) # split_words (dropWhile (\<lambda>c. \<not> is_space c) (c # cs)))"
  by pat_completeness auto
termination
proof (relation "measure length")
  fix s c cs assume d: "dropWhile is_space s = c # cs"
  then have "\<not> is_space c" using hd_dropWhile [of is_space s] by simp
  then have "length (dropWhile (\<lambda>c. \<not> is_space c) (c # cs)) \<le> length cs"
    by (simp add: length_dropWhile_le)
  moreover have "length (c # cs) \<le> length s" unfolding d [symmetric] by (rule length_dropWhile_le)
  ultimately show "(dropWhile (\<lambda>c. \<not> is_space c) (c # cs), s) \<in> measure length" by simp
qed simp

declare split_words.simps [simp del]

fun join_words :: "string list \<Rightarrow> string" where
  "join_words [] = []"
| "join_words [w] = w"
| "join_words (w # ws) = w @ '' '' @ join_words ws"

definition digit_value :: "char \<Rightarrow> nat option" where
  "digit_value c = (let n = of_char c :: nat in
     if 48 \<le> n \<and> n \<le> 57 then Some (n - 48)
     else if 97 \<le> n \<and> n \<le> 102 then Some (n - 87)
     else if 65 \<le> n \<and> n \<le> 70 then Some (n - 55)
     else None)"

fun leading_digits :: "nat \<Rightarrow> string \<Rightarrow> nat list" where
  "leading_digits base [] = []"
| "leading_digits base (c # s) =
     (case digit_value c of Some d \<Rightarrow> if d < base then d # leading_digits base s else [] | None \<Rightarrow> [])"

text \<open>\<open>std::stoull(s, nullptr, 0)\<close>: blanks, a sign, and a base chosen by the prefix.\<close>

definition numeral_base :: "string \<Rightarrow> nat \<times> string" where
  "numeral_base s = (case s of
     z # x # d # rest \<Rightarrow>
       if z = CHR ''0'' \<and> (x = CHR ''x'' \<or> x = CHR ''X'') \<and> leading_digits 16 [d] \<noteq> [] then (16, d # rest)
       else (if z = CHR ''0'' then 8 else 10, s)
   | z # rest \<Rightarrow> (if z = CHR ''0'' then 8 else 10, s)
   | [] \<Rightarrow> (10, s))"

definition stoull :: "string \<Rightarrow> export_error + u64" where
  "stoull s =
     (let s = dropWhile is_space s;
          (negative, s) = (case s of c # r \<Rightarrow>
            if c = CHR ''-'' then (True, r) else if c = CHR ''+'' then (False, r) else (False, s)
            | [] \<Rightarrow> (False, s));
          (base, s) = numeral_base s;
          ds = leading_digits base s;
          n = fold (\<lambda>d n. n * base + d) ds 0
      in if ds = [] then Inl Bad_numeral
         else if int n \<ge> 2 ^ 64 then Inl Numeral_overflow
         else Inr (if negative then - of_nat n else of_nat n))"

text \<open>\<open>std::hex\<close> output of an unsigned number.\<close>

fun hex_text :: "nat \<Rightarrow> string" where
  "hex_text n = (if n < 16 then [hex_digit n] else hex_text (n div 16) @ [hex_digit (n mod 16)])"

declare hex_text.simps [simp del]

section \<open>Rendering\<close>

record spike =
  make_decoder :: "string \<Rightarrow> (u32 \<Rightarrow> string) option"   \<comment> \<open>\<open>isa_parser_t\<close> may reject the name\<close>
  insn_length :: "u32 \<Rightarrow> nat"

type_synonym cache_key = "string \<times> u64 \<times> u32 \<times> u32"

record riscv_formatting =
  decoders :: "(string \<times> (u32 \<Rightarrow> string)) list"
  render_cache :: "(cache_key \<times> string) list"

definition new_formatting :: riscv_formatting where
  "new_formatting = \<lparr>decoders = [], render_cache = []\<rparr>"

definition prepare :: "spike \<Rightarrow> string \<Rightarrow> riscv_formatting \<Rightarrow> export_error + riscv_formatting" where
  "prepare sp isa_name r =
     (if om_has (decoders r) isa_name then Inr r
      else case make_decoder sp isa_name of
        None \<Rightarrow> Inl Spike_rejected
      | Some d \<Rightarrow> Inr (r\<lparr>decoders := om_put isa_name d (decoders r)\<rparr>))"

text \<open>A branch or jump target as an address; what precedes the operand is kept.\<close>

definition resolve_target :: "string \<Rightarrow> u64 \<Rightarrow> string \<Rightarrow> export_error + string" where
  "resolve_target isa_name pc_value s =
     (case (case find_substring ''pc + '' s of Some p \<Rightarrow> Some p | None \<Rightarrow> find_substring ''pc - '' s) of
        None \<Rightarrow> Inr s
      | Some p \<Rightarrow>
          bind_result (stoull (drop (p + 5) s)) (\<lambda>delta.
            let target = (if s ! (p + 3) = CHR ''-'' then pc_value - delta else pc_value + delta);
                target = (if take 4 isa_name = ''rv32'' then target AND 0xFFFFFFFF else target)
            in Inr (take p s @ ''0x'' @ hex_text (unat target))))"

definition disassembly :: "spike \<Rightarrow> riscv_formatting \<Rightarrow> field \<Rightarrow> u32 \<Rightarrow> export_error + string" where
  "disassembly sp r f bits =
     (if (insn_length sp bits = 2 \<and> drop_bit 16 bits = 0) \<or> (insn_length sp bits = 4 \<and> fwidth f = 32)
      then (case om_find (decoders r) (isa f) of None \<Rightarrow> Inl No_decoder | Some d \<Rightarrow> Inr (d bits))
      else Inr ''unknown'')"

definition render_fresh :: "spike \<Rightarrow> riscv_formatting \<Rightarrow> field \<Rightarrow> field_value \<Rightarrow> u64 \<Rightarrow> u32 \<Rightarrow> export_error + string" where
  "render_fresh sp r f value pc_value bits =
     bind_result (disassembly sp r f bits) (\<lambda>s.
       if s = ''unknown'' then collector (fv_hex value)
       else bind_result (resolve_target (isa f) pc_value s) (\<lambda>s. Inr (join_words (split_words s))))"

definition render_inputs :: "field \<Rightarrow> node \<Rightarrow> field list \<Rightarrow> export_error + field_value \<times> u64 \<times> u32" where
  "render_inputs f n fs =
     bind_result (collector (capture_field n f)) (\<lambda>value.
     bind_result (collector (unsigned_value value)) (\<lambda>u.
       case List.find (\<lambda>g. fname g = pc f) fs of
         None \<Rightarrow> Inl No_pc_field
       | Some g \<Rightarrow>
           bind_result (collector (capture_field n g)) (\<lambda>pv.
           bind_result (collector (unsigned_value pv)) (\<lambda>pc_value.
             Inr (value, pc_value, ucast u)))))"

definition render :: "spike \<Rightarrow> field \<Rightarrow> node \<Rightarrow> field list \<Rightarrow> riscv_formatting \<Rightarrow> riscv_formatting \<times> (export_error + string)" where
  "render sp f n fs r =
     (case render_inputs f n fs of
        Inl e \<Rightarrow> (r, Inl e)
      | Inr (value, pc_value, bits) \<Rightarrow>
          let key = (isa f, pc_value, bits, fwidth f)
          in case om_find (render_cache r) key of
               Some s \<Rightarrow> (r, Inr s)
             | None \<Rightarrow> (case render_fresh sp r f value pc_value bits of
                 Inl e \<Rightarrow> (r, Inl e)
               | Inr s \<Rightarrow>
                   let kept = (if length (render_cache r) \<ge> 4096 then [] else render_cache r)
                   in (r\<lparr>render_cache := om_put key s kept\<rparr>, Inr s)))"

section \<open>The cache is transparent\<close>

text \<open>Rendering without a cache, and what an entry of the cache must hold.\<close>

definition render_uncached :: "spike \<Rightarrow> riscv_formatting \<Rightarrow> field \<times> node \<times> field list \<Rightarrow> export_error + string" where
  "render_uncached sp r x = (case x of (f, n, fs) \<Rightarrow>
     bind_result (render_inputs f n fs) (\<lambda>(value, pc_value, bits). render_fresh sp r f value pc_value bits))"

definition key_field :: "cache_key \<Rightarrow> field" where
  "key_field k = (case k of (i, p, b, w) \<Rightarrow> \<lparr>fname = [], fwidth = w, foffset = 0, encoding = [], isa = i,
     pc = [], symbols = [], label = False\<rparr>)"

lemma key_field_simps [simp]: "isa (key_field (i, p, b, w)) = i" "fwidth (key_field (i, p, b, w)) = w"
  by (simp_all add: key_field_def)

definition key_text :: "spike \<Rightarrow> riscv_formatting \<Rightarrow> cache_key \<Rightarrow> export_error + string" where
  "key_text sp r k = (case k of (i, p, b, w) \<Rightarrow>
     render_fresh sp r (key_field k) \<lparr>fv_width = w, fv_encoding = [], fv_words = [b]\<rparr> p b)"

definition cache_ok :: "spike \<Rightarrow> riscv_formatting \<Rightarrow> bool" where
  "cache_ok sp r \<longleftrightarrow> om_wf (render_cache r) \<and> length (render_cache r) \<le> 4096
     \<and> (\<forall>(k, s) \<in> set (render_cache r). key_text sp r k = Inr s)"

lemma narrow_capture:
  assumes "capture_field n f = Inr v" "fwidth f \<le> 32"
  shows "\<exists>x. fv_words v = [x] \<and> fv_width v = fwidth f"
proof -
  let ?w = "unat (fwidth f)"
  have w: "fwidth f \<noteq> 0" and ws: "capture_words n (unat (foffset f)) ?w 0 = Inr (fv_words v)" "fv_width v = fwidth f"
    using assms(1) by (auto simp: capture_field_def split: if_splits)
  have "0 < ?w" "?w \<le> 32" using w assms(2) by (auto simp: unat_gt_0 word_le_unat_iff)
  then show ?thesis
    using ws by (auto simp: capture_words.simps [of n "unat (foffset f)" ?w 0]
        capture_words.simps [of n "unat (foffset f)" ?w 32] dest: sym)
qed

lemma fv_hex_cong:
  assumes "fv_width v = fv_width w" "fv_words v = fv_words w"
  shows "fv_hex v = fv_hex w"
proof -
  have "hex_digits v d = hex_digits w d" for d by (induction d) (simp_all add: fv_at_def assms)
  then show ?thesis by (simp add: fv_hex_def assms)
qed

lemma narrow_unsigned: "fv_words v = [x] \<Longrightarrow> fv_width v \<le> 32 \<Longrightarrow> unsigned_value v = Inr (ucast x)"
  by (auto simp: unsigned_value_def fv_at_def word_le_unat_iff word_less_unat_iff)

lemma fresh_key_text:
  assumes "render_inputs f n fs = Inr (v, p, bits)" "fwidth f \<le> 32"
  shows "render_fresh sp r f v p bits = key_text sp r (isa f, p, bits, fwidth f)"
proof -
  obtain u where c: "capture_field n f = Inr v" and u: "unsigned_value v = Inr u" "bits = ucast u"
    using assms(1) by (auto simp: render_inputs_def collector_def map_sum_def split: sum.splits option.splits)
  obtain x where x: "fv_words v = [x]" "fv_width v = fwidth f"
    using narrow_capture [OF c assms(2)] by blast
  have "bits = x" using narrow_unsigned [OF x(1)] x(2) assms(2) u
    by (auto simp: bit_eq_iff bit_simps dest: bit_imp_le_length)
  then have "fv_hex v = fv_hex \<lparr>fv_width = fwidth f, fv_encoding = [], fv_words = [bits]\<rparr>"
    using x by (intro fv_hex_cong) simp_all
  moreover have "disassembly sp r (key_field (isa f, p, bits, fwidth f)) bits = disassembly sp r f bits"
    by (simp add: disassembly_def)
  ultimately show ?thesis by (simp add: key_text_def render_fresh_def cong: if_cong)
qed

lemma length_om_put: "length (om_put k v m) \<le> length m + 1"
  by (induction k v m rule: om_put.induct) auto

lemma disassembly_cache [simp]: "disassembly sp (r\<lparr>render_cache := c\<rparr>) = disassembly sp r"
  by (intro ext) (simp add: disassembly_def)

lemma key_text_cache [simp]: "key_text sp (r\<lparr>render_cache := c\<rparr>) k = key_text sp r k"
  by (cases k) (simp add: key_text_def render_fresh_def cong: if_cong)

lemma render_transparent:
  assumes ok: "cache_ok sp r" and narrow: "fwidth f \<le> 32" and run: "render sp f n fs r = (r', res)"
  shows "res = render_uncached sp r (f, n, fs) \<and> cache_ok sp r' \<and> (\<exists>c. r' = r\<lparr>render_cache := c\<rparr>)"
proof (cases "render_inputs f n fs")
  case (Inl e)
  with run ok show ?thesis
    by (auto simp: render_def render_uncached_def intro: exI [of _ "render_cache r"])
next
  case (Inr i)
  obtain v p bits where i: "i = (v, p, bits)" by (metis prod.exhaust)
  let ?k = "(isa f, p, bits, fwidth f)"
  have un: "render_uncached sp r (f, n, fs) = key_text sp r ?k"
    using fresh_key_text [OF Inr [unfolded i] narrow] by (simp add: render_uncached_def Inr i)
  show ?thesis
  proof (cases "om_find (render_cache r) ?k")
    case (Some s)
    then have "key_text sp r ?k = Inr s" using ok by (auto simp: cache_ok_def dest: om_find_in)
    with run un ok Some show ?thesis
      by (auto simp: render_def Inr i intro: exI [of _ "render_cache r"])
  next
    case None
    note fresh = fresh_key_text [OF Inr [unfolded i] narrow, of sp r]
    show ?thesis
    proof (cases "key_text sp r ?k")
      case (Inl e)
      with run un ok None fresh \<open>render_inputs f n fs = Inr i\<close> show ?thesis
        by (auto simp: render_def i intro: exI [of _ "render_cache r"])
    next
      case shown: (Inr s)
      define kept where "kept = (if length (render_cache r) \<ge> 4096 then [] else render_cache r)"
      have r': "r' = r\<lparr>render_cache := om_put ?k s kept\<rparr>" "res = Inr s"
        using run None fresh shown \<open>render_inputs f n fs = Inr i\<close> by (auto simp: render_def i Let_def kept_def)
      have kept: "om_wf kept" "length kept < 4096" "\<forall>(k, s) \<in> set kept. key_text sp r k = Inr s"
        using ok by (auto simp: kept_def cache_ok_def)
      have "length (om_put ?k s kept) \<le> 4096" using length_om_put [of ?k s kept] kept(2) by linarith
      moreover have "\<forall>(k, t) \<in> set (om_put ?k s kept). key_text sp r k = Inr t"
        using set_om_put [of ?k s kept] kept(3) shown by blast
      ultimately have "cache_ok sp r'" using kept(1) by (simp add: cache_ok_def r' om_wf_put)
      with un shown r' show ?thesis by auto
    qed
  qed
qed

fun render_all :: "spike \<Rightarrow> (field \<times> node \<times> field list) list \<Rightarrow> riscv_formatting \<Rightarrow> riscv_formatting \<times> (export_error + string) list" where
  "render_all sp [] r = (r, [])"
| "render_all sp ((f, n, fs) # xs) r =
     (case render sp f n fs r of (r, s) \<Rightarrow> case render_all sp xs r of (r, ss) \<Rightarrow> (r, s # ss))"

lemma render_all_transparent:
  "cache_ok sp r \<Longrightarrow> list_all (\<lambda>(f, n, fs). fwidth f \<le> 32) xs \<Longrightarrow> render_all sp xs r = (r', ss) \<Longrightarrow>
    ss = map (render_uncached sp r) xs \<and> length (render_cache r') \<le> 4096"
proof (induction xs arbitrary: r ss)
  case (Cons x xs)
  obtain f n fs where x: "x = (f, n, fs)" by (metis prod.exhaust)
  obtain r1 s where r1: "render sp f n fs r = (r1, s)" by (metis prod.exhaust)
  obtain ss' where rest: "render_all sp xs r1 = (r', ss')" "ss = s # ss'"
    using Cons.prems(3) by (auto simp: x r1 split: prod.splits)
  have "fwidth f \<le> 32" using Cons.prems(2) by (simp add: x)
  note step = render_transparent [OF Cons.prems(1) this r1]
  then obtain c where "r1 = r\<lparr>render_cache := c\<rparr>" by blast
  then have "render_uncached sp r1 = render_uncached sp r"
    by (auto simp: fun_eq_iff render_uncached_def render_fresh_def)
  with Cons.IH [of r1 ss'] step rest Cons.prems(2) show ?case by (simp add: x)
qed (simp add: cache_ok_def)

section \<open>Properties\<close>

text \<open>C30: the instruction cache never changes what is shown: any sequence of renderings from an empty
  cache, evictions included, gives each instruction the text it has without a cache, failures too,
  and the cache never holds more than 4096 texts.\<close>

theorem riscv_cache_transparent:
  assumes "list_all (\<lambda>(f, n, fs). fwidth f \<le> 32) xs" "render_cache r = []"
  shows "snd (render_all sp xs r) = map (render_uncached sp r) xs
    \<and> length (render_cache (fst (render_all sp xs r))) \<le> 4096"
proof -
  have "cache_ok sp r" using assms(2) by (simp add: cache_ok_def)
  from render_all_transparent [OF this assms(1) prod.collapse [symmetric]] show ?thesis by simp
qed

definition example_spike :: spike where
  "example_spike = \<lparr>make_decoder = (\<lambda>_. Some (\<lambda>b. ''jal   pc + 0x8'')), insn_length = (\<lambda>_. 4)\<rparr>"

definition example_instruction :: "field \<times> node \<times> field list" where
  "example_instruction =
     (let i = \<lparr>fname = ''i'', fwidth = 32, foffset = 0, encoding = ''riscv'', isa = ''rv32i'', pc = ''p'',
            symbols = [], label = False\<rparr>;
          p = \<lparr>fname = ''p'', fwidth = 32, foffset = 32, encoding = ''hex'', isa = [], pc = [],
            symbols = [], label = False\<rparr>
      in (i, \<lparr>present = True, cycle = 0, width = 64, words = [(0, 0x6F), (1, 0xFFFFFFFC)]\<rparr>, [p, i]))"

theorem riscv_cache_transparent_witness:
  "snd (render_all example_spike [example_instruction, example_instruction]
      \<lparr>decoders = [(''rv32i'', \<lambda>b. ''jal   pc + 0x8'')], render_cache = []\<rparr>)
    = [Inr ''jal 0x4'', Inr ''jal 0x4'']"
proof -
  let ?r = "\<lparr>decoders = [(''rv32i'', \<lambda>b. ''jal   pc + 0x8'')], render_cache = []\<rparr> :: riscv_formatting"
  have "render_uncached example_spike ?r example_instruction = Inr ''jal 0x4''" by code_simp
  moreover have "list_all (\<lambda>(f, n, fs). fwidth f \<le> 32) [example_instruction, example_instruction]" by code_simp
  ultimately show ?thesis
    using riscv_cache_transparent [of "[example_instruction, example_instruction]" ?r example_spike] by simp
qed

end
