(* ===== verification/Perfetto_Describe.thy ===== *)
theory Perfetto_Describe
  imports Perfetto_Riscv
begin

text \<open>
  Reading the manifest JSON (\<open>number\<close>, \<open>parse\<close>, \<open>format\<close>, \<open>describe\<close>). The JSON library is not in
  the repository: it is the argument \<open>api\<close>, a record of the accessors the code calls on values of
  an arbitrary type \<open>'j\<close>. What a description that was accepted satisfies is proved for every such
  library.
\<close>

section \<open>The JSON library\<close>

datatype parse_event = Object_start | Object_end | Member_key string | Other_event

text \<open>
  \<open>object_member j k\<close> is \<open>None\<close> when \<open>j\<close> is not an object, and \<open>Some None\<close> when it has no member
  \<open>k\<close>; \<open>integer_value\<close> covers signed and unsigned integers. \<open>parse_json\<close> gives the events reported
  to the callback, with their depths, and the value unless the text is rejected.
\<close>

record 'j json_api =
  object_member :: "'j \<Rightarrow> string \<Rightarrow> 'j option option"
  array_elements :: "'j \<Rightarrow> 'j list option"
  string_value :: "'j \<Rightarrow> string option"
  integer_value :: "'j \<Rightarrow> int option"
  boolean_value :: "'j \<Rightarrow> bool option"
  dump :: "'j \<Rightarrow> string"
  parse_json :: "string \<Rightarrow> (nat \<times> parse_event) list \<times> 'j option"

definition at_member :: "'j json_api \<Rightarrow> 'j \<Rightarrow> string \<Rightarrow> export_error + 'j" where
  "at_member api j k = (case object_member api j k of Some (Some v) \<Rightarrow> Inr v | _ \<Rightarrow> Inl Json_rejected)"

definition contains :: "'j json_api \<Rightarrow> 'j \<Rightarrow> string \<Rightarrow> bool" where
  "contains api j k \<longleftrightarrow> (case object_member api j k of Some (Some _) \<Rightarrow> True | _ \<Rightarrow> False)"

definition get_string :: "'j json_api \<Rightarrow> 'j \<Rightarrow> export_error + string" where
  "get_string api j = (case string_value api j of Some s \<Rightarrow> Inr s | None \<Rightarrow> Inl Json_rejected)"

definition string_at :: "'j json_api \<Rightarrow> 'j \<Rightarrow> string \<Rightarrow> export_error + string" where
  "string_at api j k = bind_result (at_member api j k) (get_string api)"

text \<open>\<open>value(key, default)\<close>.\<close>

definition string_or :: "'j json_api \<Rightarrow> 'j \<Rightarrow> string \<Rightarrow> string \<Rightarrow> export_error + string" where
  "string_or api j k d = (case object_member api j k of
     None \<Rightarrow> Inl Json_rejected | Some None \<Rightarrow> Inr d | Some (Some v) \<Rightarrow> get_string api v)"

definition bool_or :: "'j json_api \<Rightarrow> 'j \<Rightarrow> string \<Rightarrow> bool \<Rightarrow> export_error + bool" where
  "bool_or api j k d = (case object_member api j k of
     None \<Rightarrow> Inl Json_rejected | Some None \<Rightarrow> Inr d
   | Some (Some v) \<Rightarrow> (case boolean_value api v of Some b \<Rightarrow> Inr b | None \<Rightarrow> Inl Json_rejected))"

section \<open>Scalars\<close>

definition digits_value :: "string \<Rightarrow> nat" where
  "digits_value s = fold (\<lambda>c n. n * 10 + (char_code c - 48)) s 0"

definition number :: "'j json_api \<Rightarrow> 'j \<Rightarrow> u64 \<Rightarrow> export_error + u64" where
  "number api j maximum =
     bind_result
       (case string_value api j of
          Some s \<Rightarrow>
            if s = [] \<or> \<not> list_all digit s then Inl Expected_decimal
            else if int (digits_value s) \<ge> 2 ^ 64 then Inl Integer_overflow
            else Inr (of_nat (digits_value s))
        | None \<Rightarrow> (case integer_value api j of
            None \<Rightarrow> Inl Expected_unsigned
          | Some n \<Rightarrow> if n \<ge> 0 then Inr (of_int n) else Inl Expected_unsigned)) (\<lambda>result.
     if result \<le> maximum then Inr result else Inl Integer_out_of_range)"

definition uint32_max :: u64 where
  "uint32_max = 0xFFFFFFFF"

definition number32 :: "'j json_api \<Rightarrow> 'j \<Rightarrow> export_error + u32" where
  "number32 api j = bind_result (number api j uint32_max) (\<lambda>n. Inr (ucast n))"

definition number32_at :: "'j json_api \<Rightarrow> 'j \<Rightarrow> string \<Rightarrow> export_error + u32" where
  "number32_at api j k = bind_result (at_member api j k) (number32 api)"

definition number_at :: "'j json_api \<Rightarrow> 'j \<Rightarrow> string \<Rightarrow> export_error + u64" where
  "number_at api j k = bind_result (at_member api j k) (\<lambda>v. number api v (- 1))"

text \<open>The parse callback: the stack of the keys of the open objects.\<close>

fun check_events :: "string list list \<Rightarrow> (nat \<times> parse_event) list \<Rightarrow> export_error + unit" where
  "check_events keys [] = Inr ()"
| "check_events keys ((depth, e) # es) =
     (if depth \<ge> 256 then Inl Nesting_limit
      else case e of
        Object_start \<Rightarrow> check_events ([] # keys) es
      | Object_end \<Rightarrow> check_events (tl keys) es
      | Member_key k \<Rightarrow>
          (if k \<in> set (hd keys) then Inl Duplicate_key
           else check_events ((k # hd keys) # tl keys) es)
      | Other_event \<Rightarrow> check_events keys es)"

definition parse :: "'j json_api \<Rightarrow> string \<Rightarrow> bool \<Rightarrow> export_error + 'j" where
  "parse api input input_bad =
     bind_result (check_events [] (fst (parse_json api input))) (\<lambda>_.
       case snd (parse_json api input) of
         None \<Rightarrow> Inl Json_rejected
       | Some j \<Rightarrow> if input_bad then Inl Input_read_failed else Inr j)"

definition format :: "'j json_api \<Rightarrow> 'j \<Rightarrow> string \<Rightarrow> export_error + unit" where
  "format api j name =
     bind_result (at_member api j ''format'') (\<lambda>f.
       if string_value api f \<noteq> Some name then Inl Unsupported_format
       else bind_result (number_at api j ''version'') (\<lambda>v.
         if v = 1 then Inr () else Inl Unsupported_format))"

section \<open>Descriptions\<close>

record site_info =
  site_id :: string
  site_label :: string
  site_source :: string
  site_kind :: string
  observation_of :: string

record description =
  dmanifest :: manifest
  top :: string
  sites :: "site_info list"
  track_sites :: "u32 list"
  shared_tracks :: "bool list"

text \<open>A loop over JSON elements that collects a result for each.\<close>

fun collect :: "('a \<Rightarrow> export_error + 'b) \<Rightarrow> 'a list \<Rightarrow> export_error + 'b list" where
  "collect f [] = Inr []"
| "collect f (x # xs) = bind_result (f x) (\<lambda>y. bind_result (collect f xs) (\<lambda>ys. Inr (y # ys)))"

definition elements_or :: "'j json_api \<Rightarrow> export_error \<Rightarrow> 'j \<Rightarrow> export_error + 'j list" where
  "elements_or api e j = (case array_elements api j of None \<Rightarrow> Inl e | Some js \<Rightarrow> Inr js)"

definition read_symbol :: "'j json_api \<Rightarrow> 'j \<Rightarrow> export_error + u64 \<times> string" where
  "read_symbol api j =
     bind_result (number_at api j ''value'') (\<lambda>v.
     bind_result (string_at api j ''name'') (\<lambda>s. Inr (v, s)))"

definition read_field_info :: "'j json_api \<Rightarrow> 'j \<Rightarrow> export_error + field" where
  "read_field_info api j =
     bind_result (string_at api j ''name'') (\<lambda>n.
     bind_result (number32_at api j ''width'') (\<lambda>w.
     bind_result (number32_at api j ''offset'') (\<lambda>off.
     bind_result (string_at api j ''encoding'') (\<lambda>enc.
     bind_result (string_or api j ''isa'' []) (\<lambda>i.
     bind_result (string_or api j ''pc'' []) (\<lambda>p.
     bind_result (bool_or api j ''label'' False) (\<lambda>l.
     bind_result
       (if contains api j ''symbols'' then
          bind_result (at_member api j ''symbols'') (\<lambda>syms.
          bind_result (elements_or api Symbols_not_array syms) (\<lambda>syms.
            if enc \<noteq> ''enum'' then Inl Symbols_need_enum else collect (read_symbol api) syms))
        else Inr []) (\<lambda>syms.
       Inr \<lparr>fname = n, fwidth = w, foffset = off, encoding = enc, isa = i, pc = p,
         symbols = syms, label = l\<rparr>))))))))"

definition read_width :: "'j json_api \<Rightarrow> 'j \<Rightarrow> export_error + u32" where
  "read_width api j =
     bind_result (at_member api j ''payload_width'') (\<lambda>w.
       if boolean_value api w = Some False then Inr 0 else number32 api w)"

text \<open>One site: its identity must be new among \<open>taken\<close>.\<close>

definition read_site :: "'j json_api \<Rightarrow> bool \<Rightarrow> string list \<Rightarrow> 'j \<Rightarrow> export_error + site_info \<times> u32 \<times> field list" where
  "read_site api named taken j =
     bind_result (string_at api j ''id'') (\<lambda>i.
     if i = [] \<or> i \<in> set taken then Inl Bad_site_identity
     else
       bind_result (string_or api j ''label'' i) (\<lambda>l.
       bind_result (string_or api j ''source_location'' ''<unknown>'') (\<lambda>src.
       bind_result (string_or api j ''kind'' ''transfer'') (\<lambda>k.
       bind_result (string_or api j ''observation_of'' []) (\<lambda>obs.
       if k \<noteq> ''transfer'' \<and> k \<noteq> ''stall'' then Inl Unsupported_event_kind
       else if (k = ''stall'') \<noteq> (obs \<noteq> []) then Inl Stall_needs_observation
       else
         bind_result (read_width api j) (\<lambda>w.
         if contains api j ''fields'' \<noteq> named then Inl Inconsistent_schema
         else
           bind_result
             (if named then
                bind_result (at_member api j ''fields'') (\<lambda>fs.
                bind_result (elements_or api Fields_not_array fs) (collect (read_field_info api)))
              else Inr []) (\<lambda>fs.
           Inr (\<lparr>site_id = i, site_label = l, site_source = src, site_kind = k, observation_of = obs\<rparr>, w, fs))))))))"

fun read_sites :: "'j json_api \<Rightarrow> bool \<Rightarrow> string list \<Rightarrow> 'j list \<Rightarrow> export_error + (site_info \<times> u32 \<times> field list) list" where
  "read_sites api named taken [] = Inr []"
| "read_sites api named taken (j # js) =
     bind_result (read_site api named taken j) (\<lambda>s.
     bind_result (read_sites api named (site_id (fst s) # taken) js) (\<lambda>ss. Inr (s # ss)))"

text \<open>\<open>ids.find\<close>: the index a site was given.\<close>

fun site_index :: "site_info list \<Rightarrow> string \<Rightarrow> nat option" where
  "site_index [] i = None"
| "site_index (s # ss) i = (if site_id s = i then Some 0 else map_option Suc (site_index ss i))"

fun read_tracks :: "site_info list \<Rightarrow> nat \<Rightarrow> site_info list \<Rightarrow> bool list \<Rightarrow> export_error + u32 list \<times> bool list" where
  "read_tracks all i [] shared = Inr ([], shared)"
| "read_tracks all i (s # ss) shared =
     (if site_kind s = ''stall'' then
        (case site_index all (observation_of s) of
           None \<Rightarrow> Inl Stall_observes_transfer
         | Some p \<Rightarrow>
             if site_kind (all ! p) \<noteq> ''transfer'' then Inl Stall_observes_transfer
             else bind_result (read_tracks all (Suc i) ss (shared[p := True]))
               (\<lambda>(tracks, shared). Inr (of_nat p # tracks, shared)))
      else bind_result (read_tracks all (Suc i) ss shared) (\<lambda>(tracks, shared). Inr (of_nat i # tracks, shared)))"

fun read_dependencies :: "'j json_api \<Rightarrow> site_info list \<Rightarrow> 'j list \<Rightarrow> (u32 \<times> u32) list \<Rightarrow> export_error + (u32 \<times> u32) list" where
  "read_dependencies api all [] deps = Inr deps"
| "read_dependencies api all (j # js) deps =
     bind_result (string_at api j ''parent'') (\<lambda>p.
     bind_result (string_at api j ''child'') (\<lambda>c.
     case (site_index all p, site_index all c) of
       (Some p, Some c) \<Rightarrow>
         if site_kind (all ! p) = ''stall'' then Inl Stall_lineage
         else read_dependencies api all js (os_insert (of_nat p, of_nat c) deps)
     | _ \<Rightarrow> Inl Unknown_dependency_site))"

text \<open>The loop over the site table, and the capture schema it collects.\<close>

definition read_manifest :: "'j json_api \<Rightarrow> string \<Rightarrow> 'j list \<Rightarrow> export_error + site_info list \<times> manifest" where
  "read_manifest api text sj =
     (let named = contains api (hd sj) ''fields'' in
       bind_result (read_sites api named [] sj) (\<lambda>ss.
       let m = \<lparr>mjson = text, payload_widths = map (fst \<circ> snd) ss, dependencies = [],
             mfields = (if named then map (snd \<circ> snd) ss else [])\<rparr>
       in bind_result (collector (validate_capture_schema m)) (\<lambda>_. Inr (map fst ss, m))))"

definition read_lineage :: "'j json_api \<Rightarrow> 'j \<Rightarrow> site_info list \<Rightarrow> export_error + (u32 \<times> u32) list" where
  "read_lineage api j infos =
     bind_result (at_member api j ''dependencies'') (\<lambda>dj.
     bind_result (elements_or api Dependencies_not_array dj) (\<lambda>dj. read_dependencies api infos dj []))"

definition read_site_table :: "'j json_api \<Rightarrow> 'j \<Rightarrow> export_error + 'j list" where
  "read_site_table api j =
     bind_result (at_member api j ''sites'') (\<lambda>sj.
     bind_result (elements_or api Invalid_site_table sj) (\<lambda>sj.
       if sj = [] \<or> int (length sj) \<ge> 2147483647 then Inl Invalid_site_table else Inr sj))"

definition describe :: "'j json_api \<Rightarrow> 'j \<Rightarrow> export_error + description" where
  "describe api j =
     bind_result (format api j ''rhodium-event-graph'') (\<lambda>_.
     bind_result (string_at api j ''top'') (\<lambda>t.
     bind_result (read_site_table api j) (\<lambda>sj.
     bind_result (read_manifest api (dump api j) sj) (\<lambda>(infos, m).
     bind_result (read_tracks infos 0 infos (replicate (length infos) False)) (\<lambda>(tracks, shared).
     bind_result (read_lineage api j infos) (\<lambda>deps.
       Inr \<lparr>dmanifest = m\<lparr>dependencies := deps\<rparr>, top = t, sites = infos,
         track_sites = tracks, shared_tracks = shared\<rparr>))))))"

definition read_ref :: "'j json_api \<Rightarrow> 'j \<Rightarrow> export_error + ref" where
  "read_ref api j =
     bind_result (elements_or api Invalid_reference j) (\<lambda>js. case js of
       [a, b] \<Rightarrow> bind_result (number32 api a) (\<lambda>s. bind_result (number api b (- 1)) (\<lambda>q. Inr (Ref s q)))
     | _ \<Rightarrow> Inl Invalid_reference)"

section \<open>What a description satisfies\<close>

definition is_stall :: "description \<Rightarrow> nat \<Rightarrow> bool" where
  "is_stall d i \<longleftrightarrow> site_kind (sites d ! i) = ''stall''"

definition track_of :: "description \<Rightarrow> nat \<Rightarrow> nat" where
  "track_of d i = unat (track_sites d ! i)"

definition site_table_ok :: "site_info list \<Rightarrow> bool" where
  "site_table_ok ss \<longleftrightarrow> distinct (map site_id ss) \<and>
     (\<forall>s \<in> set ss. site_id s \<noteq> [] \<and> site_kind s \<in> {''transfer'', ''stall''}
       \<and> (site_kind s = ''stall'' \<longleftrightarrow> observation_of s \<noteq> []))"

definition tracks_ok :: "description \<Rightarrow> bool" where
  "tracks_ok d \<longleftrightarrow> length (track_sites d) = length (sites d) \<and> length (shared_tracks d) = length (sites d)
     \<and> (\<forall>i < length (sites d). if is_stall d i
          then track_of d i < length (sites d) \<and> \<not> is_stall d (track_of d i)
            \<and> site_id (sites d ! track_of d i) = observation_of (sites d ! i)
          else track_of d i = i)
     \<and> (\<forall>t < length (sites d). shared_tracks d ! t \<longleftrightarrow> (\<exists>i < length (sites d). is_stall d i \<and> track_of d i = t))"

definition lineage_ok :: "description \<Rightarrow> bool" where
  "lineage_ok d \<longleftrightarrow> os_wf (dependencies (dmanifest d)) \<and>
     (\<forall>(p, c) \<in> set (dependencies (dmanifest d)).
        unat p < length (sites d) \<and> unat c < length (sites d) \<and> \<not> is_stall d (unat p))"

definition description_ok :: "description \<Rightarrow> bool" where
  "description_ok d \<longleftrightarrow> sites d \<noteq> [] \<and> length (sites d) < 2 ^ 31
     \<and> length (payload_widths (dmanifest d)) = length (sites d)
     \<and> site_table_ok (sites d) \<and> tracks_ok d \<and> lineage_ok d \<and> schema_ok (dmanifest d)"

lemma read_site_ok:
  "read_site api named taken j = Inr s \<Longrightarrow> site_id (fst s) \<noteq> [] \<and> site_id (fst s) \<notin> set taken
    \<and> site_kind (fst s) \<in> {''transfer'', ''stall''} \<and> (site_kind (fst s) = ''stall'' \<longleftrightarrow> observation_of (fst s) \<noteq> [])"
  by (auto simp: read_site_def throw_if_eq_Inr split: if_splits)

lemma read_sites_ok:
  "read_sites api named taken js = Inr ss \<Longrightarrow> length ss = length js \<and> site_table_ok (map fst ss)
    \<and> site_id ` fst ` set ss \<inter> set taken = {}"
proof (induction js arbitrary: taken ss)
  case (Cons j js)
  then obtain s ss' where s: "read_site api named taken j = Inr s" "ss = s # ss'"
    "read_sites api named (site_id (fst s) # taken) js = Inr ss'" by auto
  with Cons.IH [OF s(3)] read_site_ok [OF s(1)] show ?case by (auto simp: site_table_ok_def)
qed (simp add: site_table_ok_def)

lemma site_index_found: "site_index ss i = Some p \<Longrightarrow> p < length ss \<and> site_id (ss ! p) = i"
  by (induction ss arbitrary: p) (auto split: if_splits)

lemma read_tracks_ok:
  "read_tracks all i ss shared = Inr (ts, sh) \<Longrightarrow> length shared = length all \<Longrightarrow>
    length ts = length ss \<and> length sh = length all
    \<and> (\<forall>k < length ss. if site_kind (ss ! k) = ''stall''
        then \<exists>p. site_index all (observation_of (ss ! k)) = Some p \<and> site_kind (all ! p) = ''transfer'' \<and> ts ! k = of_nat p
        else ts ! k = of_nat (i + k))
    \<and> (\<forall>t < length all. sh ! t \<longleftrightarrow> shared ! t \<or>
        (\<exists>k < length ss. site_kind (ss ! k) = ''stall'' \<and> site_index all (observation_of (ss ! k)) = Some t))"
proof (induction ss arbitrary: i shared ts sh)
  case (Cons s ss)
  show ?case
  proof (cases "site_kind s = ''stall''")
    case True
    with Cons.prems(1) obtain p ts' where p: "site_index all (observation_of s) = Some p"
      "site_kind (all ! p) = ''transfer''" "ts = of_nat p # ts'"
      "read_tracks all (Suc i) ss (shared[p := True]) = Inr (ts', sh)"
      by (auto split: option.splits if_splits prod.splits)
    have "length (shared[p := True]) = length all" using Cons.prems(2) by simp
    note IH = Cons.IH [OF p(4) this]
    show ?thesis
      using IH p True Cons.prems(2) site_index_found [OF p(1)]
      by (auto simp: nth_Cons' nth_list_update less_Suc_eq_0_disj split: if_splits)
  next
    case False
    with Cons.prems(1) obtain ts' where r: "ts = of_nat i # ts'" "read_tracks all (Suc i) ss shared = Inr (ts', sh)"
      by (auto split: prod.splits)
    show ?thesis
      using Cons.IH [OF r(2) Cons.prems(2)] r(1) False
      by (auto simp: nth_Cons' less_Suc_eq_0_disj split: if_splits)
  qed
qed auto

lemma read_dependencies_ok:
  "read_dependencies api all js deps = Inr ds \<Longrightarrow> length all < 2 ^ 31 \<Longrightarrow> os_wf deps \<Longrightarrow>
    (\<forall>(p, c) \<in> set deps. unat p < length all \<and> unat c < length all \<and> site_kind (all ! unat p) \<noteq> ''stall'') \<Longrightarrow>
    os_wf ds \<and>
    (\<forall>(p, c) \<in> set ds. unat p < length all \<and> unat c < length all \<and> site_kind (all ! unat p) \<noteq> ''stall'')"
proof (induction js arbitrary: deps)
  case (Cons j js)
  obtain i k where ik: "string_at api j ''parent'' = Inr i" "string_at api j ''child'' = Inr k"
    using Cons.prems(1) by auto
  obtain p c where pc: "site_index all i = Some p" "site_index all k = Some c"
    "site_kind (all ! p) \<noteq> ''stall''" "read_dependencies api all js (os_insert (of_nat p, of_nat c) deps) = Inr ds"
    using Cons.prems(1) ik by (cases "site_index all i"; cases "site_index all k") (auto split: if_splits)
  have "unat (of_nat p :: u32) = p" "unat (of_nat c :: u32) = c" "p < length all" "c < length all"
    using site_index_found [OF pc(1)] site_index_found [OF pc(2)] Cons.prems(2)
    by (simp_all add: unsigned_of_nat take_bit_nat_eq_self)
  then show ?case using pc Cons.prems by (intro Cons.IH [OF pc(4)]) auto
qed simp

lemma read_site_table_ok: "read_site_table api j = Inr sj \<Longrightarrow> sj \<noteq> [] \<and> length sj < 2 ^ 31"
  by (auto simp: read_site_table_def split: if_splits)

lemma read_manifest_ok:
  assumes "read_manifest api s sj = Inr (infos, m)"
  shows "length infos = length sj \<and> length (payload_widths m) = length sj \<and> site_table_ok infos \<and> schema_ok m"
proof -
  let ?named = "contains api (hd sj) ''fields''"
  obtain ss where ss: "read_sites api ?named [] sj = Inr ss" "infos = map fst ss"
    "m = \<lparr>mjson = s, payload_widths = map (fst \<circ> snd) ss, dependencies = [],
       mfields = (if ?named then map (snd \<circ> snd) ss else [])\<rparr>"
    "validate_capture_schema m = Inr ()"
    using assms by (auto simp: read_manifest_def Let_def)
  from read_sites_ok [OF ss(1)] ss(2-4) show ?thesis
    unfolding validate_schema_ok by simp
qed

lemma describe_description_ok:
  assumes "describe api j = Inr d"
  shows "description_ok d"
proof -
  obtain sj infos m ts sh deps t where sj: "read_site_table api j = Inr sj"
    and m: "read_manifest api (dump api j) sj = Inr (infos, m)"
    and ts: "read_tracks infos 0 infos (replicate (length infos) False) = Inr (ts, sh)"
    and deps: "read_lineage api j infos = Inr deps"
    and d: "d = \<lparr>dmanifest = m\<lparr>dependencies := deps\<rparr>, top = t, sites = infos,
         track_sites = ts, shared_tracks = sh\<rparr>"
    using assms by (auto simp: describe_def)
  note table = read_site_table_ok [OF sj] and man = read_manifest_ok [OF m]
  have len: "length infos < 2 ^ 31" using table man by simp
  note tracks = read_tracks_ok [OF ts, simplified]
  have small: "unat (of_nat i :: u32) = i" if "i < length infos" for i
    using that len by (simp add: unsigned_of_nat take_bit_nat_eq_self)
  have track: "if is_stall d i
      then site_index infos (observation_of (infos ! i)) = Some (track_of d i) \<and> \<not> is_stall d (track_of d i)
      else track_of d i = i" if "i < length infos" for i
  proof (cases "is_stall d i")
    case True
    have "if site_kind (infos ! i) = ''stall''
        then \<exists>p. site_index infos (observation_of (infos ! i)) = Some p \<and> site_kind (infos ! p) = ''transfer'' \<and> ts ! i = of_nat p
        else ts ! i = of_nat (0 + i)" using tracks that by blast
    with True obtain p where p: "site_index infos (observation_of (infos ! i)) = Some p"
      "site_kind (infos ! p) = ''transfer''" "ts ! i = of_nat p"
      by (auto simp: is_stall_def d)
    then have "track_of d i = p" using small site_index_found [OF p(1)] by (simp add: track_of_def d)
    with True p show ?thesis by (simp add: is_stall_def d)
  next
    case False
    with tracks that small show ?thesis by (simp add: is_stall_def track_of_def d)
  qed
  have "tracks_ok d"
    unfolding tracks_ok_def
  proof (intro conjI allI impI)
    fix i assume "i < length (sites d)"
    then have i: "i < length infos" by (simp add: d)
    show "if is_stall d i
          then track_of d i < length (sites d) \<and> \<not> is_stall d (track_of d i)
            \<and> site_id (sites d ! track_of d i) = observation_of (sites d ! i)
          else track_of d i = i"
      using track [OF i] site_index_found [of infos "observation_of (infos ! i)"] by (auto simp: d)
  next
    fix t assume "t < length (sites d)"
    then have t: "t < length infos" by (simp add: d)
    have "is_stall d i \<and> track_of d i = t \<longleftrightarrow>
        site_kind (infos ! i) = ''stall'' \<and> site_index infos (observation_of (infos ! i)) = Some t" if "i < length infos" for i
      using track [OF that] by (auto simp: is_stall_def d)
    then show "shared_tracks d ! t \<longleftrightarrow> (\<exists>i < length (sites d). is_stall d i \<and> track_of d i = t)"
      using tracks t by (auto simp: d)
  qed (use tracks in \<open>auto simp: d\<close>)
  moreover obtain dj where dj: "read_dependencies api infos dj [] = Inr deps"
    using deps by (auto simp: read_lineage_def)
  then have "lineage_ok d"
    using read_dependencies_ok [OF dj len] by (auto simp: lineage_ok_def d is_stall_def)
  ultimately show ?thesis using len table man by (auto simp: description_ok_def d schema_ok_def)
qed

section \<open>Properties\<close>

text \<open>C31: whatever the JSON library returns, a manifest that \<open>describe\<close> accepts is well formed: site
  identities are unique, every stall shares the track of the transfer site it observes and a
  transfer has its own, exactly the observed tracks are shared, dependencies join known sites and
  never leave a stall, the widths cover the sites and the capture schema is valid.\<close>

theorem describe_well_formed:
  assumes "describe api j = Inr d"
  shows "description_ok d"
  using assms by (rule describe_description_ok)

text \<open>A library for the examples: values as a datatype, members as association lists.\<close>

datatype json = J_bool bool | J_int int | J_string string | J_array "json list" | J_object "(string \<times> json) list"

definition example_api :: "json json_api" where
  "example_api = \<lparr>object_member = (\<lambda>j k. case j of J_object ms \<Rightarrow> Some (map_of ms k) | _ \<Rightarrow> None),
     array_elements = (\<lambda>j. case j of J_array js \<Rightarrow> Some js | _ \<Rightarrow> None),
     string_value = (\<lambda>j. case j of J_string s \<Rightarrow> Some s | _ \<Rightarrow> None),
     integer_value = (\<lambda>j. case j of J_int n \<Rightarrow> Some n | _ \<Rightarrow> None),
     boolean_value = (\<lambda>j. case j of J_bool b \<Rightarrow> Some b | _ \<Rightarrow> None),
     dump = (\<lambda>j. ''{}''), parse_json = (\<lambda>s. ([], None))\<rparr>"

definition example_json :: json where
  "example_json = J_object [(''format'', J_string ''rhodium-event-graph''), (''version'', J_int 1),
     (''top'', J_string ''t''),
     (''sites'', J_array [
        J_object [(''id'', J_string ''a''), (''payload_width'', J_bool False)],
        J_object [(''id'', J_string ''b''), (''payload_width'', J_int 4), (''kind'', J_string ''stall''),
          (''observation_of'', J_string ''a'')]]),
     (''dependencies'', J_array [J_object [(''parent'', J_string ''a''), (''child'', J_string ''a'')]])]"

theorem describe_well_formed_witness:
  "\<exists>d. describe example_api example_json = Inr d \<and> description_ok d \<and> track_sites d = [0, 0]
    \<and> shared_tracks d = [True, False] \<and> dependencies (dmanifest d) = [(0, 0)]"
proof -
  have "case describe example_api example_json of Inl _ \<Rightarrow> False
    | Inr d \<Rightarrow> track_sites d = [0, 0] \<and> shared_tracks d = [True, False] \<and> dependencies (dmanifest d) = [(0, 0)]"
    by code_simp
  then obtain d where d: "describe example_api example_json = Inr d" "track_sites d = [0, 0]"
    "shared_tracks d = [True, False]" "dependencies (dmanifest d) = [(0, 0)]"
    by (auto split: sum.splits)
  with describe_well_formed [OF d(1)] show ?thesis by blast
qed

end
