(* ===== verification/Topo_Order.thy ===== *)
theory Topo_Order
  imports Ordered
begin

text \<open>
  Kahn's algorithm as the exporter runs it: nodes whose parents have all been taken wait in a set
  ordered by a key and then by themselves, and the least is taken next. The algorithm is run for
  as many rounds as there are nodes, which is enough: every round takes a new node.
\<close>

section \<open>The algorithm\<close>

type_synonym 'a degrees = "('a \<times> nat) list"

definition degree :: "'a::linorder degrees \<Rightarrow> 'a \<Rightarrow> nat" where
  "degree d r = (case om_find d r of None \<Rightarrow> 0 | Some n \<Rightarrow> n)"

text \<open>The loop over the children of the node taken: decrement, and admit at zero.\<close>

fun release :: "('a::linorder \<Rightarrow> 'k::linorder) \<Rightarrow> 'a list \<Rightarrow> 'a degrees \<times> ('k \<times> 'a) list \<Rightarrow> 'a degrees \<times> ('k \<times> 'a) list" where
  "release key [] s = s"
| "release key (c # cs) (d, ready) =
     (let n = degree d c - 1; d = om_put c n d
      in release key cs (d, if n = 0 then os_insert (key c, c) ready else ready))"

fun kahn :: "('a::linorder \<Rightarrow> 'k::linorder) \<Rightarrow> ('a \<Rightarrow> 'a list) \<Rightarrow> nat \<Rightarrow> 'a degrees \<Rightarrow> ('k \<times> 'a) list \<Rightarrow> 'a list" where
  "kahn key children fuel d [] = []"
| "kahn key children 0 d ((k, r) # ready) = []"
| "kahn key children (Suc fuel) d ((k, r) # ready) =
     (case release key (children r) (d, ready) of (d, ready) \<Rightarrow> r # kahn key children fuel d ready)"

section \<open>Invariant\<close>

text \<open>
  \<open>E\<close> are the edges inside the node set \<open>N\<close>, \<open>T\<close> the nodes taken so far. Degrees count the parents
  not taken, and the waiting nodes are those of degree zero that are not taken.
\<close>

definition open_parents :: "('a \<times> 'a) set \<Rightarrow> 'a set \<Rightarrow> 'a \<Rightarrow> 'a set" where
  "open_parents E T c = {p. (p, c) \<in> E \<and> p \<notin> T}"

definition kahn_inv :: "('a::linorder \<Rightarrow> 'k::linorder) \<Rightarrow> 'a set \<Rightarrow> ('a \<times> 'a) set \<Rightarrow> 'a set
    \<Rightarrow> 'a degrees \<Rightarrow> ('k \<times> 'a) list \<Rightarrow> bool" where
  "kahn_inv key N E T d ready \<longleftrightarrow> finite N \<and> E \<subseteq> N \<times> N \<and> T \<subseteq> N \<and> om_wf d \<and> os_wf ready
     \<and> (\<forall>c \<in> T. open_parents E T c = {})
     \<and> (\<forall>c \<in> N. degree d c = card (open_parents E T c))
     \<and> set ready = (\<lambda>r. (key r, r)) ` {r \<in> N - T. open_parents E T r = {}}"

lemma degree_put: "om_wf d \<Longrightarrow> degree (om_put c n d) r = (if r = c then n else degree d r)"
  by (simp add: degree_def om_find_put)

text \<open>What releasing the children does, for any list of distinct children.\<close>

lemma release_spec:
  "distinct cs \<Longrightarrow> om_wf d \<Longrightarrow> os_wf ready \<Longrightarrow> release key cs (d, ready) = (d', ready') \<Longrightarrow>
    om_wf d' \<and> os_wf ready'
    \<and> (\<forall>r. degree d' r = (if r \<in> set cs then degree d r - 1 else degree d r))
    \<and> set ready' = set ready \<union> (\<lambda>r. (key r, r)) ` {r \<in> set cs. degree d r - 1 = 0}"
proof (induction cs arbitrary: d ready)
  case (Cons c cs)
  define n where "n = degree d c - 1"
  define d1 where "d1 = om_put c n d"
  define r1 where "r1 = (if n = 0 then os_insert (key c, c) ready else ready)"
  have wf: "om_wf d1" "os_wf r1" using Cons.prems by (auto simp: d1_def r1_def om_wf_put)
  have "release key cs (d1, r1) = (d', ready')"
    using Cons.prems(4) by (simp add: Let_def n_def d1_def r1_def)
  note IH = Cons.IH [OF _ wf this]
  have deg: "degree d1 r = (if r = c then n else degree d r)" for r
    using Cons.prems by (simp add: d1_def degree_put)
  have "set ready' = set r1 \<union> (\<lambda>r. (key r, r)) ` {r \<in> set cs. degree d r - 1 = 0}"
    using IH Cons.prems(1) deg by (auto simp: image_iff)
  also have "\<dots> = set ready \<union> (\<lambda>r. (key r, r)) ` {r \<in> set (c # cs). degree d r - 1 = 0}"
    by (auto simp: r1_def n_def)
  finally show ?case using IH Cons.prems(1) deg by (auto simp: n_def)
qed auto

lemma finite_open: "finite N \<Longrightarrow> E \<subseteq> N \<times> N \<Longrightarrow> finite (open_parents E T c)"
  by (rule finite_subset [of _ N]) (auto simp: open_parents_def)

lemma open_parents_insert: "open_parents E (insert r T) c = open_parents E T c - {r}"
  by (auto simp: open_parents_def)

lemma kahn_step:
  assumes inv: "kahn_inv key N E T d ((k, r) # ready)"
    and ch: "distinct (children r)" "set (children r) = {c. (r, c) \<in> E}"
    and rel: "release key (children r) (d, ready) = (d', ready')"
  shows "kahn_inv key N E (insert r T) d' ready' \<and> r \<in> N - T \<and> open_parents E T r = {} \<and> k = key r"
proof -
  note I = inv [unfolded kahn_inv_def]
  have "(k, r) \<in> (\<lambda>r. (key r, r)) ` {r \<in> N - T. open_parents E T r = {}}"
    using I by (metis list.set_intros(1))
  then have r: "r \<in> N - T" "open_parents E T r = {}" "k = key r" by auto
  have wf: "om_wf d" "os_wf ready" using I by auto
  note spec = release_spec [OF ch(1) wf rel]
  have loop: "r \<notin> set (children r)"
    using r ch(2) by (auto simp: open_parents_def)
  have card1: "card (open_parents E (insert r T) c) =
      (if c \<in> set (children r) then card (open_parents E T c) - 1 else card (open_parents E T c))" for c
  proof (cases "c \<in> set (children r)")
    case True
    with r(1) ch(2) have "r \<in> open_parents E T c" by (simp add: open_parents_def)
    with True show ?thesis by (simp add: open_parents_insert card_Diff_singleton)
  next
    case False
    with ch(2) have "r \<notin> open_parents E T c" by (simp add: open_parents_def)
    with False show ?thesis by (simp add: open_parents_insert)
  qed
  have deg: "degree d' c = card (open_parents E (insert r T) c)" if "c \<in> N" for c
    using spec I card1 that by simp
  have "set ready' = (\<lambda>r. (key r, r)) ` {x \<in> N - insert r T. open_parents E (insert r T) x = {}}"
  proof -
    have "insert (k, r) (set ready) = (\<lambda>r. (key r, r)) ` {x \<in> N - T. open_parents E T x = {}}"
      "(k, r) \<notin> set ready" using I by auto
    then have "set ready = (\<lambda>r. (key r, r)) ` {x \<in> N - T. open_parents E T x = {}} - {(key r, r)}"
      using r(3) by blast
    then have "set ready = (\<lambda>r. (key r, r)) ` {x \<in> N - insert r T. open_parents E T x = {}}"
      by auto
    moreover have "{x \<in> N - insert r T. open_parents E (insert r T) x = {}}
        = {x \<in> N - insert r T. open_parents E T x = {}} \<union> {c \<in> set (children r). degree d c - 1 = 0}"
    proof (intro equalityI subsetI)
      fix x assume x: "x \<in> {x \<in> N - insert r T. open_parents E (insert r T) x = {}}"
      show "x \<in> {x \<in> N - insert r T. open_parents E T x = {}} \<union> {c \<in> set (children r). degree d c - 1 = 0}"
      proof (cases "x \<in> set (children r)")
        case True
        then have "card (open_parents E (insert r T) x) = degree d x - 1"
          using card1 [of x] I x by simp
        with x True show ?thesis by simp
      next
        case False
        then have "open_parents E (insert r T) x = open_parents E T x"
          using ch(2) by (auto simp: open_parents_insert open_parents_def)
        with x show ?thesis by simp
      qed
    next
      fix x
      assume x: "x \<in> {x \<in> N - insert r T. open_parents E T x = {}} \<union> {c \<in> set (children r). degree d c - 1 = 0}"
      show "x \<in> {x \<in> N - insert r T. open_parents E (insert r T) x = {}}"
      proof (cases "x \<in> set (children r)")
        case True
        then have e: "(r, x) \<in> E" "x \<in> N" "x \<noteq> r" using ch(2) I loop by auto
        then have "r \<in> open_parents E T x" using r(1) by (simp add: open_parents_def)
        with x True have "degree d x - 1 = 0" by auto
        then have "card (open_parents E (insert r T) x) = 0" using card1 [of x] I True e by simp
        then have empty: "open_parents E (insert r T) x = {}"
          using finite_open [of N E "insert r T" x] I by simp
        have "x \<notin> T"
        proof
          assume "x \<in> T"
          then have "open_parents E T x = {}" using I by blast
          with \<open>r \<in> open_parents E T x\<close> show False by simp
        qed
        with e empty show ?thesis by simp
      next
        case False
        with x show ?thesis by (auto simp: open_parents_insert)
      qed
    qed
    moreover have "set ready' = set ready \<union> (\<lambda>r. (key r, r)) ` {c \<in> set (children r). degree d c - 1 = 0}"
      using spec by blast
    ultimately show ?thesis by (simp add: image_Un)
  qed
  moreover have "\<forall>c \<in> insert r T. open_parents E (insert r T) c = {}"
    using I r(2) by (auto simp: open_parents_insert)
  moreover have "\<forall>c \<in> N. degree d' c = card (open_parents E (insert r T) c)" using deg by blast
  moreover have "finite N" "E \<subseteq> N \<times> N" "insert r T \<subseteq> N" using I r(1) by auto
  moreover have "om_wf d'" "os_wf ready'" using spec by blast+
  ultimately have "kahn_inv key N E (insert r T) d' ready'" unfolding kahn_inv_def by blast
  with r show ?thesis by blast
qed

section \<open>The order\<close>

text \<open>
  Every edge into an element of the list comes from an earlier element or from \<open>T\<close>, and what is
  not taken still waits for a parent.
\<close>

definition topo_result :: "('a::linorder \<Rightarrow> 'k::linorder) \<Rightarrow> 'a set \<Rightarrow> ('a \<times> 'a) set \<Rightarrow> 'a set \<Rightarrow> 'a list \<Rightarrow> bool" where
  "topo_result key N E T xs \<longleftrightarrow> distinct xs \<and> set xs \<subseteq> N - T
     \<and> (\<forall>i < length xs. \<forall>p. (p, xs ! i) \<in> E \<longrightarrow> p \<in> T \<union> set (take i xs))
     \<and> (\<forall>r \<in> N - T - set xs. open_parents E (T \<union> set xs) r \<noteq> {})"

lemma topo_result_Cons:
  assumes "topo_result key N E (insert r T) xs" "r \<in> N - T" "open_parents E T r = {}"
  shows "topo_result key N E T (r # xs)"
proof -
  have "p \<in> T \<union> set (take i (r # xs))" if "i < length (r # xs)" "(p, (r # xs) ! i) \<in> E" for i p
  proof (cases i)
    case 0
    with that assms(3) show ?thesis by (auto simp: open_parents_def)
  next
    case (Suc j)
    with that assms(1) show ?thesis by (auto simp: topo_result_def)
  qed
  with assms(1,2) show ?thesis by (auto simp: topo_result_def)
qed

lemma kahn_result:
  assumes ch: "\<And>r. r \<in> N \<Longrightarrow> distinct (children r) \<and> set (children r) = {c. (r, c) \<in> E}"
  shows "kahn_inv key N E T d ready \<Longrightarrow> card (N - T) \<le> fuel \<Longrightarrow>
    topo_result key N E T (kahn key children fuel d ready)"
proof (induction fuel arbitrary: d ready T)
  case 0
  then have "finite N" "T \<subseteq> N" by (auto simp: kahn_inv_def)
  with 0 have "N - T = {}" by simp
  with 0 show ?case by (cases ready) (auto simp: kahn_inv_def topo_result_def)
next
  case (Suc fuel)
  note I = Suc.prems(1) [unfolded kahn_inv_def]
  show ?case
  proof (cases ready)
    case Nil
    with I have "{r \<in> N - T. open_parents E T r = {}} = {}" by auto
    then show ?thesis unfolding Nil topo_result_def by auto
  next
    case (Cons a rest)
    obtain k r where a: "a = (k, r)" by (cases a)
    obtain d' ready' where rel: "release key (children r) (d, rest) = (d', ready')" by (metis prod.exhaust)
    have "(k, r) \<in> (\<lambda>r. (key r, r)) ` {r \<in> N - T. open_parents E T r = {}}"
      using I Cons a by (metis list.set_intros(1))
    then have "r \<in> N" by auto
    note c = ch [OF this]
    note step = kahn_step [of key N E T d k r rest children, OF Suc.prems(1) [unfolded Cons a] c [THEN conjunct1] c [THEN conjunct2] rel]
    have "card (N - insert r T) < card (N - T)"
      using step I by (intro psubset_card_mono) auto
    then have "topo_result key N E (insert r T) (kahn key children fuel d' ready')"
      using Suc.IH step Suc.prems(2) by auto
    from topo_result_Cons [OF this] step rel show ?thesis by (simp add: Cons a)
  qed
qed

text \<open>The run takes every node exactly when the edges have no cycle.\<close>

lemma topo_complete_acyclic:
  assumes "topo_result key N E {} xs" "E \<subseteq> N \<times> N" "set xs = N"
  shows "acyclic E"
proof (rule ccontr)
  have earlier: "p \<in> set (take i xs)" if "i < length xs" "(p, xs ! i) \<in> E" for i p
    using assms(1) that unfolding topo_result_def by (metis sup_bot_left)
  have path: "\<exists>j < i. p = xs ! j" if "(p, c) \<in> E\<^sup>+" "c = xs ! i" "i < length xs" for p c i
    using that
  proof (induction arbitrary: i rule: trancl_induct)
    case (base c)
    then have "p \<in> set (take i xs)" using earlier by simp
    then show ?case using base(3) by (auto simp: in_set_conv_nth)
  next
    case (step b c)
    then have "b \<in> set (take i xs)" using earlier by simp
    then obtain j where j: "j < i" "b = xs ! j" using step(5) by (auto simp: in_set_conv_nth)
    with step.IH [of j] step(5) show ?case by (metis less_trans)
  qed
  assume "\<not> acyclic E"
  then obtain c where c: "(c, c) \<in> E\<^sup>+" by (auto simp: acyclic_def)
  then have "c \<in> N" using assms(2) by (metis mem_Sigma_iff subsetD trancl_subset_Sigma)
  then obtain i where i: "i < length xs" "c = xs ! i" using assms(3) by (metis in_set_conv_nth)
  from path [OF c i(2) i(1)] obtain j where "j < i" "c = xs ! j" by blast
  moreover have "distinct xs" using assms(1) by (simp add: topo_result_def)
  ultimately show False using i by (simp add: nth_eq_iff_index_eq)
qed

lemma acyclic_topo_complete:
  assumes "topo_result key N E {} xs" "E \<subseteq> N \<times> N" "finite N" "acyclic E"
  shows "set xs = N"
proof (rule ccontr)
  assume "set xs \<noteq> N"
  moreover have "set xs \<subseteq> N" using assms(1) by (auto simp: topo_result_def)
  ultimately obtain r where "r \<in> N - set xs" by blast
  moreover have "wf E"
    using assms(2-4) by (metis finite_SigmaI finite_acyclic_wf finite_subset)
  ultimately obtain m where m: "m \<in> N - set xs" "\<And>p. (p, m) \<in> E \<Longrightarrow> p \<notin> N - set xs"
    by (metis wfE_min)
  then have "open_parents E (set xs) m \<noteq> {}" using assms(1) by (auto simp: topo_result_def)
  then show False using m(2) assms(2) by (auto simp: open_parents_def)
qed

text \<open>Keys never decrease when no edge decreases them.\<close>

lemma kahn_sorted:
  assumes ch: "\<And>r. r \<in> N \<Longrightarrow> distinct (children r) \<and> set (children r) = {c. (r, c) \<in> E}"
    and mono: "\<And>p c. (p, c) \<in> E \<Longrightarrow> key p \<le> key c"
  shows "kahn_inv key N E T d ready \<Longrightarrow> \<forall>r \<in> snd ` set ready. l \<le> key r \<Longrightarrow>
    sorted (map key (kahn key children fuel d ready)) \<and> (\<forall>r \<in> set (kahn key children fuel d ready). l \<le> key r)"
proof (induction fuel arbitrary: d ready T l)
  case 0
  then show ?case by (cases ready) auto
next
  case (Suc fuel)
  note I = Suc.prems(1) [unfolded kahn_inv_def]
  show ?case
  proof (cases ready)
    case (Cons a rest)
    obtain k r where a: "a = (k, r)" by (cases a)
    obtain d' ready' where rel: "release key (children r) (d, rest) = (d', ready')" by (metis prod.exhaust)
    have "(k, r) \<in> (\<lambda>r. (key r, r)) ` {r \<in> N - T. open_parents E T r = {}}"
      using I Cons a by (metis list.set_intros(1))
    then have "r \<in> N" by auto
    note c = ch [OF this]
    note step = kahn_step [of key N E T d k r rest children, OF Suc.prems(1) [unfolded Cons a] c [THEN conjunct1] c [THEN conjunct2] rel]
    have rest: "key r \<le> key x" if "x \<in> snd ` set rest" for x
    proof -
      from that obtain k' where k': "(k', x) \<in> set rest" by auto
      with I Cons a have "(k, r) < (k', x)" by auto
      moreover have "k' = key x" using k' I Cons by auto
      ultimately show ?thesis using step by (auto simp: less_prod_simp)
    qed
    have "om_wf d" "os_wf rest" using I Cons by auto
    then have "snd ` set ready' \<subseteq> snd ` set rest \<union> set (children r)"
      using release_spec [OF c [THEN conjunct1] _ _ rel] by auto
    then have "\<forall>x \<in> snd ` set ready'. key r \<le> key x" using rest mono c by blast
    from Suc.IH [OF _ this] step
    have IH: "sorted (map key (kahn key children fuel d' ready'))"
      "\<forall>x \<in> set (kahn key children fuel d' ready'). key r \<le> key x" by blast+
    moreover have "l \<le> key r" using Suc.prems(2) Cons a by simp
    ultimately show ?thesis using rel by (fastforce simp: Cons a)
  qed simp
qed

end
