(* ===== verification/Perfetto_Writer.thy ===== *)
theory Perfetto_Writer
  imports Perfetto_Describe Topo_Order
begin

text \<open>
  \<open>PerfettoWriter::Impl\<close>: the state of one export, the packets of slices and flows, the merging of
  consecutive stalls into one slice, and \<open>flush\<close>, \<open>write\<close> and \<open>finish\<close>. Spike, the JSON text of a
  list of words and the output stream are arguments.
\<close>

type_synonym u128 = "128 word"

section \<open>State\<close>

record stall_run =
  last_ref :: ref
  run_node :: node
  run_parents :: "ref list"

record library =
  spike_lib :: spike
  dump_words :: "u32 list \<Rightarrow> string"

record 'o sink =
  plain_write :: "'o \<Rightarrow> u8 list \<Rightarrow> 'o"
  gzip_write :: "'o \<Rightarrow> u8 list \<Rightarrow> 'o \<times> export_error option"
  gzip_finish :: "'o \<Rightarrow> 'o \<times> export_error option"
  stream_flush :: "'o \<Rightarrow> 'o"
  stream_good :: "'o \<Rightarrow> bool"

record writer =
  stalls :: "(u32 \<times> stall_run) list"
  desc :: description
  wtiming :: trace_timing
  instructions :: riscv_formatting
  strings :: interned
  can_parent :: "bool list"
  known :: "(ref \<times> u64 \<times> u64) list"
  watermark :: "u64 option"
  write_failed :: bool
  finished :: bool
  gzip :: bool

definition track_at :: "writer \<Rightarrow> ref \<Rightarrow> u32" where
  "track_at w r = track_sites (desc w) ! unat (site r)"

definition stall_site :: "writer \<Rightarrow> ref \<Rightarrow> bool" where
  "stall_site w r \<longleftrightarrow> is_stall (desc w) (unat (site r))"

section \<open>Packets\<close>

definition timestamp :: "writer \<Rightarrow> u128 \<Rightarrow> export_error + u64" where
  "timestamp w c =
     (let ns = c * 1000000000 div ucast (clock_frequency_hz (wtiming w))
      in if ns \<le> ucast int64_max then Inr (ucast ns) else Inl Timestamp_overflow)"

definition event ::
  "writer \<Rightarrow> ref \<Rightarrow> u128 \<Rightarrow> u8 list \<Rightarrow> u8 list \<times> pending_interns \<Rightarrow> export_error + u8 list \<times> pending_interns" where
  "event w r c body s = (case s of (stream, ps) \<Rightarrow>
     bind_result (timestamp w c) (\<lambda>ts.
       let body = body @ integer 11 (ucast (track_at w r) + 1);
           pkt = integer 8 ts @ integer 58 6 @ integer 10 1 @ integer 13 2
             @ (if pending ps \<noteq> [] then bytes_field 12 (pending ps) else [])
             @ bytes_field 11 body
       in Inr (stream @ packet pkt, ps\<lparr>pending := []\<rparr>)))"

definition flow ::
  "writer \<Rightarrow> ref \<Rightarrow> u64 \<Rightarrow> char \<Rightarrow> u64 \<Rightarrow> u8 list \<times> pending_interns \<Rightarrow> export_error + u8 list \<times> pending_interns" where
  "flow w r c phase i s = (case s of (stream, ps) \<Rightarrow>
     case reference 10 23 Name ''dependency'' ps of (ps, a) \<Rightarrow>
     case reference 3 22 Category ''rhodium.flow'' ps of (ps, b) \<Rightarrow>
       event w r (ucast c)
         (a @ b @ bytes_field 6 (integer 2 (of_nat (char_code phase)) @ integer 6 i @ integer 12 1)) (stream, ps))"

text \<open>A loop of packets that stops at the first failure.\<close>

fun emit_all :: "('a \<Rightarrow> 's \<Rightarrow> export_error + 's) \<Rightarrow> 'a list \<Rightarrow> 's \<Rightarrow> export_error + 's" where
  "emit_all f [] s = Inr s"
| "emit_all f (x # xs) s = bind_result (f x s) (emit_all f xs)"

section \<open>Stalls\<close>

definition endings :: "(stall_run \<Rightarrow> bool) \<Rightarrow> (u32 \<times> stall_run) list \<Rightarrow> (u64 \<times> u32) list" where
  "endings should_close runs =
     fold (\<lambda>(track, run) es. if should_close run then os_insert (cycle (run_node run), track) es else es) runs []"

type_synonym slices = "u8 list \<times> pending_interns \<times> (u32 \<times> stall_run) list"

definition close_stall :: "writer \<Rightarrow> u64 \<times> u32 \<Rightarrow> slices \<Rightarrow> export_error + slices" where
  "close_stall w e s = (case e of (c, track) \<Rightarrow> case s of (stream, ps, runs) \<Rightarrow>
     (case om_find runs track of
        None \<Rightarrow> Inl (Collector Out_of_range)
      | Some run \<Rightarrow>
          bind_result (event w (last_ref run) (ucast c + 1) (integer 9 2) (stream, ps)) (\<lambda>(stream, ps).
            Inr (stream, ps, om_erase track runs))))"

definition close_stalls :: "writer \<Rightarrow> (stall_run \<Rightarrow> bool) \<Rightarrow> slices \<Rightarrow> export_error + slices" where
  "close_stalls w should_close s =
     emit_all (close_stall w) (endings should_close (snd (snd s))) s"

section \<open>Validation of a batch\<close>

definition check_batch_node ::
  "writer \<Rightarrow> u64 \<Rightarrow> ref \<times> node \<Rightarrow> (u32 \<times> u64) list \<Rightarrow> export_error + (u32 \<times> u64) list" where
  "check_batch_node w c e occupied = (case e of (r, n) \<Rightarrow>
     if om_has (known w) r \<or> unat (site r) \<ge> length (sites (desc w)) then Inl Duplicate_or_unknown_node
     else let track = track_at w r; shared = shared_tracks (desc w) ! unat track in
       if shared \<and> (track, cycle n) \<in> set occupied then Inl Shared_track_conflict
       else if cycle n > c \<or> (case watermark w of None \<Rightarrow> False | Some m \<Rightarrow> cycle n \<le> m)
       then Inl Outside_unfinished_interval
       else if \<not> present n \<or> width n \<noteq> payload_widths (dmanifest (desc w)) ! unat (site r)
       then Inl Incomplete_or_wrong_width
       else if length (words n) \<noteq> (unat (width n) + 31) div 32 then Inl Incomplete_payload
       else if \<not> list_all (\<lambda>i. om_has (words n) (of_nat i)) [0..<length (words n)] then Inl Missing_word
       else if unat (width n) mod 32 \<noteq> 0 \<and> drop_bit (unat (width n) mod 32) (snd (last (words n))) \<noteq> 0
       then Inl Payload_padding
       else bind_result (timestamp w (ucast (cycle n))) (\<lambda>_.
         bind_result (timestamp w (ucast (cycle n) + 1)) (\<lambda>_.
           Inr (if shared then (track, cycle n) # occupied else occupied))))"

record batch_graph =
  parents :: "(ref \<times> ref list) list"
  children :: "(ref \<times> ref list) list"
  indegree :: "(ref \<times> nat) list"

definition refs_of :: "(ref \<times> ref list) list \<Rightarrow> ref \<Rightarrow> ref list" where
  "refs_of m r = (case om_find m r of None \<Rightarrow> [] | Some rs \<Rightarrow> rs)"

definition no_graph :: "(ref \<times> node) list \<Rightarrow> batch_graph" where
  "no_graph ns = \<lparr>parents = [], children = [], indegree = fold (\<lambda>(r, n). om_put r 0) ns []\<rparr>"

definition check_batch_edge :: "writer \<Rightarrow> cycle_batch \<Rightarrow> edge \<Rightarrow> batch_graph \<Rightarrow> export_error + batch_graph" where
  "check_batch_edge w b e g = (case e of (p, c) \<Rightarrow>
     (case (om_find (bnodes b) c, om_find (bnodes b) p, om_find (known w) p) of
        (None, _, _) \<Rightarrow> Inl Missing_endpoint
      | (_, None, None) \<Rightarrow> Inl Missing_endpoint
      | (Some cn, pn, kn) \<Rightarrow>
          if (site p, site c) \<notin> set (dependencies (dmanifest (desc w))) then Inl Edge_forbidden
          else if (case pn of Some n \<Rightarrow> cycle n | None \<Rightarrow> snd (the kn)) > cycle cn then Inl Parent_occurs_later
          else let g = g\<lparr>parents := om_put c (os_insert p (refs_of (parents g) c)) (parents g)\<rparr>
            in Inr (if pn = None then g
              else g\<lparr>children := om_put p (os_insert c (refs_of (children g) p)) (children g),
                indegree := om_put c (degree (indegree g) c + 1) (indegree g)\<rparr>)))"

definition first_ready :: "(ref \<times> node) list \<Rightarrow> (ref \<times> nat) list \<Rightarrow> (u64 \<times> ref) list" where
  "first_ready ns d = fold (\<lambda>(r, n) s. if n = 0 then os_insert (cycle (node_at ns r), r) s else s) d []"

definition batch_order :: "cycle_batch \<Rightarrow> batch_graph \<Rightarrow> ref list" where
  "batch_order b g = kahn (\<lambda>r. cycle (node_at (bnodes b) r)) (refs_of (children g))
     (length (bnodes b)) (indegree g) (first_ready (bnodes b) (indegree g))"

definition check_batch :: "writer \<Rightarrow> cycle_batch \<Rightarrow> export_error + batch_graph \<times> ref list" where
  "check_batch w b =
     (if write_failed w then Inl Output_failed_before
      else if finished w then Inl Already_finished
      else if (case watermark w of None \<Rightarrow> False | Some m \<Rightarrow> bcycle b \<le> m) then Inl Watermark_must_increase
      else bind_result (emit_all (check_batch_node w (bcycle b)) (bnodes b) []) (\<lambda>_.
        bind_result (emit_all (check_batch_edge w b) (bedges b) (no_graph (bnodes b))) (\<lambda>g.
          let order = batch_order b g
          in if length order \<noteq> length (bnodes b) then Inl Cyclic_dependencies else Inr (g, order))))"

end
