(* ===== verification/Perfetto_Emit.thy ===== *)
theory Perfetto_Emit
  imports Perfetto_Writer
begin

text \<open>
  The slices of a batch and the operations \<open>write\<close>, \<open>flush\<close> and \<open>finish\<close>. A step of the emission
  returns its state also when it fails: the instruction cache is a member of the writer and keeps
  what a failed write put there, while everything else is local and dropped.
\<close>

section \<open>The state of one emission\<close>

record emission =
  stream :: "u8 list"
  interns :: pending_interns
  next_stalls :: "(u32 \<times> stall_run) list"
  additions :: "(ref \<times> u64 \<times> u64) list"
  formatting :: riscv_formatting
  group_cycle :: "u64 option"

type_synonym emit = "emission \<Rightarrow> emission \<times> (export_error + unit)"

definition then_emit :: "emit \<Rightarrow> emit \<Rightarrow> emit" where
  "then_emit f g s = (case f s of (s, Inl e) \<Rightarrow> (s, Inl e) | (s, Inr _) \<Rightarrow> g s)"

fun emit_each :: "('a \<Rightarrow> emit) \<Rightarrow> 'a list \<Rightarrow> emit" where
  "emit_each f [] s = (s, Inr ())"
| "emit_each f (x # xs) s = then_emit (f x) (emit_each f xs) s"

text \<open>A packet, and the closing of stalls, as steps.\<close>

definition packet_step :: "(u8 list \<times> pending_interns \<Rightarrow> export_error + u8 list \<times> pending_interns) \<Rightarrow> emit" where
  "packet_step f s = (case f (stream s, interns s) of
     Inl e \<Rightarrow> (s, Inl e)
   | Inr (bs, ps) \<Rightarrow> (s\<lparr>stream := bs, interns := ps\<rparr>, Inr ()))"

definition close_step :: "writer \<Rightarrow> (stall_run \<Rightarrow> bool) \<Rightarrow> emit" where
  "close_step w should_close s = (case close_stalls w should_close (stream s, interns s, next_stalls s) of
     Inl e \<Rightarrow> (s, Inl e)
   | Inr (bs, ps, runs) \<Rightarrow> (s\<lparr>stream := bs, interns := ps, next_stalls := runs\<rparr>, Inr ()))"

section \<open>The annotations of a slice\<close>

record slice =
  body :: "u8 list"
  mnemonic :: string
  selected_label :: string
  instruction_count :: nat

type_synonym 's slice_step = "pending_interns \<times> riscv_formatting \<times> slice
  \<Rightarrow> riscv_formatting \<times> (export_error + pending_interns \<times> slice)"

definition label_text :: "field \<Rightarrow> node \<Rightarrow> export_error + string" where
  "label_text f n =
     bind_result (collector (capture_field n f)) (\<lambda>value.
     bind_result (collector (unsigned_value value)) (\<lambda>code.
       case List.find (\<lambda>e. fst e = code) (symbols f) of
         None \<Rightarrow> collector (fv_hex value)
       | Some e \<Rightarrow> Inr (snd e)))"

text \<open>One field: its annotation, and the label it may give the slice.\<close>

definition field_annotation ::
  "library \<Rightarrow> field list \<Rightarrow> node \<Rightarrow> field \<Rightarrow> pending_interns \<Rightarrow> riscv_formatting \<Rightarrow> slice
    \<Rightarrow> riscv_formatting \<times> (export_error + pending_interns \<times> slice)" where
  "field_annotation lib fs n f ps fmt sl =
     (if encoding f = ''riscv'' then
        (case render (spike_lib lib) f n fs fmt of
           (fmt, Inl e) \<Rightarrow> (fmt, Inl e)
         | (fmt, Inr assembly) \<Rightarrow>
             (case annotation (fname f) assembly True ps of (ps, a) \<Rightarrow>
               (fmt, Inr (ps, sl\<lparr>body := body sl @ a, mnemonic := takeWhile (\<lambda>c. c \<noteq> CHR '' '') assembly,
                 instruction_count := instruction_count sl + 1\<rparr>))))
      else (fmt, bind_result (collector (capture_annotation f n ps)) (\<lambda>(ps, a).
        Inr (ps, sl\<lparr>body := body sl @ a\<rparr>))))"

fun field_annotations ::
  "library \<Rightarrow> field list \<Rightarrow> node \<Rightarrow> field list \<Rightarrow> pending_interns \<Rightarrow> riscv_formatting \<Rightarrow> slice
    \<Rightarrow> riscv_formatting \<times> (export_error + pending_interns \<times> slice)" where
  "field_annotations lib all n [] ps fmt sl = (fmt, Inr (ps, sl))"
| "field_annotations lib all n (f # fs) ps fmt sl =
     (case field_annotation lib all n f ps fmt sl of
        (fmt, Inl e) \<Rightarrow> (fmt, Inl e)
      | (fmt, Inr (ps, sl)) \<Rightarrow>
          if label f then
            (case label_text f n of
               Inl e \<Rightarrow> (fmt, Inl e)
             | Inr t \<Rightarrow> field_annotations lib all n fs ps fmt (sl\<lparr>selected_label := t\<rparr>))
          else field_annotations lib all n fs ps fmt sl)"

definition slice_name :: "writer \<Rightarrow> ref \<Rightarrow> slice \<Rightarrow> string" where
  "slice_name w r sl =
     (if stall_site w r then ''stall''
      else if selected_label sl \<noteq> [] then selected_label sl
      else if instruction_count sl = 1 then mnemonic sl
      else site_label (sites (desc w) ! unat (site r)))"

text \<open>The body of a slice begin, complete up to its track.\<close>

definition slice_body ::
  "library \<Rightarrow> writer \<Rightarrow> ref \<Rightarrow> node \<Rightarrow> pending_interns \<Rightarrow> riscv_formatting
    \<Rightarrow> riscv_formatting \<times> (export_error + pending_interns \<times> u8 list)" where
  "slice_body lib w r n ps fmt =
     (case reference 3 22 Category ''rhodium.event'' ps of (ps, a) \<Rightarrow>
      case annotation ''sequence'' (show_word (sequence r)) False ps of (ps, b) \<Rightarrow>
      case annotation ''cycle'' (show_word (cycle n)) False ps of (ps, c) \<Rightarrow>
      let sl = \<lparr>body = integer 9 1 @ a @ b @ c, mnemonic = [], selected_label = [], instruction_count = 0\<rparr>;
          all_fields = mfields (dmanifest (desc w)) in
      case (if all_fields \<noteq> [] then
              field_annotations lib (all_fields ! unat (site r)) n (all_fields ! unat (site r)) ps fmt sl
            else (case annotation ''payload_words_lsw_first'' (dump_words lib (map snd (words n))) True ps of
              (ps, d) \<Rightarrow> (fmt, Inr (ps, sl\<lparr>body := body sl @ d\<rparr>)))) of
        (fmt, Inl e) \<Rightarrow> (fmt, Inl e)
      | (fmt, Inr (ps, sl)) \<Rightarrow>
          (case reference 10 23 Name (slice_name w r sl) ps of (ps, d) \<Rightarrow> (fmt, Inr (ps, body sl @ d))))"

definition begin_slice :: "library \<Rightarrow> writer \<Rightarrow> ref \<Rightarrow> node \<Rightarrow> emit" where
  "begin_slice lib w r n s =
     (case slice_body lib w r n (interns s) (formatting s) of
        (fmt, Inl e) \<Rightarrow> (s\<lparr>formatting := fmt\<rparr>, Inl e)
      | (fmt, Inr (ps, b)) \<Rightarrow>
          packet_step (event w r (ucast (cycle n)) b) (s\<lparr>formatting := fmt, interns := ps\<rparr>))"

section \<open>One occurrence\<close>

text \<open>Whether a stall ends before cycle \<open>c\<close>: its next occurrence does not continue it.\<close>

definition stall_ends :: "cycle_batch \<Rightarrow> batch_graph \<Rightarrow> u64 \<Rightarrow> stall_run \<Rightarrow> bool" where
  "stall_ends b g c run \<longleftrightarrow>
     sequence (last_ref run) = - 1 \<or>
     (case om_find (bnodes b) (Ref (site (last_ref run)) (sequence (last_ref run) + 1)) of
        None \<Rightarrow> True
      | Some n \<Rightarrow> cycle n \<noteq> c
          \<or> (ucast (cycle (run_node run)) + 1 :: u128) \<noteq> ucast c
          \<or> words n \<noteq> words (run_node run)
          \<or> refs_of (parents g) (Ref (site (last_ref run)) (sequence (last_ref run) + 1)) \<noteq> run_parents run)"

definition enter_cycle :: "writer \<Rightarrow> cycle_batch \<Rightarrow> batch_graph \<Rightarrow> u64 \<Rightarrow> emit" where
  "enter_cycle w b g c s =
     (if group_cycle s = Some c then (s, Inr ())
      else close_step w (stall_ends b g c) (s\<lparr>group_cycle := Some c\<rparr>))"

text \<open>Flow identities: one for every occurrence, in the order of emission.\<close>

definition next_identity :: "writer \<Rightarrow> emission \<Rightarrow> u64" where
  "next_identity w s = of_nat (length (known w) + length (additions s) + 1)"

definition admit_node :: "writer \<Rightarrow> ref \<Rightarrow> node \<Rightarrow> emit" where
  "admit_node w r n s =
     (if int (length (known w)) \<ge> 2 ^ 64 - 1 - int (length (additions s)) then (s, Inl Flow_exhausted)
      else (s\<lparr>additions := om_put r (next_identity w s, cycle n) (additions s)\<rparr>, Inr ()))"

definition flow_identity :: "writer \<Rightarrow> emission \<Rightarrow> ref \<Rightarrow> export_error + u64" where
  "flow_identity w s p = (case om_find (additions s) p of
     Some (i, _) \<Rightarrow> Inr i
   | None \<Rightarrow> (case om_find (known w) p of Some (i, _) \<Rightarrow> Inr i | None \<Rightarrow> Inl (Collector Out_of_range)))"

definition parent_flow :: "writer \<Rightarrow> ref \<Rightarrow> node \<Rightarrow> ref \<Rightarrow> emit" where
  "parent_flow w r n p s = (case flow_identity w s p of
     Inl e \<Rightarrow> (s, Inl e)
   | Inr i \<Rightarrow> packet_step (flow w r (cycle n) (CHR ''f'') i) s)"

definition end_slice :: "writer \<Rightarrow> ref \<Rightarrow> node \<Rightarrow> ref list \<Rightarrow> emit" where
  "end_slice w r n ps s =
     (if stall_site w r
      then (s\<lparr>next_stalls := (if om_has (next_stalls s) (track_at w r) then next_stalls s
          else om_put (track_at w r) \<lparr>last_ref = r, run_node = n, run_parents = ps\<rparr> (next_stalls s))\<rparr>, Inr ())
      else packet_step (event w r (ucast (cycle n) + 1) (integer 9 2)) s)"

definition new_slice :: "library \<Rightarrow> writer \<Rightarrow> batch_graph \<Rightarrow> ref \<Rightarrow> node \<Rightarrow> u64 \<Rightarrow> emit" where
  "new_slice lib w g r n i =
     then_emit (begin_slice lib w r n)
    (then_emit (emit_each (parent_flow w r n) (refs_of (parents g) r))
    (then_emit (if can_parent w ! unat (site r) then packet_step (flow w r (cycle n) (CHR ''s'') i) else (\<lambda>s. (s, Inr ())))
       (end_slice w r n (refs_of (parents g) r))))"

definition emit_node :: "library \<Rightarrow> writer \<Rightarrow> cycle_batch \<Rightarrow> batch_graph \<Rightarrow> ref \<Rightarrow> emit" where
  "emit_node lib w b g r s =
     (let n = node_at (bnodes b) r in
      then_emit (enter_cycle w b g (cycle n))
        (\<lambda>s. let i = next_identity w s in
          then_emit (admit_node w r n)
            (\<lambda>s. case om_find (next_stalls s) (track_at w r) of
               Some run \<Rightarrow>
                 if stall_site w r then
                   (s\<lparr>next_stalls := om_put (track_at w r)
                      (run\<lparr>last_ref := r, run_node := (run_node run)\<lparr>cycle := cycle n\<rparr>\<rparr>) (next_stalls s)\<rparr>, Inr ())
                 else new_slice lib w g r n i s
             | None \<Rightarrow> new_slice lib w g r n i s) s) s)"

section \<open>Operations\<close>

definition streamsize_max :: int where
  "streamsize_max = 9223372036854775807"

text \<open>\<open>flush\<close>: the sink after the write, and whether it failed.\<close>

definition sink_result :: "'o sink \<Rightarrow> 'o \<times> export_error option \<Rightarrow> 'o \<times> (export_error + unit)" where
  "sink_result k r = (case r of
     (out, Some e) \<Rightarrow> (out, Inl e)
   | (out, None) \<Rightarrow> let out = stream_flush k out
       in (out, if stream_good k out then Inr () else Inl Output_write_failed))"

definition flush :: "'o sink \<Rightarrow> writer \<Rightarrow> u8 list \<Rightarrow> 'o \<Rightarrow> writer \<times> 'o \<times> (export_error + unit)" where
  "flush k w data out =
     (if write_failed w then (w, out, Inl Output_failed_before)
      else if int (length data) > streamsize_max then (w, out, Inl Batch_too_large)
      else case sink_result k (if gzip w then gzip_write k out data else (plain_write k out data, None)) of
        (out, Inl e) \<Rightarrow> (w\<lparr>write_failed := True\<rparr>, out, Inl e)
      | (out, Inr _) \<Rightarrow> (w, out, Inr ()))"

definition emit_batch :: "library \<Rightarrow> writer \<Rightarrow> cycle_batch \<Rightarrow> batch_graph \<Rightarrow> ref list \<Rightarrow> emission \<times> (export_error + unit)" where
  "emit_batch lib w b g order =
     then_emit (emit_each (emit_node lib w b g) order)
       (close_step w (\<lambda>run. cycle (run_node run) < bcycle b))
       \<lparr>stream = [], interns = new_pending (strings w), next_stalls = stalls w, additions = [],
        formatting = instructions w, group_cycle = None\<rparr>"

definition write_batch :: "library \<Rightarrow> 'o sink \<Rightarrow> writer \<Rightarrow> cycle_batch \<Rightarrow> 'o \<Rightarrow> writer \<times> 'o \<times> (export_error + unit)" where
  "write_batch lib k w b out =
     (case check_batch w b of
        Inl e \<Rightarrow> (w, out, Inl e)
      | Inr (g, order) \<Rightarrow>
          (case emit_batch lib w b g order of
             (s, Inl e) \<Rightarrow> (w\<lparr>instructions := formatting s\<rparr>, out, Inl e)
           | (s, Inr _) \<Rightarrow>
               (case flush k (w\<lparr>instructions := formatting s\<rparr>) (stream s) out of
                  (w, out, Inl e) \<Rightarrow> (w, out, Inl e)
                | (w, out, Inr _) \<Rightarrow>
                    (w\<lparr>strings := commit (interns s), stalls := next_stalls s,
                       known := om_merge (known w) (additions s), watermark := Some (bcycle b)\<rparr>, out, Inr ()))))"

text \<open>\<open>finish\<close>: every failure, also of the checks inside \<open>flush\<close>, marks the writer failed.\<close>

definition finish_open :: "'o sink \<Rightarrow> writer \<Rightarrow> 'o \<Rightarrow> writer \<times> 'o \<times> (export_error + unit)" where
  "finish_open k w out =
     (case close_stalls w (\<lambda>_. True) ([], new_pending (strings w), stalls w) of
        Inl e \<Rightarrow> (w, out, Inl e)
      | Inr (bs, ps, runs) \<Rightarrow>
          (let w = w\<lparr>stalls := runs\<rparr> in
           case flush k w bs out of
             (w, out, Inl e) \<Rightarrow> (w, out, Inl e)
           | (w, out, Inr _) \<Rightarrow>
               (let w = w\<lparr>strings := commit ps\<rparr> in
                case sink_result k (if gzip w then gzip_finish k out else (out, None)) of
                  (out, Inl e) \<Rightarrow> (w, out, Inl e)
                | (out, Inr _) \<Rightarrow> (w\<lparr>finished := True\<rparr>, out, Inr ()))))"

definition finish :: "'o sink \<Rightarrow> writer \<Rightarrow> 'o \<Rightarrow> writer \<times> 'o \<times> (export_error + unit)" where
  "finish k w out =
     (if write_failed w then (w, out, Inl Output_failed_before)
      else if finished w then (w, out, Inr ())
      else case finish_open k w out of
        (w, out, Inl e) \<Rightarrow> (w\<lparr>write_failed := True\<rparr>, out, Inl e)
      | r \<Rightarrow> r)"

end
