(* ===== verification/Perfetto_Order.thy ===== *)
theory Perfetto_Order
  imports Perfetto_Emit
begin

text \<open>
  What the validation of a batch establishes: exact timestamps, the declarative condition under
  which a batch is accepted, and the order in which its occurrences are emitted.
\<close>

section \<open>Timestamps\<close>

definition nanoseconds :: "writer \<Rightarrow> nat \<Rightarrow> nat" where
  "nanoseconds w c = c * 1000000000 div unat (clock_frequency_hz (wtiming w))"

lemma unat_ucast_64_128 [simp]: "unat (ucast (x::u64) :: u128) = unat x"
  using unat_lt64 [of x] by (simp add: unsigned_ucast_eq take_bit_nat_eq_self)

lemma unat_int64_max: "unat int64_max = 2 ^ 63 - 1"
  by (simp add: int64_max_def)

lemma timestamp_exact:
  assumes "unat c \<le> 2 ^ 64"
  shows "timestamp w c = (if nanoseconds w (unat c) < 2 ^ 63
    then Inr (of_nat (nanoseconds w (unat c))) else Inl Timestamp_overflow)"
proof -
  let ?f = "ucast (clock_frequency_hz (wtiming w)) :: u128"
  have "unat c * 1000000000 < 2 ^ 128"
    using mult_le_mono1 [OF assms, of 1000000000] by (rule le_less_trans) simp
  then have "unat (c * 1000000000) = unat c * 1000000000"
    by (simp add: unat_word_ariths)
  then have u: "unat (c * 1000000000 div ?f) = nanoseconds w (unat c)"
    by (simp add: unat_div nanoseconds_def)
  have "(c * 1000000000 div ?f \<le> ucast int64_max) = (nanoseconds w (unat c) < 2 ^ 63)"
    by (simp only: word_le_unat_iff u unat_ucast_64_128 unat_int64_max) auto
  moreover have "ucast (c * 1000000000 div ?f) = (of_nat (nanoseconds w (unat c)) :: u64)"
    by (simp only: u [symmetric]) simp
  ultimately show ?thesis by (simp add: timestamp_def Let_def)
qed

lemma unat_next_cycle: "unat (ucast (c::u64) + 1 :: u128) = unat c + 1"
  using unat_lt64 [of c] by (subst unat_add_no_wrap) simp_all

lemma timestamp_cycle:
  "timestamp w (ucast (c::u64)) = (if nanoseconds w (unat c) < 2 ^ 63
    then Inr (of_nat (nanoseconds w (unat c))) else Inl Timestamp_overflow)"
  using timestamp_exact [of "ucast c" w] unat_lt64 [of c] by simp

lemma timestamp_next:
  "timestamp w (ucast (c::u64) + 1) = (if nanoseconds w (unat c + 1) < 2 ^ 63
    then Inr (of_nat (nanoseconds w (unat c + 1))) else Inl Timestamp_overflow)"
  using timestamp_exact [of "ucast c + 1" w] unat_lt64 [of c] by (simp add: unat_next_cycle)

lemma nanoseconds_mono: "a \<le> b \<Longrightarrow> nanoseconds w a \<le> nanoseconds w b"
  by (simp add: nanoseconds_def div_le_mono)

section \<open>Acceptable nodes\<close>

definition words_complete :: "node \<Rightarrow> bool" where
  "words_complete n \<longleftrightarrow> length (words n) = (unat (width n) + 31) div 32
     \<and> (\<forall>i < length (words n). om_has (words n) (of_nat i))
     \<and> (unat (width n) mod 32 \<noteq> 0 \<longrightarrow> drop_bit (unat (width n) mod 32) (snd (last (words n))) = 0)"

definition later :: "u64 option \<Rightarrow> u64 \<Rightarrow> bool" where
  "later m c \<longleftrightarrow> (case m of None \<Rightarrow> True | Some m \<Rightarrow> m < c)"

definition node_acceptable :: "writer \<Rightarrow> cycle_batch \<Rightarrow> ref \<times> node \<Rightarrow> bool" where
  "node_acceptable w b e \<longleftrightarrow> (case e of (r, n) \<Rightarrow>
     \<not> om_has (known w) r \<and> unat (site r) < length (sites (desc w))
     \<and> cycle n \<le> bcycle b \<and> later (watermark w) (cycle n)
     \<and> present n \<and> width n = payload_widths (dmanifest (desc w)) ! unat (site r) \<and> words_complete n
     \<and> nanoseconds w (unat (cycle n) + 1) < 2 ^ 63)"

definition slot :: "writer \<Rightarrow> ref \<times> node \<Rightarrow> (u32 \<times> u64) option" where
  "slot w e = (if shared_tracks (desc w) ! unat (track_at w (fst e))
     then Some (track_at w (fst e), cycle (snd e)) else None)"

text \<open>No two occurrences take the same cycle of a shared track.\<close>

definition slots_apart :: "writer \<Rightarrow> (ref \<times> node) list \<Rightarrow> bool" where
  "slots_apart w ns \<longleftrightarrow> distinct (filter (\<lambda>s. s \<noteq> None) (map (slot w) ns))"

lemma check_batch_node_ok:
  "check_batch_node w (bcycle b) e occ = Inr occ' \<longleftrightarrow> node_acceptable w b e
     \<and> (\<forall>s. slot w e = Some s \<longrightarrow> s \<notin> set occ)
     \<and> occ' = (case slot w e of None \<Rightarrow> occ | Some s \<Rightarrow> s # occ)"
proof -
  obtain r n where e: "e = (r, n)" by (cases e)
  have mono: "nanoseconds w (unat (cycle n)) \<le> nanoseconds w (unat (cycle n) + 1)"
    by (rule nanoseconds_mono) simp
  show ?thesis
    unfolding check_batch_node_def e prod.case Let_def throw_if_eq_Inr bind_result_eq_Inr
      timestamp_cycle timestamp_next
    using mono
    by (auto simp: node_acceptable_def words_complete_def slot_def later_def not_le list_all_length
        split: option.splits if_splits)
qed

lemma check_nodes_ok:
  "(\<exists>occ'. emit_all (check_batch_node w (bcycle b)) ns occ = Inr occ') \<longleftrightarrow>
     list_all (node_acceptable w b) ns \<and> slots_apart w ns
     \<and> (\<forall>e \<in> set ns. \<forall>s. slot w e = Some s \<longrightarrow> s \<notin> set occ)"
proof (induction ns arbitrary: occ)
  case (Cons e ns)
  let ?occ = "case slot w e of None \<Rightarrow> occ | Some s \<Rightarrow> s # occ"
  have "(\<exists>occ'. emit_all (check_batch_node w (bcycle b)) (e # ns) occ = Inr occ') \<longleftrightarrow>
      node_acceptable w b e \<and> (\<forall>s. slot w e = Some s \<longrightarrow> s \<notin> set occ)
      \<and> (\<exists>occ'. emit_all (check_batch_node w (bcycle b)) ns ?occ = Inr occ')"
    by (auto simp: check_batch_node_ok)
  also have "\<dots> \<longleftrightarrow> list_all (node_acceptable w b) (e # ns) \<and> slots_apart w (e # ns)
     \<and> (\<forall>e \<in> set (e # ns). \<forall>s. slot w e = Some s \<longrightarrow> s \<notin> set occ)"
    unfolding Cons.IH
    by (cases "slot w e") (auto simp: slots_apart_def image_iff, metis)
  finally show ?case .
qed (simp add: slots_apart_def)

section \<open>Acceptable edges and the graph of the batch\<close>

definition edge_acceptable :: "writer \<Rightarrow> cycle_batch \<Rightarrow> edge \<Rightarrow> bool" where
  "edge_acceptable w b e \<longleftrightarrow> (case e of (p, c) \<Rightarrow>
     \<exists>n. om_find (bnodes b) c = Some n \<and> (site p, site c) \<in> set (dependencies (dmanifest (desc w)))
       \<and> (case om_find (bnodes b) p of
            Some pn \<Rightarrow> cycle pn \<le> cycle n
          | None \<Rightarrow> \<exists>i k. om_find (known w) p = Some (i, k) \<and> k \<le> cycle n))"

text \<open>The edges between occurrences of the batch.\<close>

definition inner_edges :: "cycle_batch \<Rightarrow> edge set \<Rightarrow> edge set" where
  "inner_edges b es = {e \<in> es. om_has (bnodes b) (fst e)}"

definition graph_of :: "cycle_batch \<Rightarrow> edge set \<Rightarrow> batch_graph \<Rightarrow> bool" where
  "graph_of b es g \<longleftrightarrow> finite es \<and> om_wf (parents g) \<and> om_wf (children g) \<and> om_wf (indegree g)
     \<and> (\<forall>r. os_wf (refs_of (parents g) r) \<and> set (refs_of (parents g) r) = {p. (p, r) \<in> es})
     \<and> (\<forall>r. os_wf (refs_of (children g) r) \<and> set (refs_of (children g) r) = {c. (r, c) \<in> inner_edges b es})
     \<and> (\<forall>r. om_has (indegree g) r \<longleftrightarrow> om_has (bnodes b) r)
     \<and> (\<forall>r. degree (indegree g) r = card {p. (p, r) \<in> inner_edges b es})"

lemma refs_of_put: "om_wf m \<Longrightarrow> refs_of (om_put k v m) r = (if r = k then v else refs_of m r)"
  by (simp add: refs_of_def om_find_put)

lemma find_fold_put:
  "om_wf m \<Longrightarrow> om_wf (fold (\<lambda>(r, n). om_put r 0) ns m)
    \<and> (\<forall>r. om_find (fold (\<lambda>(r, n). om_put r 0) ns m) r = (if r \<in> fst ` set ns then Some 0 else om_find m r))"
proof (induction ns arbitrary: m)
  case (Cons e ns)
  obtain r n where e: "e = (r, n)" by (cases e)
  show ?case using Cons.IH [OF om_wf_put [OF Cons.prems, of r 0]] Cons.prems by (auto simp: e om_find_put)
qed simp

lemma no_graph_ok: "graph_of b {} (no_graph (bnodes b))"
proof -
  let ?d = "fold (\<lambda>(r, n). om_put r 0) (bnodes b) [] :: (ref \<times> nat) list"
  have "om_wf ?d" "om_find ?d r = (if om_has (bnodes b) r then Some 0 else None)" for r
    unfolding om_has_iff using find_fold_put [of "[] :: (ref \<times> nat) list" "bnodes b"] by simp_all
  then show ?thesis
    by (auto simp: graph_of_def no_graph_def refs_of_def inner_edges_def degree_def)
qed

lemma check_batch_edge_ok:
  assumes g: "graph_of b es g" and new: "e \<notin> es"
  shows "(\<exists>g'. check_batch_edge w b e g = Inr g') \<longleftrightarrow> edge_acceptable w b e"
    and "check_batch_edge w b e g = Inr g' \<Longrightarrow> graph_of b (insert e es) g'"
proof -
  obtain p c where e: "e = (p, c)" by (cases e)
  show "(\<exists>g'. check_batch_edge w b e g = Inr g') \<longleftrightarrow> edge_acceptable w b e"
    by (auto simp: check_batch_edge_def edge_acceptable_def e Let_def split: option.splits)
  assume run: "check_batch_edge w b e g = Inr g'"
  define g1 where "g1 = g\<lparr>parents := om_put c (os_insert p (refs_of (parents g) c)) (parents g)\<rparr>"
  have g': "g' = (if om_find (bnodes b) p = None then g1
      else g1\<lparr>children := om_put p (os_insert c (refs_of (children g1) p)) (children g1),
        indegree := om_put c (degree (indegree g1) c + 1) (indegree g1)\<rparr>)"
    and c: "om_has (bnodes b) c"
    using run by (auto simp: check_batch_edge_def e Let_def g1_def split: option.splits if_splits)
  have inner: "inner_edges b (insert e es) =
      (if om_find (bnodes b) p = None then inner_edges b es else insert e (inner_edges b es))"
    by (auto simp: inner_edges_def e)
  have fin: "finite {q. (q, c) \<in> inner_edges b es}"
  proof -
    have "{q. (q, c) \<in> inner_edges b es} \<subseteq> fst ` es" by (force simp: inner_edges_def)
    with g show ?thesis by (meson finite_imageI finite_subset graph_of_def)
  qed
  have fresh: "p \<notin> {q. (q, c) \<in> inner_edges b es}" using new by (auto simp: inner_edges_def e)
  have card_c: "card {q. q = p \<or> (q, c) \<in> inner_edges b es} = Suc (card {q. (q, c) \<in> inner_edges b es})"
  proof -
    have "{q. q = p \<or> (q, c) \<in> inner_edges b es} = insert p {q. (q, c) \<in> inner_edges b es}" by auto
    then show ?thesis using fin fresh by simp
  qed
  have cards: "card {q. (q, r) \<in> insert (p, c) (inner_edges b es)} =
      (if r = c then Suc (card {q. (q, r) \<in> inner_edges b es}) else card {q. (q, r) \<in> inner_edges b es})" for r
  proof -
    have "{q. (q, r) \<in> insert (p, c) (inner_edges b es)} =
        (if r = c then insert p {q. (q, r) \<in> inner_edges b es} else {q. (q, r) \<in> inner_edges b es})"
      by auto
    with fin fresh show ?thesis by simp
  qed
  show "graph_of b (insert e es) g'"
    using g c fin fresh unfolding graph_of_def inner
    by (auto simp: g' g1_def refs_of_put om_wf_put om_find_put degree_put e cards card_c)
qed

lemma check_edges_ok:
  "graph_of b es g \<Longrightarrow> distinct xs \<Longrightarrow> set xs \<inter> es = {} \<Longrightarrow>
    ((\<exists>g'. emit_all (check_batch_edge w b) xs g = Inr g') \<longleftrightarrow> list_all (edge_acceptable w b) xs)
    \<and> (\<forall>g'. emit_all (check_batch_edge w b) xs g = Inr g' \<longrightarrow> graph_of b (es \<union> set xs) g')"
proof (induction xs arbitrary: es g)
  case (Cons e xs)
  then have new: "e \<notin> es" by auto
  show ?case
  proof (cases "edge_acceptable w b e")
    case True
    then obtain g1 where g1: "check_batch_edge w b e g = Inr g1"
      using check_batch_edge_ok(1) [OF Cons.prems(1) new] by blast
    have "graph_of b (insert e es) g1" by (rule check_batch_edge_ok(2) [OF Cons.prems(1) new g1])
    moreover have "distinct xs" "set xs \<inter> insert e es = {}" using Cons.prems by auto
    ultimately show ?thesis using Cons.IH [of "insert e es" g1] True g1 by simp
  next
    case False
    then obtain err where "check_batch_edge w b e g = Inl err"
      using check_batch_edge_ok(1) [OF Cons.prems(1) new] by (metis sum.exhaust)
    with False show ?thesis by simp
  qed
qed simp

section \<open>The order of emission\<close>

definition batch_key :: "cycle_batch \<Rightarrow> ref \<Rightarrow> u64" where
  "batch_key b r = cycle (node_at (bnodes b) r)"

definition batch_refs :: "cycle_batch \<Rightarrow> ref set" where
  "batch_refs b = fst ` set (bnodes b)"

lemma first_ready_ok:
  "os_wf s \<Longrightarrow> os_wf (fold (\<lambda>(r, n) s. if n = 0 then os_insert (f r, r) s else s) d s)
    \<and> set (fold (\<lambda>(r, n) s. if n = 0 then os_insert (f r, r) s else s) d s)
      = set s \<union> (\<lambda>r. (f r, r)) ` {r. (r, 0) \<in> set d}"
proof (induction d arbitrary: s)
  case (Cons e d)
  obtain r n where e: "e = (r, n)" by (cases e)
  show ?case using Cons.IH [of "if n = 0 then os_insert (f r, r) s else s"] Cons.prems by (auto simp: e)
qed simp

lemma degree_zero: "om_wf d \<Longrightarrow> om_has d r \<Longrightarrow> (r, 0) \<in> set d \<longleftrightarrow> degree d r = 0"
  by (auto simp: degree_def om_find_iff [symmetric])

lemma inner_range:
  "\<forall>e \<in> es. om_has (bnodes b) (snd e) \<Longrightarrow> inner_edges b es \<subseteq> batch_refs b \<times> batch_refs b"
  unfolding om_has_iff inner_edges_def batch_refs_def by force

lemma initial_kahn:
  assumes g: "graph_of b es g" and wf: "om_wf (bnodes b)"
    and ends: "\<forall>e \<in> es. om_has (bnodes b) (snd e)"
  shows "kahn_inv (batch_key b) (batch_refs b) (inner_edges b es) {} (indegree g) (first_ready (bnodes b) (indegree g))"
proof -
  let ?E = "inner_edges b es"
  have E: "?E \<subseteq> batch_refs b \<times> batch_refs b"
    by (rule inner_range [OF ends])
  have open0: "open_parents ?E {} c = {p. (p, c) \<in> ?E}" for c by (simp add: open_parents_def)
  have fin: "finite {p. (p, c) \<in> ?E}" for c
    using finite_open [of "batch_refs b" ?E "{}" c] E by (simp add: open0 batch_refs_def)
  have d: "om_wf (indegree g)" "om_has (indegree g) r \<longleftrightarrow> r \<in> batch_refs b"
    "degree (indegree g) r = card {p. (p, r) \<in> ?E}" for r
    using g unfolding graph_of_def batch_refs_def om_has_iff [symmetric] by blast+
  have "set (first_ready (bnodes b) (indegree g)) = (\<lambda>r. (batch_key b r, r)) ` {r. (r, 0) \<in> set (indegree g)}"
    using first_ready_ok [of "[]" "batch_key b" "indegree g"]
    unfolding first_ready_def batch_key_def [symmetric] by simp
  also have "{r. (r, 0) \<in> set (indegree g)} = {r \<in> batch_refs b - {}. open_parents ?E {} r = {}}"
  proof -
    have "(r, 0) \<in> set (indegree g) \<longleftrightarrow> r \<in> batch_refs b \<and> {p. (p, r) \<in> ?E} = {}" for r
      using degree_zero [OF d(1), of r] d(2,3) [of r] fin [of r] om_has_iff [of "indegree g" r] by force
    then show ?thesis by (simp add: open0)
  qed
  finally have "set (first_ready (bnodes b) (indegree g)) =
      (\<lambda>r. (batch_key b r, r)) ` {r \<in> batch_refs b - {}. open_parents ?E {} r = {}}" .
  moreover have "os_wf (first_ready (bnodes b) (indegree g))"
    using first_ready_ok [of "[]" "batch_key b" "indegree g"]
    unfolding first_ready_def batch_key_def [symmetric] by simp
  ultimately show ?thesis
    using E d unfolding kahn_inv_def open0 by (simp add: batch_refs_def)
qed

lemma card_batch_refs: "om_wf (bnodes b) \<Longrightarrow> card (batch_refs b) = length (bnodes b)"
  by (metis batch_refs_def distinct_card length_map list.set_map om_wf_def strict_sorted_iff)

lemma graph_children:
  "graph_of b es g \<Longrightarrow> distinct (refs_of (children g) r) \<and> set (refs_of (children g) r) = {c. (r, c) \<in> inner_edges b es}"
  by (simp add: graph_of_def strict_sorted_iff)

lemma batch_order_result:
  assumes "graph_of b es g" "om_wf (bnodes b)" "\<forall>e \<in> es. om_has (bnodes b) (snd e)"
  shows "topo_result (batch_key b) (batch_refs b) (inner_edges b es) {} (batch_order b g)"
  unfolding batch_order_def batch_key_def [symmetric]
  using card_batch_refs [OF assms(2)] graph_children [OF assms(1)] initial_kahn [OF assms]
  by (intro kahn_result) simp_all

lemma batch_order_complete:
  assumes "graph_of b es g" "om_wf (bnodes b)" "\<forall>e \<in> es. om_has (bnodes b) (snd e)"
  shows "length (batch_order b g) = length (bnodes b) \<longleftrightarrow> acyclic (inner_edges b es)"
proof -
  note result = batch_order_result [OF assms]
  have fin: "finite (batch_refs b)" by (simp add: batch_refs_def)
  have E: "inner_edges b es \<subseteq> batch_refs b \<times> batch_refs b"
    by (rule inner_range [OF assms(3)])
  have sub: "set (batch_order b g) \<subseteq> batch_refs b" "distinct (batch_order b g)"
    using result by (auto simp: topo_result_def)
  have "length (batch_order b g) = length (bnodes b) \<longleftrightarrow> set (batch_order b g) = batch_refs b"
    using sub fin card_batch_refs [OF assms(2)] by (metis card_subset_eq distinct_card)
  then show ?thesis
    using topo_complete_acyclic [OF result E] acyclic_topo_complete [OF result E fin] by blast
qed

section \<open>The batches that are accepted\<close>

definition batch_ok :: "writer \<Rightarrow> cycle_batch \<Rightarrow> bool" where
  "batch_ok w b \<longleftrightarrow> \<not> write_failed w \<and> \<not> finished w \<and> later (watermark w) (bcycle b)
     \<and> list_all (node_acceptable w b) (bnodes b) \<and> slots_apart w (bnodes b)
     \<and> list_all (edge_acceptable w b) (bedges b) \<and> acyclic (inner_edges b (set (bedges b)))"

text \<open>The maps of a batch: nodes and edges in the order of their containers.\<close>

definition batch_wf :: "cycle_batch \<Rightarrow> bool" where
  "batch_wf b \<longleftrightarrow> om_wf (bnodes b) \<and> os_wf (bedges b)"

lemma edge_child: "edge_acceptable w b e \<Longrightarrow> om_has (bnodes b) (snd e)"
  by (auto simp: edge_acceptable_def)

lemma check_batch_steps:
  "check_batch w b = Inr (g, order) \<longleftrightarrow> \<not> write_failed w \<and> \<not> finished w \<and> later (watermark w) (bcycle b)
     \<and> (\<exists>occ. emit_all (check_batch_node w (bcycle b)) (bnodes b) [] = Inr occ)
     \<and> emit_all (check_batch_edge w b) (bedges b) (no_graph (bnodes b)) = Inr g
     \<and> order = batch_order b g \<and> length order = length (bnodes b)"
  by (auto simp: check_batch_def later_def Let_def split: option.splits)

lemma check_batch_graph:
  assumes "batch_wf b" "check_batch w b = Inr (g, order)"
  shows "graph_of b (set (bedges b)) g \<and> list_all (edge_acceptable w b) (bedges b)
    \<and> list_all (node_acceptable w b) (bnodes b) \<and> order = batch_order b g \<and> length order = length (bnodes b)"
proof -
  note steps = assms(2) [unfolded check_batch_steps]
  have "distinct (bedges b)" using assms(1) by (simp add: batch_wf_def strict_sorted_iff)
  then have "graph_of b ({} \<union> set (bedges b)) g" "list_all (edge_acceptable w b) (bedges b)"
    using check_edges_ok [OF no_graph_ok, where xs = "bedges b" and b = b and w = w] steps by blast+
  moreover have "list_all (node_acceptable w b) (bnodes b)"
    using check_nodes_ok [where w = w and b = b and ns = "bnodes b" and occ = "[]"] steps by blast
  ultimately show ?thesis using steps by auto
qed

lemma check_batch_refs:
  assumes "batch_wf b" "check_batch w b = Inr (g, order)"
  shows "distinct order \<and> set order = batch_refs b"
proof -
  note ok = check_batch_graph [OF assms]
  have wf: "om_wf (bnodes b)" using assms(1) by (simp add: batch_wf_def)
  have ends: "\<forall>e \<in> set (bedges b). om_has (bnodes b) (snd e)"
    using ok edge_child by (metis list.pred_set)
  have g: "graph_of b (set (bedges b)) g" using ok by blast
  note result = batch_order_result [OF g wf ends, unfolded topo_result_def]
  have len: "length (batch_order b g) = card (batch_refs b)" using ok card_batch_refs [OF wf] by metis
  show ?thesis
    using ok result len card_subset_eq [of "batch_refs b" "set (batch_order b g)"]
    by (auto simp: distinct_card batch_refs_def)
qed

lemma check_batch_iff:
  assumes "batch_wf b"
  shows "(\<exists>r. check_batch w b = Inr r) \<longleftrightarrow> batch_ok w b"
proof -
  have d: "distinct (bedges b)" using assms by (simp add: batch_wf_def strict_sorted_iff)
  note edges = check_edges_ok [OF no_graph_ok, where xs = "bedges b" and b = b and w = w]
  have nodes: "(\<exists>occ. emit_all (check_batch_node w (bcycle b)) (bnodes b) [] = Inr occ)
      \<longleftrightarrow> list_all (node_acceptable w b) (bnodes b) \<and> slots_apart w (bnodes b)"
    using check_nodes_ok [where w = w and b = b and ns = "bnodes b" and occ = "[]"] by simp
  have complete: "length (batch_order b g) = length (bnodes b) \<longleftrightarrow> acyclic (inner_edges b (set (bedges b)))"
    if "emit_all (check_batch_edge w b) (bedges b) (no_graph (bnodes b)) = Inr g"
      "list_all (edge_acceptable w b) (bedges b)" for g
  proof (rule batch_order_complete)
    show "graph_of b (set (bedges b)) g" using edges d that by simp
    show "om_wf (bnodes b)" using assms by (simp add: batch_wf_def)
    show "\<forall>e \<in> set (bedges b). om_has (bnodes b) (snd e)"
      using that(2) edge_child by (metis list.pred_set)
  qed
  have "(\<exists>r. check_batch w b = Inr r) \<longleftrightarrow> \<not> write_failed w \<and> \<not> finished w \<and> later (watermark w) (bcycle b)
     \<and> (\<exists>occ. emit_all (check_batch_node w (bcycle b)) (bnodes b) [] = Inr occ)
     \<and> (\<exists>g. emit_all (check_batch_edge w b) (bedges b) (no_graph (bnodes b)) = Inr g
          \<and> length (batch_order b g) = length (bnodes b))"
    by (auto simp: check_batch_steps split_paired_Ex)
  also have "\<dots> \<longleftrightarrow> batch_ok w b"
    unfolding batch_ok_def nodes using edges d complete by auto
  finally show ?thesis .
qed

section \<open>An example\<close>

text \<open>Two sites, a transfer and a stall that observes it, and two occurrences of the transfer.\<close>

definition example_description :: description where
  "example_description = \<lparr>dmanifest = \<lparr>mjson = ''{}'', payload_widths = [0, 0], dependencies = [(0, 0), (0, 1)],
       mfields = []\<rparr>, top = ''t'',
     sites = [\<lparr>site_id = ''a'', site_label = ''a'', site_source = [], site_kind = ''transfer'', observation_of = []\<rparr>,
       \<lparr>site_id = ''b'', site_label = ''b'', site_source = [], site_kind = ''stall'', observation_of = ''a''\<rparr>],
     track_sites = [0, 0], shared_tracks = [True, False]\<rparr>"

definition example_writer :: writer where
  "example_writer = \<lparr>stalls = [], desc = example_description,
     wtiming = \<lparr>clock_frequency_hz = 1000, epoch_id = 0\<rparr>, instructions = new_formatting,
     strings = no_strings, can_parent = [True, False], known = [], watermark = Some 2,
     write_failed = False, finished = False, gzip = False\<rparr>"

definition empty_node :: "u64 \<Rightarrow> node" where
  "empty_node c = \<lparr>present = True, cycle = c, width = 0, words = []\<rparr>"

definition example_batch :: cycle_batch where
  "example_batch = \<lparr>bcycle = 9, bnodes = [(Ref 0 0, empty_node 4), (Ref 0 1, empty_node 3)],
     bedges = [(Ref 0 1, Ref 0 0)]\<rparr>"

lemma example_batch_wf: "batch_wf example_batch"
  by (simp add: batch_wf_def example_batch_def less_ref_def)

section \<open>Properties\<close>

text \<open>C32: the exporter accepts exactly the batches that its contract allows: an open writer, a later
  watermark, new complete occurrences of known sites inside the unfinished interval whose exact
  nanosecond times fit, one occurrence per cycle of a shared track, permitted edges from known or
  present parents that do not occur later, and no cycle of dependencies.\<close>

theorem perfetto_batch_accepted:
  assumes "batch_wf b"
  shows "(\<exists>g order. check_batch w b = Inr (g, order)) \<longleftrightarrow> batch_ok w b"
  using check_batch_iff [OF assms, of w] by (simp add: split_paired_Ex)

theorem perfetto_batch_accepted_witness: "batch_ok example_writer example_batch"
proof -
  have "case check_batch example_writer example_batch of Inl _ \<Rightarrow> False | Inr _ \<Rightarrow> True" by code_simp
  then obtain g order where "check_batch example_writer example_batch = Inr (g, order)"
    by (auto split: sum.splits)
  then show ?thesis using perfetto_batch_accepted [OF example_batch_wf, of example_writer] by blast
qed

text \<open>C33: the occurrences of an accepted batch are emitted each exactly once, in nondecreasing cycles
  and every one after its parents, which are earlier in the order or already streamed.\<close>

theorem perfetto_batch_order:
  assumes "batch_wf b" "check_batch w b = Inr (g, order)"
  shows "distinct order \<and> set order = fst ` set (bnodes b)
    \<and> sorted (map (\<lambda>r. cycle (node_at (bnodes b) r)) order)
    \<and> (\<forall>i < length order. \<forall>p. (p, order ! i) \<in> set (bedges b) \<longrightarrow> p \<in> set (take i order) \<or> om_has (known w) p)"
proof -
  note ok = check_batch_graph [OF assms] and dist = check_batch_refs [OF assms]
  have wf: "om_wf (bnodes b)" using assms(1) by (simp add: batch_wf_def)
  have ends: "\<forall>e \<in> set (bedges b). om_has (bnodes b) (snd e)"
    using ok edge_child by (metis list.pred_set)
  have g: "graph_of b (set (bedges b)) g" using ok by blast
  note result = batch_order_result [OF g wf ends, unfolded topo_result_def]
  have mono: "batch_key b p \<le> batch_key b c" if "(p, c) \<in> inner_edges b (set (bedges b))" for p c
    using ok that by (auto simp: inner_edges_def list_all_iff edge_acceptable_def batch_key_def node_at_def)
  have "sorted (map (\<lambda>r. cycle (node_at (bnodes b) r)) (batch_order b g))"
    unfolding batch_order_def batch_key_def [symmetric]
    using kahn_sorted [OF graph_children [OF g] mono initial_kahn [OF g wf ends], of 0] by simp
  moreover have "p \<in> set (take i order) \<or> om_has (known w) p"
    if i: "i < length order" "(p, order ! i) \<in> set (bedges b)" for i p
  proof (cases "om_has (bnodes b) p")
    case True
    then have "(p, batch_order b g ! i) \<in> inner_edges b (set (bedges b))"
      using i ok by (auto simp: inner_edges_def)
    then show ?thesis using result i ok by auto
  next
    case False
    then show ?thesis using ok i by (fastforce simp: list_all_iff edge_acceptable_def)
  qed
  ultimately show ?thesis using dist ok by (auto simp: batch_refs_def)
qed

theorem perfetto_batch_order_witness:
  "\<exists>g. check_batch example_writer example_batch = Inr (g, [Ref 0 1, Ref 0 0])
    \<and> set [Ref 0 1, Ref 0 0] = fst ` set (bnodes example_batch)"
proof -
  have "case check_batch example_writer example_batch of Inl _ \<Rightarrow> False | Inr (g, order) \<Rightarrow> order = [Ref 0 1, Ref 0 0]"
    by code_simp
  then obtain g where g: "check_batch example_writer example_batch = Inr (g, [Ref 0 1, Ref 0 0])"
    by (auto split: sum.splits)
  from perfetto_batch_order [OF example_batch_wf g] have
    "set [Ref 0 1, Ref 0 0] = fst ` set (bnodes example_batch)" by blast
  with g show ?thesis by blast
qed

end
