(* ===== verification/Perfetto_Failure.thy ===== *)
theory Perfetto_Failure
  imports Perfetto_Order
begin

text \<open>
  Failures of \<open>write\<close>: a batch that is refused leaves the writer and the output as they were, and a
  failed output closes the writer for good.
\<close>

lemma flush_error:
  "flush k w data out = (w', out', Inl e) \<Longrightarrow>
    w' = w \<and> out' = out \<or> w' = w\<lparr>write_failed := True\<rparr>"
  by (auto simp: flush_def split: if_splits sum.splits prod.splits)

lemma flush_ok: "flush k w data out = (w', out', Inr u) \<Longrightarrow> w' = w"
  by (auto simp: flush_def split: if_splits sum.splits prod.splits)

lemma write_batch_error:
  assumes "write_batch lib k w b out = (w', out', Inl e)"
  shows "\<exists>fmt. (w' = w\<lparr>instructions := fmt\<rparr> \<and> out' = out)
    \<or> w' = w\<lparr>instructions := fmt, write_failed := True\<rparr>"
proof (cases "check_batch w b")
  case (Inl e')
  with assms show ?thesis by (auto simp: write_batch_def intro: exI [of _ "instructions w"])
next
  case (Inr r)
  obtain g order where r: "r = (g, order)" by (cases r)
  obtain s res where s: "emit_batch lib w b g order = (s, res)" by (cases "emit_batch lib w b g order")
  let ?w = "w\<lparr>instructions := formatting s\<rparr>"
  show ?thesis
  proof (cases res)
    case Inl
    with assms s \<open>check_batch w b = Inr r\<close> show ?thesis by (auto simp: write_batch_def r)
  next
    case (Inr u)
    obtain w1 out1 res1 where f: "flush k ?w (stream s) out = (w1, out1, res1)" by (metis prod.exhaust)
    have "flush k ?w (stream s) out = (w', out', Inl e)"
      using assms s f \<open>check_batch w b = Inr r\<close> \<open>res = Inr u\<close>
      by (auto simp: write_batch_def r split: sum.splits)
    from flush_error [OF this] show ?thesis by (intro exI [of _ "formatting s"]) auto
  qed
qed

lemma failed_writer:
  "write_failed w \<Longrightarrow> write_batch lib k w b out = (w, out, Inl Output_failed_before)
    \<and> finish k w out = (w, out, Inl Output_failed_before)"
  by (simp add: write_batch_def check_batch_def finish_def)

section \<open>Properties\<close>

text \<open>C34: a write that throws has no half effect: either nothing but the instruction cache has changed
  and nothing was written, or the output itself failed, and then the writer is closed for good:
  every later write and finish refuses at once, without touching writer or output.\<close>

theorem perfetto_write_failure:
  assumes "write_batch lib k w b out = (w', out', Inl e)"
  shows "\<exists>fmt. (w' = w\<lparr>instructions := fmt\<rparr> \<and> out' = out)
    \<or> (w' = w\<lparr>instructions := fmt, write_failed := True\<rparr>
       \<and> (\<forall>b. write_batch lib k w' b out' = (w', out', Inl Output_failed_before))
       \<and> finish k w' out' = (w', out', Inl Output_failed_before))"
proof -
  obtain fmt where "(w' = w\<lparr>instructions := fmt\<rparr> \<and> out' = out)
    \<or> w' = w\<lparr>instructions := fmt, write_failed := True\<rparr>"
    using write_batch_error [OF assms] by blast
  then show ?thesis
  proof
    assume w': "w' = w\<lparr>instructions := fmt, write_failed := True\<rparr>"
    then have "write_failed w'" by simp
    then have "\<forall>b. write_batch lib k w' b out' = (w', out', Inl Output_failed_before)"
      "finish k w' out' = (w', out', Inl Output_failed_before)" by (simp_all add: failed_writer)
    with w' show ?thesis by (intro exI [of _ fmt] disjI2) blast
  next
    assume "w' = w\<lparr>instructions := fmt\<rparr> \<and> out' = out"
    then show ?thesis by (intro exI [of _ fmt] disjI1)
  qed
qed

text \<open>An output that takes nothing.\<close>

definition example_library :: library where
  "example_library = \<lparr>spike_lib = example_spike, dump_words = (\<lambda>ws. ''[]'')\<rparr>"

definition broken_sink :: "nat sink" where
  "broken_sink = \<lparr>plain_write = (\<lambda>n bs. n + 1), gzip_write = (\<lambda>n bs. (n, None)), gzip_finish = (\<lambda>n. (n, None)),
     stream_flush = (\<lambda>n. n), stream_good = (\<lambda>n. False)\<rparr>"

definition empty_batch :: cycle_batch where
  "empty_batch = \<lparr>bcycle = 3, bnodes = [], bedges = []\<rparr>"

theorem perfetto_write_failure_witness:
  "\<exists>w. write_batch example_library broken_sink example_writer empty_batch 0 = (w, 1, Inl Output_write_failed)
    \<and> finish broken_sink w 1 = (w, 1, Inl Output_failed_before)"
proof -
  define w where "w = example_writer\<lparr>write_failed := True\<rparr>"
  have empty: "bnodes empty_batch = []" "bedges empty_batch = []" "bcycle empty_batch = 3"
    by (simp_all add: empty_batch_def)
  have check: "check_batch example_writer empty_batch = Inr (no_graph [], [])"
    by (simp add: check_batch_def empty example_writer_def batch_order_def no_graph_def first_ready_def)
  have "write_batch example_library broken_sink example_writer empty_batch 0 = (w, 1, Inl Output_write_failed)"
    unfolding write_batch_def check sum.case prod.case
    by (simp add: emit_batch_def then_emit_def close_step_def close_stalls_def endings_def flush_def sink_result_def
        broken_sink_def example_writer_def w_def streamsize_max_def Let_def)
  moreover from perfetto_write_failure [OF this] have "finish broken_sink w 1 = (w, 1, Inl Output_failed_before)"
    by (auto simp: w_def example_writer_def)
  ultimately show ?thesis by blast
qed

end
