(* ===== verification/Perfetto_Export.thy ===== *)
theory Perfetto_Export
  imports Perfetto_Emit Rheg_Invariant
begin

text \<open>
  Construction of a writer with the run metadata and track descriptors it sends first, reading a
  saved trace back through the collector, and the snapshot export with its command line.
\<close>

section \<open>Descriptors\<close>

text \<open>The JSON values the constructor builds; turning one into text is the library's.\<close>

datatype json_tree =
    Tree_number nat
  | Tree_string string
  | Tree_bool bool
  | Tree_array "json_tree list"
  | Tree_object "(string \<times> json_tree) list"

definition field_tree :: "field \<Rightarrow> json_tree" where
  "field_tree f = Tree_object
     ([(''name'', Tree_string (fname f)), (''width'', Tree_number (unat (fwidth f))),
       (''offset'', Tree_number (unat (foffset f))), (''encoding'', Tree_string (encoding f))]
      @ (if encoding f = ''riscv'' then [(''isa'', Tree_string (isa f)), (''pc'', Tree_string (pc f))] else [])
      @ (if encoding f = ''enum''
         then [(''symbols'', Tree_array (map (\<lambda>(v, s). Tree_object
                [(''value'', Tree_string (show_word v)), (''name'', Tree_string s)]) (symbols f)))]
         else [])
      @ (if label f then [(''label'', Tree_bool True)] else []))"

definition site_members :: "description \<Rightarrow> nat \<Rightarrow> (string \<times> json_tree) list" where
  "site_members d i =
     (let s = sites d ! i; m = dmanifest d in
       [(''site'', Tree_number i), (''site_id'', Tree_string (site_id s)),
        (''source_location'', Tree_string (site_source s)),
        (''payload_width'', Tree_number (unat (payload_widths m ! i))),
        (''kind'', Tree_string (site_kind s))]
       @ (if site_kind s = ''stall'' then [(''observation_of'', Tree_string (observation_of s))] else [])
       @ (if mfields m \<noteq> [] then [(''fields'', Tree_array (map field_tree (mfields m ! i)))] else []))"

text \<open>The description of a track: its site, and the sites observed on it when it is shared.\<close>

definition track_tree :: "description \<Rightarrow> nat \<Rightarrow> json_tree" where
  "track_tree d i = Tree_object
     (site_members d i
      @ (if shared_tracks d ! i
         then [(''observations'', Tree_array (map (\<lambda>j. Tree_object (site_members d j))
                (filter (\<lambda>j. j \<noteq> i \<and> track_of d j = i) [0..<length (sites d)])))]
         else []))"

definition metadata_item :: "string \<times> u64 \<Rightarrow> u8 list" where
  "metadata_item e = bytes_field 2 (bytes_field 1 (octets (fst e)) @ bytes_field 2 (octets (show_word (snd e))))"

definition metadata_packet :: "trace_timing \<Rightarrow> u8 list" where
  "metadata_packet t = packet (integer 10 1 @ integer 13 1 @ bytes_field 5
     (metadata_item (''rheg.clock_frequency_hz'', clock_frequency_hz t)
      @ metadata_item (''rheg.epoch_id'', epoch_id t)))"

definition group_packet :: "description \<Rightarrow> u8 list" where
  "group_packet d = packet (bytes_field 60 (integer 1 (of_nat (length (sites d) + 1))
     @ bytes_field 2 (octets (top d)) @ integer 11 1 @ integer 15 2))"

definition track_packet :: "(json_tree \<Rightarrow> string) \<Rightarrow> description \<Rightarrow> nat \<Rightarrow> u8 list" where
  "track_packet show_tree d i =
     (if track_of d i \<noteq> i then []
      else packet (bytes_field 60 (integer 1 (of_nat (i + 1)) @ integer 5 (of_nat (length (sites d) + 1))
        @ bytes_field 2 (octets (site_label (sites d ! i))) @ integer 15 2
        @ bytes_field 14 (octets (show_tree (track_tree d i))))))"

definition header_packets :: "(json_tree \<Rightarrow> string) \<Rightarrow> description \<Rightarrow> trace_timing \<Rightarrow> u8 list" where
  "header_packets show_tree d t =
     metadata_packet t @ group_packet d @ concat (map (track_packet show_tree d) [0..<length (sites d)])"

section \<open>Construction\<close>

datatype compression = No_compression | Gzip | Other_compression nat

text \<open>The gzip encoder may fail to initialise.\<close>

record ('j, 'o) export_env =
  json_lib :: "'j json_api"
  indented :: "json_tree \<Rightarrow> string"
  lib :: library
  out_sink :: "'o sink"
  gzip_starts :: bool

fun prepare_all :: "spike \<Rightarrow> field list \<Rightarrow> riscv_formatting \<Rightarrow> export_error + riscv_formatting" where
  "prepare_all sp [] r = Inr r"
| "prepare_all sp (f # fs) r =
     (if encoding f = ''riscv'' then bind_result (prepare sp (isa f) r) (prepare_all sp fs)
      else prepare_all sp fs r)"

definition parents_allowed :: "description \<Rightarrow> bool list" where
  "parents_allowed d = fold (\<lambda>e bs. bs[unat (fst e) := True]) (dependencies (dmanifest d))
     (replicate (length (sites d)) False)"

definition new_writer ::
  "('j, 'o) export_env \<Rightarrow> manifest \<Rightarrow> trace_timing \<Rightarrow> compression \<Rightarrow> 'o \<Rightarrow> 'o \<times> (export_error + writer)" where
  "new_writer env m t z out =
     (let start =
        bind_result (parse (json_lib env) (mjson m) False) (\<lambda>j.
        bind_result (describe (json_lib env) j) (\<lambda>d.
        if clock_frequency_hz t = 0 then Inl Frequency_required
        else if payload_widths (dmanifest d) \<noteq> payload_widths m
          \<or> dependencies (dmanifest d) \<noteq> dependencies m \<or> mfields (dmanifest d) \<noteq> mfields m
        then Inl Descriptor_differs
        else bind_result (prepare_all (spike_lib (lib env)) (concat (mfields m)) new_formatting) (\<lambda>fmt.
          if z \<noteq> No_compression \<and> z \<noteq> Gzip then Inl Unsupported_compression
          else if z = Gzip \<and> \<not> gzip_starts env then Inl Gzip_failed
          else Inr \<lparr>stalls = [], desc = d, wtiming = t, instructions = fmt, strings = no_strings,
            can_parent = parents_allowed d, known = [], watermark = None, write_failed = False,
            finished = False, gzip = (z = Gzip)\<rparr>)))
      in case start of
           Inl e \<Rightarrow> (out, Inl e)
         | Inr w \<Rightarrow>
             (case flush (out_sink env) w (header_packets (indented env) (desc w) t) out of
                (_, out, Inl e) \<Rightarrow> (out, Inl e)
              | (w, out, Inr _) \<Rightarrow> (out, Inr w)))"

section \<open>Reading a saved trace\<close>

text \<open>A collector call that must succeed.\<close>

definition graph_call :: "'a graph_result \<Rightarrow> export_error + graph" where
  "graph_call r = (case snd r of Inl e \<Rightarrow> Inl (Collector e) | Inr _ \<Rightarrow> Inr (fst r))"

fun fold_result :: "('a \<Rightarrow> 's \<Rightarrow> export_error + 's) \<Rightarrow> 'a list \<Rightarrow> 's \<Rightarrow> export_error + 's" where
  "fold_result f [] s = Inr s"
| "fold_result f (x # xs) s = bind_result (f x s) (fold_result f xs)"

definition read_word :: "'j json_api \<Rightarrow> ref \<Rightarrow> 'j \<Rightarrow> graph \<times> u32 \<Rightarrow> export_error + graph \<times> u32" where
  "read_word api r j s = (case s of (g, i) \<Rightarrow>
     bind_result (number32 api j) (\<lambda>w.
     bind_result (graph_call (record_payload g r i w)) (\<lambda>g. Inr (g, i + 1))))"

definition read_node :: "'j json_api \<Rightarrow> 'j \<Rightarrow> graph \<Rightarrow> export_error + graph" where
  "read_node api j g =
     bind_result (number32_at api j ''site'') (\<lambda>s.
     bind_result (number_at api j ''sequence'') (\<lambda>q.
     bind_result (number_at api j ''cycle'') (\<lambda>c.
     bind_result (number32_at api j ''width'') (\<lambda>w.
     bind_result (graph_call (record_node g (Ref s q) c w)) (\<lambda>g.
     bind_result (at_member api j ''words'') (\<lambda>ws.
     bind_result (elements_or api Invalid_payload_words ws) (\<lambda>ws.
       if int (length ws) > 4294967295 then Inl Invalid_payload_words
       else bind_result (fold_result (read_word api (Ref s q)) ws (g, 0)) (\<lambda>(g, _). Inr g))))))))"

definition read_edge :: "'j json_api \<Rightarrow> 'j \<Rightarrow> graph \<Rightarrow> export_error + graph" where
  "read_edge api j g =
     bind_result (at_member api j ''parent'') (\<lambda>p.
     bind_result (read_ref api p) (\<lambda>p.
     bind_result (at_member api j ''child'') (\<lambda>c.
     bind_result (read_ref api c) (\<lambda>c. graph_call (record_edge g p c)))))"

definition read_timing :: "'j json_api \<Rightarrow> 'j \<Rightarrow> graph \<Rightarrow> export_error + graph" where
  "read_timing api j g =
     bind_result (number_at api j ''clock_frequency_hz'') (\<lambda>f.
     bind_result (number_at api j ''epoch_id'') (\<lambda>e.
       graph_call (bind_timing g \<lparr>clock_frequency_hz = f, epoch_id = e\<rparr>)))"

definition check_origin :: "'j json_api \<Rightarrow> 'j \<Rightarrow> export_error + unit" where
  "check_origin api j =
     bind_result (at_member api j ''origin'') (\<lambda>v.
       if string_value api v = Some ''cycle-zero'' then Inr () else Inl Unsupported_origin)"

definition read_occurrences :: "'j json_api \<Rightarrow> 'j \<Rightarrow> graph \<Rightarrow> export_error + graph" where
  "read_occurrences api j g =
     bind_result (format api j ''rhodium-event-occurrences'') (\<lambda>_.
     bind_result (at_member api j ''nodes'') (\<lambda>ns.
     bind_result (elements_or api Occurrences_not_arrays ns) (\<lambda>ns.
     bind_result (at_member api j ''edges'') (\<lambda>es.
     bind_result (elements_or api Occurrences_not_arrays es) (\<lambda>es.
     bind_result (fold_result (read_node api) ns g) (fold_result (read_edge api) es))))))"

definition read_event_trace :: "'j json_api \<Rightarrow> string \<Rightarrow> bool \<Rightarrow> export_error + snapshot" where
  "read_event_trace api input input_bad =
     bind_result (parse api input input_bad) (\<lambda>j.
     bind_result (format api j ''rhodium-event-trace'') (\<lambda>_.
     bind_result (at_member api j ''manifest'') (\<lambda>mj.
     bind_result (describe api mj) (\<lambda>d.
     bind_result (at_member api j ''timing'') (\<lambda>tj.
     bind_result (check_origin api tj) (\<lambda>_.
     bind_result (graph_call (bind_manifest new_graph (dmanifest d))) (\<lambda>g.
     bind_result (read_timing api tj g) (\<lambda>g.
     bind_result (at_member api j ''occurrences'') (\<lambda>oj.
     bind_result (read_occurrences api oj g) (\<lambda>g.
       collector (graph_snapshot g)))))))))))"

section \<open>Snapshot export\<close>

definition snapshot_batch :: "snapshot \<Rightarrow> cycle_batch" where
  "snapshot_batch h = \<lparr>bcycle = fold (\<lambda>e c. max c (cycle (snd e))) (nodes h) 0,
     bnodes = nodes h, bedges = edges h\<rparr>"

definition write_perfetto ::
  "('j, 'o) export_env \<Rightarrow> snapshot \<Rightarrow> compression \<Rightarrow> 'o \<Rightarrow> 'o \<times> (export_error + unit)" where
  "write_perfetto env h z out =
     (case (gtiming h, gmanifest h) of
        (Some t, Some m) \<Rightarrow>
          (case new_writer env m t z out of
             (out, Inl e) \<Rightarrow> (out, Inl e)
           | (out, Inr w) \<Rightarrow>
               (case write_batch (lib env) (out_sink env) w (snapshot_batch h) out of
                  (w, out, Inl e) \<Rightarrow> (out, Inl e)
                | (w, out, Inr _) \<Rightarrow> snd (finish (out_sink env) w out)))
      | _ \<Rightarrow> (out, Inl Requires_timing))"

text \<open>The command line: the option and the file, or \<open>None\<close> for a usage error.\<close>

definition export_arguments :: "string list \<Rightarrow> (bool \<times> string) option" where
  "export_arguments args =
     (let gz = length args = 3 \<and> args ! 1 = ''--gzip'' in
      if (\<not> gz \<and> length args \<noteq> 2) \<or> (length args = 2 \<and> take 2 (args ! 1) = ''--'') then None
      else Some (gz, args ! (if gz then 2 else 1)))"

text \<open>\<open>main\<close>: the file system gives the contents of a path and whether reading failed.\<close>

definition export_main ::
  "('j, 'o) export_env \<Rightarrow> (string \<Rightarrow> (string \<times> bool) option) \<Rightarrow> string list \<Rightarrow> 'o \<Rightarrow> 'o \<times> nat" where
  "export_main env files args out =
     (case export_arguments args of
        None \<Rightarrow> (out, 2)
      | Some (gz, path) \<Rightarrow>
          (case files path of
             None \<Rightarrow> (out, 1)
           | Some (input, input_bad) \<Rightarrow>
               (case read_event_trace (json_lib env) input input_bad of
                  Inl e \<Rightarrow> (out, 1)
                | Inr h \<Rightarrow>
                    (case write_perfetto env h (if gz then Gzip else No_compression) out of
                       (out, Inl e) \<Rightarrow> (out, 1)
                     | (out, Inr _) \<Rightarrow> (out, 0)))))"

end
