(* ===== verification/Rheg_Sim.thy ===== *)
theory Rheg_Sim
  imports Perfetto_Export
begin

text \<open>
  The simulation bridge \<open>sims/verilator/rheg_dpi.cc\<close>: one collector, one output file and at most one
  open writer; each cycle the collector settles is written at once. The manifest and the clock
  frequency are generated with the RTL, and the file is the operating system's: all are arguments.
\<close>

section \<open>State\<close>

record ('j, 'o) sim_env =
  exporter :: "('j, 'o) export_env"
  generated_manifest :: manifest
  generated_frequency :: u64
  open_output :: "'o \<Rightarrow> string \<Rightarrow> 'o"
  close_output :: "'o \<Rightarrow> 'o"

record 'o sim =
  sim_writer :: "writer option"
  sim_graph :: graph
  sim_output :: 'o

definition new_sim :: "'o \<Rightarrow> 'o sim" where
  "new_sim out = \<lparr>sim_writer = None, sim_graph = new_graph, sim_output = out\<rparr>"

definition sim_good :: "('j, 'o) sim_env \<Rightarrow> 'o sim \<Rightarrow> bool" where
  "sim_good env s \<longleftrightarrow> stream_good (out_sink (exporter env)) (sim_output s)"

section \<open>Entry points\<close>

text \<open>A call on the collector; its new state is kept also when it throws.\<close>

definition on_graph :: "(graph \<Rightarrow> 'a graph_result) \<Rightarrow> 'o sim \<Rightarrow> 'o sim \<times> 'a option" where
  "on_graph f s = (case f (sim_graph s) of
     (g, Inl e) \<Rightarrow> (s\<lparr>sim_graph := g\<rparr>, None)
   | (g, Inr a) \<Rightarrow> (s\<lparr>sim_graph := g\<rparr>, Some a))"

definition file_compression :: "string \<Rightarrow> compression" where
  "file_compression path =
     (if length path \<ge> 3 \<and> drop (length path - 3) path = ''.gz'' then Gzip else No_compression)"

definition start_writer :: "('j, 'o) sim_env \<Rightarrow> string \<Rightarrow> snapshot \<Rightarrow> 'o sim \<Rightarrow> 'o sim \<times> nat" where
  "start_writer env path header s =
     (case (gmanifest header, gtiming header) of
        (Some m, Some t) \<Rightarrow>
          (case new_writer (exporter env) m t (file_compression path) (sim_output s) of
             (out, Inl e) \<Rightarrow> (s\<lparr>sim_output := out\<rparr>, 1)
           | (out, Inr w) \<Rightarrow> (s\<lparr>sim_output := out, sim_writer := Some w\<rparr>, 0))
      | _ \<Rightarrow> (s, 1))"

definition rheg_sim_open :: "('j, 'o) sim_env \<Rightarrow> string \<Rightarrow> 'o sim \<Rightarrow> 'o sim \<times> nat" where
  "rheg_sim_open env path s =
     (if sim_writer s \<noteq> None then (s, 1)
      else let s = s\<lparr>sim_output := open_output env (sim_output s) path\<rparr> in
        if \<not> sim_good env s then (s, 1)
        else case on_graph (\<lambda>g. bind_manifest g (generated_manifest env)) s of
          (s, None) \<Rightarrow> (s, 1)
        | (s, Some _) \<Rightarrow>
            (case on_graph (\<lambda>g. bind_timing g \<lparr>clock_frequency_hz = generated_frequency env, epoch_id = 0\<rparr>) s of
               (s, None) \<Rightarrow> (s, 1)
             | (s, Some _) \<Rightarrow>
                 (case on_graph begin_stream s of
                    (s, None) \<Rightarrow> (s, 1)
                  | (s, Some header) \<Rightarrow> start_writer env path header s)))"

definition rheg_sim_cycle :: "('j, 'o) sim_env \<Rightarrow> u64 \<Rightarrow> 'o sim \<Rightarrow> 'o sim \<times> nat" where
  "rheg_sim_cycle env c s =
     (case sim_writer s of
        None \<Rightarrow> (s, 1)
      | Some w \<Rightarrow>
          (case on_graph (\<lambda>g. finish_cycle g c) s of
             (s, None) \<Rightarrow> (s, 1)
           | (s, Some b) \<Rightarrow>
               (case write_batch (lib (exporter env)) (out_sink (exporter env)) w b (sim_output s) of
                  (w, out, r) \<Rightarrow>
                    (s\<lparr>sim_writer := Some w, sim_output := out\<rparr>, case r of Inl _ \<Rightarrow> 1 | Inr _ \<Rightarrow> 0))))"

definition rheg_sim_close :: "('j, 'o) sim_env \<Rightarrow> 'o sim \<Rightarrow> 'o sim \<times> nat" where
  "rheg_sim_close env s =
     (case sim_writer s of
        None \<Rightarrow> (s, 1)
      | Some w \<Rightarrow>
          (case on_graph end_stream s of
             (s, None) \<Rightarrow> (s, 1)
           | (s, Some _) \<Rightarrow>
               (case finish (out_sink (exporter env)) w (sim_output s) of
                  (w, out, Inl e) \<Rightarrow> (s\<lparr>sim_writer := Some w, sim_output := out\<rparr>, 1)
                | (w, out, Inr _) \<Rightarrow>
                    (let s = s\<lparr>sim_writer := None, sim_output := close_output env out\<rparr>
                     in (s, if sim_good env s then 0 else 1)))))"

end
