(* ===== verification/Memory_Sites.thy ===== *)
theory Memory_Sites
  imports Rheg_Schema "HOL-Library.List_Lexorder" "HOL-Library.Char_ord"
begin

unbundle bit_operations_syntax

text \<open>
  The two compiler passes of \<open>sram/circt/MemorySitePass.cpp\<close>: one makes a module the public top, the
  other finds the occurrences of generated memories in a flattened top, looks each up in a policy
  and retargets the selected ones to external SRAM wrappers. An operation of the intermediate
  representation is its kind, its attribute dictionary in key order and, for a module, the
  dictionaries of the instances in its body in the order of the walk. Building an external module
  from a port list is CIRCT's, reading YAML and the file system are LLVM's: arguments.
\<close>

section \<open>The intermediate representation\<close>

datatype 'a attribute = Text_attr string | Symbol_attr string | Other_attr 'a

type_synonym 'a dictionary = "(string \<times> 'a attribute) list"

datatype operation_kind = Hw_module | Hw_generated | Hw_extern | Other_operation

record 'a operation =
  operation_kind :: operation_kind
  attributes :: "'a dictionary"
  instances :: "'a dictionary list"

definition text_attr :: "'a dictionary \<Rightarrow> string \<Rightarrow> string" where
  "text_attr d k = (case om_find d k of Some (Text_attr s) \<Rightarrow> s | _ \<Rightarrow> [])"

definition symbol_attr :: "'a dictionary \<Rightarrow> string \<Rightarrow> string" where
  "symbol_attr d k = (case om_find d k of Some (Symbol_attr s) \<Rightarrow> s | _ \<Rightarrow> [])"

definition symbol_name :: "'a operation \<Rightarrow> string option" where
  "symbol_name op = (case om_find (attributes op) ''sym_name'' of Some (Text_attr s) \<Rightarrow> Some s | _ \<Rightarrow> None)"

text \<open>\<open>SymbolTable::lookup\<close>: by name, and by name and kind. Public is the default visibility.\<close>

definition lookup_symbol :: "'a operation list \<Rightarrow> string \<Rightarrow> 'a operation option" where
  "lookup_symbol ops s = List.find (\<lambda>op. symbol_name op = Some s) ops"

definition lookup_kind :: "operation_kind \<Rightarrow> 'a operation list \<Rightarrow> string \<Rightarrow> 'a operation option" where
  "lookup_kind k ops s =
     (case lookup_symbol ops s of None \<Rightarrow> None | Some op \<Rightarrow> if operation_kind op = k then Some op else None)"

definition set_visibility :: "bool \<Rightarrow> 'a operation \<Rightarrow> 'a operation" where
  "set_visibility public op = op\<lparr>attributes :=
     (if public then om_erase ''sym_visibility'' (attributes op)
      else om_put ''sym_visibility'' (Text_attr ''private'') (attributes op))\<rparr>"

section \<open>Selecting the top\<close>

datatype site_error =
    No_top_option                                   \<comment> \<open>requires top=<module>\<close>
  | No_hw_top string                                \<comment> \<open>cannot find HW top module\<close>
  | No_policy_path                                  \<comment> \<open>requires policy=<file>\<close>
  | Unreadable_policy string                        \<comment> \<open>cannot read memory policy\<close>
  | Unparsed_policy string                          \<comment> \<open>cannot parse memory policy\<close>
  | Wrong_schema_version                            \<comment> \<open>schema_version must be 1\<close>
  | Empty_policy_top                                \<comment> \<open>top must not be empty\<close>
  | Wrong_default                                   \<comment> \<open>default must be 'infer'\<close>
  | Empty_site_path                                 \<comment> \<open>contains an empty site path\<close>
  | Empty_decision string                           \<comment> \<open>decision must not be empty\<close>
  | Bad_scope_prefix                                \<comment> \<open>must not start or end with '/'\<close>
  | No_mapping_top string                           \<comment> \<open>cannot find mapping top module\<close>
  | Duplicate_sites "string list"                   \<comment> \<open>duplicate canonical memory site\<close>
  | Unknown_sites "string list" "string list"       \<comment> \<open>names unknown site, available sites\<close>
  | Wrapper_collision string string                 \<comment> \<open>generated SRAM wrapper symbol collision\<close>
  | No_inventory_path                               \<comment> \<open>requires an inventory path\<close>
  | No_inventory_directory string                   \<comment> \<open>cannot create memory inventory directory\<close>
  | Unwritable_inventory string                     \<comment> \<open>cannot write memory inventory\<close>

definition select_hw_top :: "string \<Rightarrow> 'a operation list \<Rightarrow> 'a operation list \<times> (site_error + unit)" where
  "select_hw_top wanted ops =
     (if wanted = [] then (ops, Inl No_top_option)
      else
        (map (\<lambda>op. if operation_kind op = Hw_module
                   then set_visibility (symbol_name op = Some wanted) op else op) ops,
         if \<exists>op\<in>set ops. operation_kind op = Hw_module \<and> symbol_name op = Some wanted
         then Inr () else Inl (No_hw_top wanted)))"

section \<open>Policies\<close>

record memory_policy =
  schema_version :: u32
  policy_top :: string
  default_decision :: string
  policy_sites :: "(string \<times> string) list"

text \<open>What the file system and the YAML reader answer for a path.\<close>

datatype policy_source = Unreadable | Unparsed | Policy_text memory_policy

definition check_policy_site :: "string \<times> string \<Rightarrow> site_error + unit" where
  "check_policy_site e =
     (if fst e = [] then Inl Empty_site_path
      else if snd e = [] then Inl (Empty_decision (fst e)) else Inr ())"

definition read_policy :: "(string \<Rightarrow> policy_source) \<Rightarrow> string \<Rightarrow> site_error + memory_policy" where
  "read_policy files path =
     (case files path of
        Unreadable \<Rightarrow> Inl (Unreadable_policy path)
      | Unparsed \<Rightarrow> Inl (Unparsed_policy path)
      | Policy_text p \<Rightarrow>
          if schema_version p \<noteq> 1 then Inl Wrong_schema_version
          else if policy_top p = [] then Inl Empty_policy_top
          else if default_decision p \<noteq> ''infer'' then Inl Wrong_default
          else bind_result (for_each check_policy_site (policy_sites p)) (\<lambda>_. Inr p))"

definition decision_for :: "memory_policy \<Rightarrow> string \<Rightarrow> string" where
  "decision_for p s = (case om_find (policy_sites p) s of None \<Rightarrow> default_decision p | Some d \<Rightarrow> d)"

section \<open>Names\<close>

definition ends_with :: "string \<Rightarrow> string \<Rightarrow> bool" where
  "ends_with suffix s \<longleftrightarrow> length suffix \<le> length s \<and> drop (length s - length suffix) s = suffix"

definition canonical_site_path :: "string \<Rightarrow> string" where
  "canonical_site_path s = (if ends_with ''_ext'' s then take (length s - 4) s else s)"

definition consume_front :: "string \<Rightarrow> string \<Rightarrow> string option" where
  "consume_front p s = (if take (length p) s = p then Some (drop (length p) s) else None)"

definition scoped_path :: "string \<Rightarrow> string \<Rightarrow> string option" where
  "scoped_path scope s =
     (if scope = [] then Some s
      else case consume_front scope s of None \<Rightarrow> None
        | Some r \<Rightarrow> (case consume_front ''/'' r of None \<Rightarrow> None
            | Some q \<Rightarrow> if q = [] then None else Some q))"

definition fnv1a :: "string \<Rightarrow> u32" where
  "fnv1a s = fold (\<lambda>c h. (h XOR of_nat (char_code c)) * 16777619) s 2166136261"

definition is_alnum :: "char \<Rightarrow> bool" where
  "is_alnum c \<longleftrightarrow> (let n = char_code c in
     48 \<le> n \<and> n \<le> 57 \<or> 65 \<le> n \<and> n \<le> 90 \<or> 97 \<le> n \<and> n \<le> 122)"

text \<open>\<open>{0:x-8}\<close>: eight lower-case hexadecimal digits.\<close>

definition hex8 :: "u32 \<Rightarrow> string" where
  "hex8 h = map (\<lambda>i. hex_digit (unat (drop_bit (4 * i) h AND 15))) (rev [0..<8])"

definition wrapper_name :: "string \<Rightarrow> string" where
  "wrapper_name s =
     ''rhodium_sram_'' @ map (\<lambda>c. if is_alnum c then c else CHR ''_'') (drop (length s - 72) s)
       @ ''_'' @ hex8 (fnv1a s)"

section \<open>External modules\<close>

definition is_structural_attribute :: "string \<Rightarrow> bool" where
  "is_structural_attribute k \<longleftrightarrow> k \<in> {''sym_name'', ''generatorKind'', ''module_type'', ''parameters'',
     ''per_port_attrs'', ''port_locs'', ''verilogName'', ''sym_visibility''}"

text \<open>CIRCT: the port list of a module, and the attributes of a new external module.\<close>

record ('a, 'p) circt =
  port_list :: "'a dictionary \<Rightarrow> 'p"
  extern_attributes :: "string \<Rightarrow> 'p \<Rightarrow> string \<Rightarrow> 'a attribute option \<Rightarrow> 'a dictionary \<Rightarrow> 'a dictionary"

definition memory_attributes :: "'a operation \<Rightarrow> string \<Rightarrow> string \<Rightarrow> string \<Rightarrow> 'a dictionary" where
  "memory_attributes g s macro src =
     filter (\<lambda>e. \<not> is_structural_attribute (fst e)) (attributes g)
       @ [(''rhodium.memory.site'', Text_attr s), (''rhodium.memory.macro'', Text_attr macro),
          (''rhodium.memory.source'', Text_attr src)]"

definition wrapper_extern ::
    "('a, 'p) circt \<Rightarrow> 'a operation \<Rightarrow> string \<Rightarrow> string \<Rightarrow> string \<Rightarrow> 'a operation" where
  "wrapper_extern c g s macro src =
     \<lparr>operation_kind = Hw_extern,
      attributes = extern_attributes c (wrapper_name s) (port_list c (attributes g)) (wrapper_name s)
        (om_find (attributes g) ''parameters'') (memory_attributes g s macro src),
      instances = []\<rparr>"

section \<open>Occurrences\<close>

record 'a memory_site =
  site_path :: string
  site_instance_path :: string
  site_decision :: string
  source_module :: string
  wrapper_module :: string
  site_index :: nat
  site_generator :: "'a operation"

record 'a walk =
  found_sites :: "'a memory_site list"
  seen_paths :: "string list"
  duplicate_paths :: "string list"

definition generator_of :: "'a operation list \<Rightarrow> 'a dictionary \<Rightarrow> 'a operation option" where
  "generator_of ops inst = (case lookup_kind Hw_generated ops (symbol_attr inst ''moduleName'') of
     None \<Rightarrow> None
   | Some g \<Rightarrow> if symbol_attr (attributes g) ''generatorKind'' = ''FIRRTLMem'' then Some g else None)"

definition visit_instance ::
    "memory_policy \<Rightarrow> string \<Rightarrow> 'a operation list \<Rightarrow> nat \<times> 'a dictionary \<Rightarrow> 'a walk \<Rightarrow> 'a walk" where
  "visit_instance p scope ops e w =
     (case generator_of ops (snd e) of None \<Rightarrow> w
      | Some g \<Rightarrow>
         (let path = canonical_site_path (text_attr (snd e) ''instanceName'') in
          case scoped_path scope path of None \<Rightarrow> w
          | Some s \<Rightarrow>
              if s \<in> set (seen_paths w) then w\<lparr>duplicate_paths := duplicate_paths w @ [s]\<rparr>
              else w\<lparr>seen_paths := os_insert s (seen_paths w),
                found_sites := found_sites w @
                  [\<lparr>site_path = s, site_instance_path = path, site_decision = decision_for p s,
                    source_module = text_attr (attributes g) ''sym_name'', wrapper_module = [],
                    site_index = fst e, site_generator = g\<rparr>]\<rparr>))"

definition walk_instances ::
    "memory_policy \<Rightarrow> string \<Rightarrow> 'a operation list \<Rightarrow> 'a dictionary list \<Rightarrow> 'a walk" where
  "walk_instances p scope ops insts =
     fold (visit_instance p scope ops) (enumerate 0 insts)
       \<lparr>found_sites = [], seen_paths = [], duplicate_paths = []\<rparr>"

text \<open>The checks between the walk and the mapping.\<close>

definition check_walk :: "memory_policy \<Rightarrow> 'a walk \<Rightarrow> site_error + unit" where
  "check_walk p w =
     (if duplicate_paths w \<noteq> [] then Inl (Duplicate_sites (duplicate_paths w))
      else let available = map site_path (found_sites w);
               unknown = filter (\<lambda>s. s \<notin> set available) (map fst (policy_sites p)) in
           if unknown \<noteq> [] then Inl (Unknown_sites (sort unknown) (sort available)) else Inr ())"

section \<open>Mapping\<close>

text \<open>The module around its top: external modules are inserted just before the top.\<close>

record 'a hierarchy =
  before :: "'a operation list"
  top_operation :: "'a operation"
  after :: "'a operation list"

definition all_operations :: "'a hierarchy \<Rightarrow> 'a operation list" where
  "all_operations h = before h @ top_operation h # after h"

fun split_module :: "string \<Rightarrow> 'a operation list \<Rightarrow> 'a hierarchy option" where
  "split_module s [] = None"
| "split_module s (op # ops) =
     (if symbol_name op = Some s then Some \<lparr>before = [], top_operation = op, after = ops\<rparr>
      else map_option (\<lambda>h. h\<lparr>before := op # before h\<rparr>) (split_module s ops))"

definition hide_memories :: "'a operation \<Rightarrow> 'a operation" where
  "hide_memories op =
     (if operation_kind op = Hw_generated \<and> symbol_attr (attributes op) ''generatorKind'' = ''FIRRTLMem''
      then set_visibility False op else op)"

definition retarget :: "string \<Rightarrow> 'a dictionary \<Rightarrow> 'a dictionary" where
  "retarget s inst = om_put ''rhodium.memory.site'' (Text_attr s)
     (om_put ''moduleName'' (Symbol_attr (wrapper_name s)) inst)"

definition map_site ::
    "('a, 'p) circt \<Rightarrow> 'a memory_site \<Rightarrow> 'a hierarchy \<Rightarrow> 'a hierarchy \<times> (site_error + 'a memory_site)" where
  "map_site c s h =
     (if site_decision s = ''infer'' then (h, Inr s)
      else let w = wrapper_name (site_path s); t = top_operation h; i = site_index s in
        if lookup_symbol (all_operations h) w \<noteq> None then (h, Inl (Wrapper_collision (site_path s) w))
        else
          (h\<lparr>before := before h @
               [wrapper_extern c (site_generator s) (site_path s) (site_decision s) (source_module s)],
             top_operation := t\<lparr>instances :=
               (instances t)[i := retarget (site_path s) (instances t ! i)]\<rparr>\<rparr>,
           Inr (s\<lparr>wrapper_module := w\<rparr>)))"

fun map_sites ::
    "('a, 'p) circt \<Rightarrow> 'a memory_site list \<Rightarrow> 'a hierarchy
      \<Rightarrow> 'a hierarchy \<times> (site_error + 'a memory_site list)" where
  "map_sites c [] h = (h, Inr [])"
| "map_sites c (s # ss) h =
     (case map_site c s h of
        (h1, Inl e) \<Rightarrow> (h1, Inl e)
      | (h1, Inr s1) \<Rightarrow>
          (case map_sites c ss h1 of (h2, r) \<Rightarrow> (h2, bind_result r (\<lambda>ss1. Inr (s1 # ss1)))))"

section \<open>The inventory\<close>

datatype inventory_value =
    Inventory_text string
  | Inventory_number nat
  | Inventory_array "inventory_value list"
  | Inventory_object "(string \<times> inventory_value) list"

text \<open>The file system: the directory part of a path, and the failures to create and to open.\<close>

record inventory_files =
  parent_directory :: "string \<Rightarrow> string"
  directory_fails :: "string \<Rightarrow> bool"
  open_fails :: "string \<Rightarrow> bool"

definition site_value :: "'a memory_site \<Rightarrow> inventory_value" where
  "site_value s = Inventory_object
     ([(''path'', Inventory_text (site_path s)), (''instance_path'', Inventory_text (site_instance_path s)),
       (''decision'', Inventory_text (if site_decision s = ''infer'' then ''infer'' else ''macro'')),
       (''source_module'', Inventory_text (source_module s))]
      @ (if site_decision s \<noteq> ''infer''
         then [(''macro'', Inventory_text (site_decision s)),
               (''wrapper_module'', Inventory_text (wrapper_module s))]
         else []))"

definition write_inventory ::
    "inventory_files \<Rightarrow> string \<Rightarrow> memory_policy \<Rightarrow> string \<Rightarrow> string \<Rightarrow> 'a memory_site list
      \<Rightarrow> site_error + inventory_value" where
  "write_inventory fs path p tp scope ss =
     (if path = [] then Inl No_inventory_path
      else let parent = parent_directory fs path in
        if parent \<noteq> [] \<and> directory_fails fs parent then Inl (No_inventory_directory parent)
        else if open_fails fs path then Inl (Unwritable_inventory path)
        else Inr (Inventory_object
          [(''schema_version'', Inventory_number 1), (''top'', Inventory_text tp),
           (''policy_top'', Inventory_text (policy_top p)), (''scope_prefix'', Inventory_text scope),
           (''default'', Inventory_text (default_decision p)),
           (''sites'', Inventory_array (map site_value ss))]))"

section \<open>The pass\<close>

record pass_options =
  policy_path :: string
  inventory_path :: string
  top_option :: string
  scope_prefix :: string

definition bad_scope :: "string \<Rightarrow> bool" where
  "bad_scope scope \<longleftrightarrow> scope \<noteq> [] \<and> (hd scope = CHR ''/'' \<or> last scope = CHR ''/'')"

definition map_hierarchy ::
    "inventory_files \<Rightarrow> ('a, 'p) circt \<Rightarrow> pass_options \<Rightarrow> memory_policy \<Rightarrow> string \<Rightarrow> 'a memory_site list
      \<Rightarrow> 'a hierarchy \<Rightarrow> 'a operation list \<times> (site_error + inventory_value)" where
  "map_hierarchy fs c opts p tp ss h =
     (let hidden = h\<lparr>before := map hide_memories (before h), after := map hide_memories (after h)\<rparr>;
          sorted = map (\<lambda>s. s\<lparr>site_generator := hide_memories (site_generator s)\<rparr>) (sort_key site_path ss) in
      case map_sites c sorted hidden of
        (h1, r) \<Rightarrow> (all_operations h1,
          bind_result r (\<lambda>mapped. write_inventory fs (inventory_path opts) p tp (scope_prefix opts) mapped)))"

definition map_memory_sites ::
    "(string \<Rightarrow> policy_source) \<Rightarrow> inventory_files \<Rightarrow> ('a, 'p) circt \<Rightarrow> pass_options \<Rightarrow> 'a operation list
      \<Rightarrow> 'a operation list \<times> (site_error + inventory_value)" where
  "map_memory_sites files fs c opts ops =
     (if policy_path opts = [] then (ops, Inl No_policy_path)
      else case read_policy files (policy_path opts) of
        Inl e \<Rightarrow> (ops, Inl e)
      | Inr p \<Rightarrow>
          if bad_scope (scope_prefix opts) then (ops, Inl Bad_scope_prefix)
          else let tp = (if top_option opts = [] then policy_top p else top_option opts) in
            case split_module tp ops of
              None \<Rightarrow> (ops, Inl (No_mapping_top tp))
            | Some h \<Rightarrow>
                if operation_kind (top_operation h) \<noteq> Hw_module then (ops, Inl (No_mapping_top tp))
                else let w = walk_instances p (scope_prefix opts) ops (instances (top_operation h)) in
                  case check_walk p w of
                    Inl e \<Rightarrow> (ops, Inl e)
                  | Inr _ \<Rightarrow> map_hierarchy fs c opts p tp (found_sites w) h)"

end
