(* ===== verification/Memory_Mapping.thy ===== *)
theory Memory_Mapping
  imports Memory_Sites
begin

text \<open>
  What the mapping pass does, declaratively: which occurrences it finds, when it succeeds, and the
  module and the inventory that result.
\<close>

section \<open>The specification\<close>

definition site_record ::
    "memory_policy \<Rightarrow> string \<Rightarrow> 'a operation list \<Rightarrow> nat \<times> 'a dictionary \<Rightarrow> 'a memory_site option" where
  "site_record p scope ops e =
     (case generator_of ops (snd e) of None \<Rightarrow> None
      | Some g \<Rightarrow>
         (let path = canonical_site_path (text_attr (snd e) ''instanceName'') in
          case scoped_path scope path of None \<Rightarrow> None
          | Some s \<Rightarrow> Some \<lparr>site_path = s, site_instance_path = path, site_decision = decision_for p s,
              source_module = text_attr (attributes g) ''sym_name'', wrapper_module = [],
              site_index = fst e, site_generator = g\<rparr>))"

definition occurrences ::
    "memory_policy \<Rightarrow> string \<Rightarrow> 'a operation list \<Rightarrow> 'a dictionary list \<Rightarrow> 'a memory_site list" where
  "occurrences p scope ops insts = List.map_filter (site_record p scope ops) (enumerate 0 insts)"

definition selected :: "'a memory_site list \<Rightarrow> 'a memory_site list" where
  "selected ss = filter (\<lambda>s. site_decision s \<noteq> ''infer'') ss"

text \<open>An instance of the result.\<close>

definition mapped_instance ::
    "memory_policy \<Rightarrow> string \<Rightarrow> 'a operation list \<Rightarrow> 'a dictionary \<Rightarrow> 'a dictionary" where
  "mapped_instance p scope ops inst =
     (case site_record p scope ops (0, inst) of
        None \<Rightarrow> inst
      | Some s \<Rightarrow> if site_decision s = ''infer'' then inst else retarget (site_path s) inst)"

text \<open>The occurrences in the order of their paths, their generators hidden.\<close>

definition mapping_sites ::
    "memory_policy \<Rightarrow> string \<Rightarrow> 'a operation list \<Rightarrow> 'a dictionary list \<Rightarrow> 'a memory_site list" where
  "mapping_sites p scope ops insts =
     map (\<lambda>s. s\<lparr>site_generator := hide_memories (site_generator s)\<rparr>)
       (sort_key site_path (occurrences p scope ops insts))"

definition site_extern :: "('a, 'p) circt \<Rightarrow> 'a memory_site \<Rightarrow> 'a operation" where
  "site_extern c s = wrapper_extern c (site_generator s) (site_path s) (site_decision s) (source_module s)"

definition mapped_operations ::
    "('a, 'p) circt \<Rightarrow> memory_policy \<Rightarrow> string \<Rightarrow> 'a operation list \<Rightarrow> 'a hierarchy \<Rightarrow> 'a operation list" where
  "mapped_operations c p scope ops h =
     (let t = top_operation h in
      map hide_memories (before h)
        @ map (site_extern c) (selected (mapping_sites p scope ops (instances t)))
        @ t\<lparr>instances := map (mapped_instance p scope ops) (instances t)\<rparr> # map hide_memories (after h))"

definition named_site :: "'a memory_site \<Rightarrow> 'a memory_site" where
  "named_site s = (if site_decision s = ''infer'' then s else s\<lparr>wrapper_module := wrapper_name (site_path s)\<rparr>)"

definition symbols_of :: "'a operation list \<Rightarrow> string set" where
  "symbols_of ops = {s. \<exists>op\<in>set ops. symbol_name op = Some s}"

definition mapping_allowed :: "memory_policy \<Rightarrow> 'a operation list \<Rightarrow> 'a memory_site list \<Rightarrow> bool" where
  "mapping_allowed p ops ss \<longleftrightarrow>
     distinct (map site_path ss)
     \<and> fst ` set (policy_sites p) \<subseteq> site_path ` set ss
     \<and> distinct (map (wrapper_name \<circ> site_path) (selected ss))
     \<and> (\<forall>s\<in>set (selected ss). wrapper_name (site_path s) \<notin> symbols_of ops)"

definition mapping_top :: "memory_policy \<Rightarrow> pass_options \<Rightarrow> string" where
  "mapping_top p opts = (if top_option opts = [] then policy_top p else top_option opts)"

text \<open>The documented behaviour of CIRCT the wrappers rely on.\<close>

definition circt_ok :: "('a, 'p) circt \<Rightarrow> bool" where
  "circt_ok c \<longleftrightarrow>
     (\<forall>d v. port_list c (om_put ''sym_visibility'' v d) = port_list c d) \<and>
     (\<forall>n ps v q as. let d = extern_attributes c n ps v q as in
        om_find d ''sym_name'' = Some (Text_attr n) \<and> port_list c d = ps
        \<and> (distinct (map fst as) \<longrightarrow>
            (\<forall>(k, a)\<in>set as. \<not> is_structural_attribute k \<longrightarrow> om_find d k = Some a)))"

section \<open>The walk\<close>

lemma visit_instance_record:
  "visit_instance p scope ops e w =
     (case site_record p scope ops e of None \<Rightarrow> w
      | Some s \<Rightarrow> if site_path s \<in> set (seen_paths w)
          then w\<lparr>duplicate_paths := duplicate_paths w @ [site_path s]\<rparr>
          else w\<lparr>seen_paths := os_insert (site_path s) (seen_paths w), found_sites := found_sites w @ [s]\<rparr>)"
  by (cases "generator_of ops (snd e)";
      cases "scoped_path scope (canonical_site_path (text_attr (snd e) ''instanceName''))")
    (simp_all add: visit_instance_def site_record_def)

lemma map_filter_Cons:
  "List.map_filter f (x # xs) = (case f x of None \<Rightarrow> [] | Some y \<Rightarrow> [y]) @ List.map_filter f xs"
  by (simp add: List.map_filter_simps split: option.splits)

lemma walk_distinct:
  assumes "set (seen_paths w) = site_path ` set (found_sites w)" "distinct (map site_path (found_sites w))"
  shows "duplicate_paths (fold (visit_instance p scope ops) es w) = [] \<longleftrightarrow>
           duplicate_paths w = [] \<and>
           distinct (map site_path (found_sites w @ List.map_filter (site_record p scope ops) es))"
    and "duplicate_paths (fold (visit_instance p scope ops) es w) = [] \<Longrightarrow>
           found_sites (fold (visit_instance p scope ops) es w)
             = found_sites w @ List.map_filter (site_record p scope ops) es"
  using assms
proof (induction es arbitrary: w)
  case (Cons e es)
  { case 1
    then show ?case
      using Cons.IH(1) [of "visit_instance p scope ops e w"]
      by (cases "site_record p scope ops e") (auto simp: visit_instance_record map_filter_Cons)
  next
    case 2
    then show ?case
      using Cons.IH(1) [of "visit_instance p scope ops e w"] Cons.IH(2) [of "visit_instance p scope ops e w"]
      by (cases "site_record p scope ops e")
        (auto simp: visit_instance_record map_filter_Cons split: if_splits)
  }
qed (auto simp: List.map_filter_simps)

lemma check_walk_iff:
  "check_walk p (walk_instances p scope ops insts) = Inr () \<longleftrightarrow>
     distinct (map site_path (occurrences p scope ops insts)) \<and>
     fst ` set (policy_sites p) \<subseteq> site_path ` set (occurrences p scope ops insts)"
  using walk_distinct [of "\<lparr>found_sites = [], seen_paths = [], duplicate_paths = []\<rparr>" p scope ops
      "enumerate 0 insts"]
  by (auto simp: check_walk_def walk_instances_def occurrences_def Let_def filter_empty_conv)

lemma check_walk_found:
  "check_walk p (walk_instances p scope ops insts) = Inr () \<Longrightarrow>
     found_sites (walk_instances p scope ops insts) = occurrences p scope ops insts"
  using walk_distinct(2) [of "\<lparr>found_sites = [], seen_paths = [], duplicate_paths = []\<rparr>" p scope ops
      "enumerate 0 insts"]
  by (auto simp: check_walk_def walk_instances_def occurrences_def Let_def split: if_splits)

section \<open>The mapping loop\<close>

lemma lookup_symbol_None: "lookup_symbol ops s = None \<longleftrightarrow> s \<notin> symbols_of ops"
  by (auto simp: lookup_symbol_def symbols_of_def find_None_iff)

lemma symbols_of_simps [simp]:
  "symbols_of [] = {}"
  "symbols_of (as @ bs) = symbols_of as \<union> symbols_of bs"
  "symbols_of (op # ops) = {s. symbol_name op = Some s} \<union> symbols_of ops"
  by (auto simp: symbols_of_def)

lemma symbol_name_wrapper:
  "circt_ok c \<Longrightarrow> symbol_name (wrapper_extern c g s d m) = Some (wrapper_name s)"
  by (simp add: circt_ok_def Let_def wrapper_extern_def symbol_name_def)

lemma symbol_name_instances [simp]: "symbol_name (t\<lparr>instances := is\<rparr>) = symbol_name t"
  by (simp add: symbol_name_def)

text \<open>The hierarchy after one selected site.\<close>

definition add_wrapper :: "('a, 'p) circt \<Rightarrow> 'a memory_site \<Rightarrow> 'a hierarchy \<Rightarrow> 'a hierarchy" where
  "add_wrapper c s h =
     (let t = top_operation h; i = site_index s in
      h\<lparr>before := before h @
          [wrapper_extern c (site_generator s) (site_path s) (site_decision s) (source_module s)],
        top_operation := t\<lparr>instances :=
          (instances t)[i := retarget (site_path s) (instances t ! i)]\<rparr>\<rparr>)"

lemma symbols_add_wrapper:
  "circt_ok c \<Longrightarrow> symbols_of (all_operations (add_wrapper c s h))
     = insert (wrapper_name (site_path s)) (symbols_of (all_operations h))"
  by (auto simp: all_operations_def add_wrapper_def Let_def symbol_name_wrapper)

lemma map_site_cases:
  "map_site c s h =
     (if site_decision s = ''infer'' then (h, Inr (named_site s))
      else if wrapper_name (site_path s) \<in> symbols_of (all_operations h)
      then (h, Inl (Wrapper_collision (site_path s) (wrapper_name (site_path s))))
      else (add_wrapper c s h, Inr (named_site s)))"
  unfolding map_site_def add_wrapper_def named_site_def Let_def lookup_symbol_None by simp

lemma map_sites_Cons:
  "map_sites c (s # ss) h = (h', Inr ss') \<longleftrightarrow>
     (\<exists>h1 s1 ss1. map_site c s h = (h1, Inr s1) \<and> map_sites c ss h1 = (h', Inr ss1) \<and> ss' = s1 # ss1)"
  by (auto split: prod.splits sum.splits)

lemma map_sites_iff:
  assumes "circt_ok c"
  shows "map_sites c ss h = (h', Inr ss') \<longleftrightarrow>
     distinct (map (wrapper_name \<circ> site_path) (selected ss)) \<and>
     (\<forall>s\<in>set (selected ss). wrapper_name (site_path s) \<notin> symbols_of (all_operations h)) \<and>
     h' = fold (add_wrapper c) (selected ss) h \<and> ss' = map named_site ss"
proof (induction ss arbitrary: h h' ss')
  case (Cons s ss)
  show ?case
    unfolding map_sites_Cons Cons map_site_cases
    by (auto simp: selected_def comp_def image_def symbols_add_wrapper [OF assms])
qed (auto simp: selected_def)

lemma fold_add_wrapper:
  "fold (add_wrapper c) ss h = h\<lparr>
     before := before h @ map (\<lambda>s.
       wrapper_extern c (site_generator s) (site_path s) (site_decision s) (source_module s)) ss,
     top_operation := top_operation h\<lparr>instances :=
       fold (\<lambda>s is. is[site_index s := retarget (site_path s) (is ! site_index s)]) ss
         (instances (top_operation h))\<rparr>\<rparr>"
  by (induction ss arbitrary: h) (simp_all add: add_wrapper_def Let_def)

lemma fold_updates_nth:
  assumes "distinct (map site_index ss)" "i < length is"
  shows "fold (\<lambda>s is. is[site_index s := retarget (site_path s) (is ! site_index s)]) ss is ! i
    = (case List.find (\<lambda>s. site_index s = i) ss of None \<Rightarrow> is ! i | Some s \<Rightarrow> retarget (site_path s) (is ! i))"
  using assms
proof (induction ss arbitrary: "is")
  case (Cons s ss)
  have "List.find (\<lambda>t. site_index t = i) ss = None" if "site_index s = i"
    using that Cons.prems(1) by (auto simp: find_None_iff image_def)
  with Cons show ?case by (auto simp: nth_list_update split: option.splits)
qed simp

lemma fold_updates_length [simp]:
  "length (fold (\<lambda>s is. is[site_index s := retarget (site_path s) (is ! site_index s)]) ss is) = length is"
  by (induction ss arbitrary: "is") simp_all

lemma find_unique:
  "distinct (map f xs) \<Longrightarrow> x \<in> set xs \<Longrightarrow> List.find (\<lambda>y. f y = f x) xs = Some x"
  by (induction xs) (auto simp: image_iff)

section \<open>Occurrences\<close>

lemma site_record_index:
  "site_record p scope ops (i, inst) = map_option (\<lambda>s. s\<lparr>site_index := i\<rparr>) (site_record p scope ops (0, inst))"
  by (cases "generator_of ops inst";
      cases "scoped_path scope (canonical_site_path (text_attr inst ''instanceName''))")
    (simp_all add: site_record_def)

lemma site_record_fields:
  "site_record p scope ops e = Some s \<Longrightarrow> site_index s = fst e \<and> site_decision s = decision_for p (site_path s)"
  by (auto simp: site_record_def Let_def split: option.splits)

lemma mapped_instance_record:
  "mapped_instance p scope ops inst = (case site_record p scope ops (i, inst) of
     None \<Rightarrow> inst
   | Some s \<Rightarrow> if site_decision s = ''infer'' then inst else retarget (site_path s) inst)"
  by (cases "site_record p scope ops (0, inst)")
    (simp_all add: mapped_instance_def site_record_index [of p scope ops i])

lemma set_occurrences:
  "s \<in> set (occurrences p scope ops insts) \<longleftrightarrow>
     (\<exists>i < length insts. site_record p scope ops (i, insts ! i) = Some s)"
  by (auto simp: occurrences_def List.map_filter_def in_set_enumerate_eq image_iff)

lemma distinct_occurrences: "distinct (map site_index (occurrences p scope ops insts))"
proof -
  have "map site_index (List.map_filter (site_record p scope ops) es)
      = map fst (filter (\<lambda>e. site_record p scope ops e \<noteq> None) es)" for es :: "(nat \<times> 'a dictionary) list"
    by (induction es) (use site_record_fields in \<open>fastforce simp: List.map_filter_simps split: option.splits\<close>)+
  then show ?thesis
    by (simp add: occurrences_def distinct_map_filter)
qed

lemma distinct_mapping_sites: "distinct (map site_index (mapping_sites p scope ops insts))"
  using distinct_occurrences [of p scope ops insts]
  by (simp add: mapping_sites_def comp_def distinct_map)

lemma mapped_instances:
  assumes ss: "ss = selected (mapping_sites p scope ops insts)"
  shows "fold (\<lambda>s is. is[site_index s := retarget (site_path s) (is ! site_index s)]) ss insts
    = map (mapped_instance p scope ops) insts"
proof (rule nth_equalityI)
  have dis: "distinct (map site_index ss)"
    unfolding ss selected_def by (rule distinct_map_filter [OF distinct_mapping_sites])
  fix i assume "i < length (fold (\<lambda>s is. is[site_index s := retarget (site_path s) (is ! site_index s)]) ss insts)"
  then have i: "i < length insts" by simp
  show "fold (\<lambda>s is. is[site_index s := retarget (site_path s) (is ! site_index s)]) ss insts ! i
      = map (mapped_instance p scope ops) insts ! i"
  proof (cases "\<exists>s\<in>set ss. site_index s = i")
    case True
    then obtain s where s: "s \<in> set ss" "site_index s = i" by blast
    then obtain t where t: "t \<in> set (occurrences p scope ops insts)" "site_decision t \<noteq> ''infer''"
        "s = t\<lparr>site_generator := hide_memories (site_generator t)\<rparr>"
      by (auto simp: ss mapping_sites_def selected_def)
    from t(1) obtain j where "site_record p scope ops (j, insts ! j) = Some t"
      by (auto simp: set_occurrences)
    moreover from this s(2) t(3) have "j = i" using site_record_fields by fastforce
    ultimately have "site_record p scope ops (i, insts ! i) = Some t" by simp
    with t s i dis find_unique [OF dis s(1)] show ?thesis
      by (subst fold_updates_nth) (auto simp: mapped_instance_record [where i = i])
  next
    case False
    then have "List.find (\<lambda>s. site_index s = i) ss = None" by (auto simp: find_None_iff)
    moreover have "mapped_instance p scope ops (insts ! i) = insts ! i"
    proof (cases "site_record p scope ops (i, insts ! i)")
      case None
      then show ?thesis by (simp add: mapped_instance_record [where i = i])
    next
      case (Some t)
      with i have "t \<in> set (occurrences p scope ops insts)" by (auto simp: set_occurrences)
      with Some False have "site_decision t = ''infer''"
        by (force simp: ss mapping_sites_def selected_def dest: site_record_fields)
      with Some show ?thesis by (simp add: mapped_instance_record [where i = i])
    qed
    ultimately show ?thesis using i dis by (simp add: fold_updates_nth)
  qed
qed simp

section \<open>The pass\<close>

definition policy_ok :: "memory_policy \<Rightarrow> bool" where
  "policy_ok p \<longleftrightarrow> schema_version p = 1 \<and> policy_top p \<noteq> [] \<and> default_decision p = ''infer''
     \<and> (\<forall>(s, d)\<in>set (policy_sites p). s \<noteq> [] \<and> d \<noteq> [])"

definition inventory_writable :: "inventory_files \<Rightarrow> string \<Rightarrow> bool" where
  "inventory_writable fs path \<longleftrightarrow> path \<noteq> [] \<and> \<not> open_fails fs path
     \<and> (parent_directory fs path = [] \<or> \<not> directory_fails fs (parent_directory fs path))"

definition inventory_of ::
    "memory_policy \<Rightarrow> string \<Rightarrow> string \<Rightarrow> 'a memory_site list \<Rightarrow> inventory_value" where
  "inventory_of p tp scope ss = Inventory_object
     [(''schema_version'', Inventory_number 1), (''top'', Inventory_text tp),
      (''policy_top'', Inventory_text (policy_top p)), (''scope_prefix'', Inventory_text scope),
      (''default'', Inventory_text ''infer''),
      (''sites'', Inventory_array (map (site_value \<circ> named_site) ss))]"

definition mapping_result ::
    "(string \<Rightarrow> policy_source) \<Rightarrow> inventory_files \<Rightarrow> ('a, 'p) circt \<Rightarrow> pass_options \<Rightarrow> 'a operation list
      \<Rightarrow> 'a operation list \<Rightarrow> inventory_value \<Rightarrow> bool" where
  "mapping_result files fs c opts ops ops' listing \<longleftrightarrow>
     policy_path opts \<noteq> [] \<and> \<not> bad_scope (scope_prefix opts) \<and>
     inventory_writable fs (inventory_path opts) \<and>
     (\<exists>p h. files (policy_path opts) = Policy_text p \<and> policy_ok p
        \<and> split_module (mapping_top p opts) ops = Some h
        \<and> operation_kind (top_operation h) = Hw_module
        \<and> mapping_allowed p ops (occurrences p (scope_prefix opts) ops (instances (top_operation h)))
        \<and> ops' = mapped_operations c p (scope_prefix opts) ops h
        \<and> listing = inventory_of p (mapping_top p opts) (scope_prefix opts)
             (mapping_sites p (scope_prefix opts) ops (instances (top_operation h))))"

lemma read_policy_iff:
  "read_policy files path = Inr p \<longleftrightarrow> files path = Policy_text p \<and> policy_ok p"
proof -
  have "for_each check_policy_site ss = Inr () \<longleftrightarrow> (\<forall>(s, d)\<in>set ss. s \<noteq> [] \<and> d \<noteq> [])" for ss
    by (auto simp: check_policy_site_def split: if_splits)
  then show ?thesis
    by (auto simp: read_policy_def policy_ok_def split: policy_source.splits if_splits)
qed

lemma write_inventory_iff:
  "write_inventory fs path p tp scope ss = Inr listing \<longleftrightarrow>
     inventory_writable fs path \<and> listing = Inventory_object
       [(''schema_version'', Inventory_number 1), (''top'', Inventory_text tp),
        (''policy_top'', Inventory_text (policy_top p)), (''scope_prefix'', Inventory_text scope),
        (''default'', Inventory_text (default_decision p)),
        (''sites'', Inventory_array (map site_value ss))]"
  by (auto simp: write_inventory_def inventory_writable_def Let_def)

lemma split_module_all:
  "split_module s ops = Some h \<Longrightarrow> ops = all_operations h \<and> symbol_name (top_operation h) = Some s"
  by (induction ops arbitrary: h) (auto simp: all_operations_def split: if_splits)

lemma om_find_put_other: "j \<noteq> k \<Longrightarrow> om_find (om_put k v m) j = om_find m j"
  by (induction k v m rule: om_put.induct) auto

lemma symbol_name_visibility [simp]: "symbol_name (set_visibility b op) = symbol_name op"
  by (simp add: symbol_name_def set_visibility_def om_find_put_other om_find_erase)

lemma symbol_name_hide [simp]: "symbol_name (hide_memories op) = symbol_name op"
  by (simp add: hide_memories_def)

lemma symbols_of_hide [simp]: "symbols_of (map hide_memories ops) = symbols_of ops"
  by (auto simp: symbols_of_def)

lemma selected_mapping_sites:
  "mset (map site_path (selected (mapping_sites p scope ops insts)))
     = mset (map site_path (selected (occurrences p scope ops insts)))"
proof -
  have "map site_path (selected (map (\<lambda>s. s\<lparr>site_generator := hide_memories (site_generator s)\<rparr>) xs))
      = map site_path (selected xs)" for xs :: "'a memory_site list"
    by (induction xs) (auto simp: selected_def)
  then show ?thesis
    unfolding mapping_sites_def by (simp add: selected_def)
qed

lemma map_hierarchy_iff:
  fixes h :: "'a hierarchy"
  assumes "circt_ok c" "split_module tp ops = Some h"
    and ss_def: "ss = occurrences p (scope_prefix opts) ops (instances (top_operation h))"
  shows "map_hierarchy fs c opts p tp ss h = (ops', Inr listing) \<longleftrightarrow>
     distinct (map (wrapper_name \<circ> site_path) (selected ss)) \<and>
     (\<forall>s\<in>set (selected ss). wrapper_name (site_path s) \<notin> symbols_of ops) \<and>
     inventory_writable fs (inventory_path opts) \<and>
     ops' = mapped_operations c p (scope_prefix opts) ops h \<and>
     write_inventory fs (inventory_path opts) p tp (scope_prefix opts)
       (map named_site (mapping_sites p (scope_prefix opts) ops (instances (top_operation h)))) = Inr listing"
proof -
  define hidden where "hidden = h\<lparr>before := map hide_memories (before h), after := map hide_memories (after h)\<rparr>"
  define ms where "ms = mapping_sites p (scope_prefix opts) ops (instances (top_operation h))"
  have paths: "mset (map site_path (selected ms)) = mset (map site_path (selected ss))"
    unfolding ms_def ss_def by (rule selected_mapping_sites)
  then have "mset (map wrapper_name (map site_path (selected ms)))
      = mset (map wrapper_name (map site_path (selected ss)))"
    by (metis mset_map)
  then have dis: "distinct (map (wrapper_name \<circ> site_path) (selected ms))
      \<longleftrightarrow> distinct (map (wrapper_name \<circ> site_path) (selected ss))"
    by (metis map_map mset_eq_imp_distinct_iff)
  have set: "site_path ` set (selected ms) = site_path ` set (selected ss)"
    using mset_eq_setD [OF paths] by simp
  have syms: "symbols_of (all_operations hidden) = symbols_of ops"
    using split_module_all [OF assms(2)] by (auto simp: hidden_def all_operations_def)
  have fresh: "(\<forall>s\<in>set (selected ms). wrapper_name (site_path s) \<notin> symbols_of ops)
      \<longleftrightarrow> (\<forall>s\<in>set (selected ss). wrapper_name (site_path s) \<notin> symbols_of ops)"
    using set by (metis (no_types, lifting) image_iff)
  have ops: "all_operations (fold (add_wrapper c) (selected ms) hidden)
      = mapped_operations c p (scope_prefix opts) ops h"
    unfolding fold_add_wrapper hidden_def
    by (simp add: all_operations_def mapped_operations_def Let_def site_extern_def [abs_def] ms_def
        mapped_instances [OF refl] cong: map_cong)
  have "map_hierarchy fs c opts p tp ss h = (ops', Inr listing) \<longleftrightarrow>
      (\<exists>h1 ms1. map_sites c ms hidden = (h1, Inr ms1) \<and> ops' = all_operations h1
        \<and> write_inventory fs (inventory_path opts) p tp (scope_prefix opts) ms1 = Inr listing)"
    by (auto simp: map_hierarchy_def Let_def ms_def ss_def mapping_sites_def hidden_def split: prod.splits sum.splits)
  then show ?thesis
    unfolding map_sites_iff [OF assms(1)] dis fresh syms ms_def [symmetric]
    by (auto simp: ops write_inventory_iff)
qed

lemma mapping_top_split:
  "(if top_option opts = [] then policy_top p else top_option opts) = mapping_top p opts"
  by (simp add: mapping_top_def)

lemma mapping_pass:
  assumes "circt_ok c"
  shows "map_memory_sites files fs c opts ops = (ops', Inr listing)
    \<longleftrightarrow> mapping_result files fs c opts ops ops' listing"
proof (cases "policy_path opts = [] \<or> bad_scope (scope_prefix opts)
    \<or> (\<forall>p. read_policy files (policy_path opts) \<noteq> Inr p)")
  case True
  then show ?thesis
    by (auto simp: map_memory_sites_def mapping_result_def read_policy_iff split: sum.splits)
next
  case False
  then obtain p where p: "read_policy files (policy_path opts) = Inr p" by blast
  then have ok: "files (policy_path opts) = Policy_text p" "policy_ok p"
    by (auto simp: read_policy_iff)
  show ?thesis
  proof (cases "split_module (mapping_top p opts) ops")
    case None
    with False p ok show ?thesis
      by (auto simp: map_memory_sites_def mapping_result_def mapping_top_split)
  next
    case (Some h)
    let ?w = "walk_instances p (scope_prefix opts) ops (instances (top_operation h))"
    show ?thesis
    proof (cases "check_walk p ?w")
      case (Inl e)
      then have "check_walk p ?w \<noteq> Inr ()" by simp
      then show ?thesis
        unfolding check_walk_iff using False p ok Some Inl
        by (auto simp: map_memory_sites_def mapping_result_def mapping_top_split mapping_allowed_def Let_def split: if_splits)
    next
      case (Inr u)
      then have "check_walk p ?w = Inr ()" by simp
      note walk = this [unfolded check_walk_iff] check_walk_found [OF this]
      have "default_decision p = ''infer''" using ok by (simp add: policy_ok_def)
      with False p ok Some Inr walk show ?thesis
        by (auto simp: map_memory_sites_def mapping_result_def mapping_top_split mapping_allowed_def Let_def
            map_hierarchy_iff [OF assms Some refl] write_inventory_iff inventory_of_def)
    qed
  qed
qed

text \<open>C35: The pass succeeds exactly on a valid policy, an existing top whose memory occurrences have
  distinct paths covering the policy's sites, wrapper names that are new and distinct, and a writable
  inventory; the module and the inventory are then those of the specification: every selected
  occurrence is retargeted to its wrapper and nothing else in the top changes.\<close>

theorem memory_sites_mapped:
  assumes "circt_ok c"
  shows "map_memory_sites files fs c opts ops = (ops', Inr listing)
    \<longleftrightarrow> mapping_result files fs c opts ops ops' listing"
  using assms by (rule mapping_pass)

section \<open>What the result provides\<close>

text \<open>A generator that no mapping has tagged yet.\<close>

definition untagged :: "'a operation list \<Rightarrow> bool" where
  "untagged ops \<longleftrightarrow> (\<forall>op\<in>set ops. distinct (map fst (attributes op)) \<and>
     fst ` set (attributes op) \<inter> {''rhodium.memory.site'', ''rhodium.memory.macro'', ''rhodium.memory.source''} = {})"

text \<open>Every instance names a symbol of the module.\<close>

definition resolved :: "'a operation list \<Rightarrow> 'a dictionary list \<Rightarrow> bool" where
  "resolved ops insts \<longleftrightarrow> (\<forall>inst\<in>set insts. symbol_attr inst ''moduleName'' \<in> symbols_of ops)"

text \<open>The selected occurrence \<open>i\<close> of a result: its instance, and no other one, refers to an external
  module with the ports of the generated memory and the tags of the site.\<close>

definition wrapped ::
    "('a, 'p) circt \<Rightarrow> 'a operation list \<Rightarrow> 'a dictionary list \<Rightarrow> 'a memory_site \<Rightarrow> bool" where
  "wrapped c ops insts s \<longleftrightarrow>
     (case lookup_kind Hw_extern ops (wrapper_name (site_path s)) of None \<Rightarrow> False
      | Some e \<Rightarrow>
          port_list c (attributes e) = port_list c (attributes (site_generator s))
          \<and> text_attr (attributes e) ''rhodium.memory.site'' = site_path s
          \<and> text_attr (attributes e) ''rhodium.memory.macro'' = site_decision s
          \<and> text_attr (attributes e) ''rhodium.memory.source'' = source_module s)
     \<and> (\<forall>j < length insts. symbol_attr (insts ! j) ''moduleName'' = wrapper_name (site_path s)
          \<longleftrightarrow> j = site_index s)"

lemma lookup_symbol_append:
  "lookup_symbol (as @ bs) s = (case lookup_symbol as s of None \<Rightarrow> lookup_symbol bs s | Some op \<Rightarrow> Some op)"
  by (induction as) (auto simp: lookup_symbol_def)

lemma lookup_externs:
  assumes "circt_ok c" "distinct (map (wrapper_name \<circ> site_path) ss)" "s \<in> set ss"
  shows "lookup_symbol (map (site_extern c) ss @ rest) (wrapper_name (site_path s)) = Some (site_extern c s)"
  using assms(2,3)
proof (induction ss)
  case (Cons t ss)
  then show ?case
    by (auto simp: lookup_symbol_def site_extern_def symbol_name_wrapper [OF assms(1)] image_iff)
qed simp

lemma om_find_put_same: "om_find (om_put k v m) k = Some v"
  by (induction k v m rule: om_put.induct) auto

lemma non_structural_put:
  "is_structural_attribute k \<Longrightarrow>
     filter (\<lambda>e. \<not> is_structural_attribute (fst e)) (om_put k v d)
       = filter (\<lambda>e. \<not> is_structural_attribute (fst e)) d"
  by (induction k v d rule: om_put.induct) auto

lemma structural_visibility: "is_structural_attribute ''sym_visibility''"
  by (simp add: is_structural_attribute_def)

lemma memory_attributes_hidden:
  "memory_attributes (hide_memories g) s macro src = memory_attributes g s macro src"
  by (simp add: memory_attributes_def hide_memories_def set_visibility_def
      non_structural_put [OF structural_visibility])

lemma port_list_hidden:
  "circt_ok c \<Longrightarrow> port_list c (attributes (hide_memories g)) = port_list c (attributes g)"
  by (simp add: circt_ok_def hide_memories_def set_visibility_def)

lemma extern_tags:
  assumes "circt_ok c" "g \<in> set ops" "untagged ops"
  shows "port_list c (attributes (wrapper_extern c (hide_memories g) s macro src)) = port_list c (attributes g)"
    and "text_attr (attributes (wrapper_extern c (hide_memories g) s macro src)) ''rhodium.memory.site'' = s"
    and "text_attr (attributes (wrapper_extern c (hide_memories g) s macro src)) ''rhodium.memory.macro'' = macro"
    and "text_attr (attributes (wrapper_extern c (hide_memories g) s macro src)) ''rhodium.memory.source'' = src"
proof -
  let ?ma = "memory_attributes g s macro src"
  let ?d = "attributes (wrapper_extern c (hide_memories g) s macro src)"
  have g: "distinct (map fst (attributes g))"
      "''rhodium.memory.site'' \<notin> fst ` set (attributes g)"
      "''rhodium.memory.macro'' \<notin> fst ` set (attributes g)"
      "''rhodium.memory.source'' \<notin> fst ` set (attributes g)"
    using assms(2,3) by (auto simp: untagged_def)
  then have "distinct (map fst ?ma)"
    by (auto simp: memory_attributes_def distinct_map_filter image_iff)
  with assms(1) have d: "port_list c ?d = port_list c (attributes (hide_memories g))"
      "\<forall>(k, a)\<in>set ?ma. \<not> is_structural_attribute k \<longrightarrow> om_find ?d k = Some a"
    by (simp_all add: circt_ok_def Let_def wrapper_extern_def memory_attributes_hidden)
  show "port_list c ?d = port_list c (attributes g)"
    using d(1) port_list_hidden [OF assms(1)] by simp
  show "text_attr ?d ''rhodium.memory.site'' = s" "text_attr ?d ''rhodium.memory.macro'' = macro"
      "text_attr ?d ''rhodium.memory.source'' = src"
    using d(2) by (simp_all add: text_attr_def memory_attributes_def is_structural_attribute_def)
qed

lemma generator_of_in: "generator_of ops inst = Some g \<Longrightarrow> g \<in> set ops"
  by (auto simp: generator_of_def lookup_kind_def lookup_symbol_def find_Some_iff split: option.splits if_splits)

lemma site_record_generator: "site_record p scope ops e = Some s \<Longrightarrow> site_generator s \<in> set ops"
  by (auto simp: site_record_def Let_def split: option.splits dest: generator_of_in)

lemma retarget_module: "symbol_attr (retarget s inst) ''moduleName'' = wrapper_name s"
  by (simp add: retarget_def symbol_attr_def om_find_put_other om_find_put_same)

lemma split_module_append:
  "s \<notin> symbols_of as \<Longrightarrow>
     split_module s (as @ bs) = map_option (\<lambda>h. h\<lparr>before := as @ before h\<rparr>) (split_module s bs)"
  by (induction as) (auto simp: option.map_comp comp_def option.map_ident)

lemma split_module_before: "split_module s ops = Some h \<Longrightarrow> s \<notin> symbols_of (before h)"
  by (induction ops arbitrary: h) (auto split: if_splits)

lemma split_mapped_operations:
  assumes "circt_ok c" "split_module tp ops = Some h"
    and "\<forall>s\<in>set (selected (mapping_sites p scope ops (instances (top_operation h)))).
      wrapper_name (site_path s) \<noteq> tp"
  shows "\<exists>h'. split_module tp (mapped_operations c p scope ops h) = Some h'
    \<and> instances (top_operation h') = map (mapped_instance p scope ops) (instances (top_operation h))"
proof -
  let ?t = "top_operation h" and ?ms = "mapping_sites p scope ops (instances (top_operation h))"
  let ?as = "map hide_memories (before h) @ map (site_extern c) (selected ?ms)"
  have "tp \<notin> symbols_of ?as"
    using split_module_before [OF assms(2)] assms(3)
    by (auto simp: symbols_of_def site_extern_def symbol_name_wrapper [OF assms(1)])
  then show ?thesis
    using split_module_all [OF assms(2)] split_module_append [of tp ?as]
    by (simp add: mapped_operations_def Let_def flip: append_assoc)
qed

lemma mapping_sites_origin:
  assumes "t \<in> set (selected (mapping_sites p scope ops insts))"
  obtains s where "s \<in> set (selected (occurrences p scope ops insts))"
    "t = s\<lparr>site_generator := hide_memories (site_generator s)\<rparr>"
  using assms by (auto simp: selected_def mapping_sites_def)

lemma mapping_sites_hidden:
  "s \<in> set (selected (occurrences p scope ops insts)) \<Longrightarrow>
     s\<lparr>site_generator := hide_memories (site_generator s)\<rparr> \<in> set (selected (mapping_sites p scope ops insts))"
  by (auto simp: selected_def mapping_sites_def)

lemma wrapper_found:
  assumes "circt_ok c" "split_module tp ops = Some h"
    "mapping_allowed p ops (occurrences p scope ops (instances (top_operation h)))"
    "s \<in> set (selected (occurrences p scope ops (instances (top_operation h))))"
  shows "lookup_symbol (mapped_operations c p scope ops h) (wrapper_name (site_path s))
    = Some (site_extern c (s\<lparr>site_generator := hide_memories (site_generator s)\<rparr>))"
proof -
  let ?insts = "instances (top_operation h)"
  let ?t = "s\<lparr>site_generator := hide_memories (site_generator s)\<rparr>"
  let ?ms = "selected (mapping_sites p scope ops ?insts)"
  have "mset (map wrapper_name (map site_path ?ms))
      = mset (map wrapper_name (map site_path (selected (occurrences p scope ops ?insts))))"
    by (metis mset_map selected_mapping_sites)
  then have "distinct (map (wrapper_name \<circ> site_path) ?ms)"
    using assms(3) by (metis mapping_allowed_def map_map mset_eq_imp_distinct_iff)
  from lookup_externs [OF assms(1) this mapping_sites_hidden [OF assms(4)]]
  have "lookup_symbol (map (site_extern c) ?ms @ rest) (wrapper_name (site_path s)) = Some (site_extern c ?t)"
    for rest by simp
  moreover have "wrapper_name (site_path s) \<notin> symbols_of (map hide_memories (before h))"
    using assms(3,4) split_module_all [OF assms(2)] by (auto simp: mapping_allowed_def all_operations_def)
  then have "lookup_symbol (map hide_memories (before h)) (wrapper_name (site_path s)) = None"
    by (simp only: lookup_symbol_None not_False_eq_True)
  ultimately show ?thesis
    by (simp add: mapped_operations_def Let_def lookup_symbol_append [of "map hide_memories (before h)"])
qed

lemma mapped_instance_module:
  assumes "mapping_allowed p ops (occurrences p scope ops insts)" "resolved ops insts"
    "s \<in> set (selected (occurrences p scope ops insts))" "j < length insts"
  shows "symbol_attr (mapped_instance p scope ops (insts ! j)) ''moduleName'' = wrapper_name (site_path s)
    \<longleftrightarrow> j = site_index s"
proof (cases "\<exists>t\<in>set (selected (occurrences p scope ops insts)). site_index t = j")
  case True
  then obtain t where t: "t \<in> set (selected (occurrences p scope ops insts))" "site_index t = j" by blast
  then obtain i where i: "site_record p scope ops (i, insts ! i) = Some t" "site_decision t \<noteq> ''infer''"
    by (auto simp: selected_def set_occurrences)
  with t have "i = j" using site_record_fields by fastforce
  with i have "symbol_attr (mapped_instance p scope ops (insts ! j)) ''moduleName'' = wrapper_name (site_path t)"
    by (simp add: mapped_instance_record [where i = j] retarget_module)
  moreover have "inj_on (wrapper_name \<circ> site_path) (set (selected (occurrences p scope ops insts)))"
    using assms(1) by (simp add: mapping_allowed_def distinct_map)
  from inj_on_eq_iff [OF this t(1) assms(3)]
  have "wrapper_name (site_path t) = wrapper_name (site_path s) \<longleftrightarrow> t = s" by simp
  moreover have "t = s \<longleftrightarrow> site_index t = site_index s"
    using distinct_occurrences [of p scope ops insts] assms(3) t(1)
    by (auto simp: selected_def distinct_map dest: inj_onD)
  ultimately show ?thesis using t(2) by auto
next
  case False
  have "mapped_instance p scope ops (insts ! j) = insts ! j"
  proof (cases "site_record p scope ops (j, insts ! j)")
    case (Some t)
    with assms(4) have "t \<in> set (occurrences p scope ops insts)" by (auto simp: set_occurrences)
    with Some False have "site_decision t = ''infer''"
      by (force simp: selected_def dest: site_record_fields)
    with Some show ?thesis by (simp add: mapped_instance_record [where i = j])
  qed (simp add: mapped_instance_record [where i = j])
  moreover have "symbol_attr (insts ! j) ''moduleName'' \<noteq> wrapper_name (site_path s)"
    using assms nth_mem [OF assms(4)] unfolding resolved_def mapping_allowed_def by metis
  ultimately show ?thesis using False assms(3) by auto
qed

text \<open>C36: After a successful run every occurrence the policy selects, and no other instance of the top,
  refers to a new external module that has the ports of the generated memory and is tagged with the
  site, the macro of the policy and the source module.\<close>

theorem memory_sites_wrapped:
  assumes "circt_ok c" "map_memory_sites files fs c opts ops = (ops', Inr listing)"
    and "files (policy_path opts) = Policy_text p" "split_module (mapping_top p opts) ops = Some h"
    and "untagged ops" "resolved ops (instances (top_operation h))"
    and "s \<in> set (selected (occurrences p (scope_prefix opts) ops (instances (top_operation h))))"
  shows "\<exists>h'. split_module (mapping_top p opts) ops' = Some h' \<and> wrapped c ops' (instances (top_operation h')) s"
proof -
  let ?scope = "scope_prefix opts" and ?insts = "instances (top_operation h)"
  have r: "mapping_result files fs c opts ops ops' listing"
    using assms(1,2) mapping_pass by fastforce
  with assms(3,4) have ok: "mapping_allowed p ops (occurrences p ?scope ops ?insts)"
      "ops' = mapped_operations c p ?scope ops h"
    by (auto simp: mapping_result_def)
  have "mapping_top p opts \<in> symbols_of ops"
    using split_module_all [OF assms(4)] by (auto simp: all_operations_def)
  then have "\<forall>t\<in>set (selected (mapping_sites p ?scope ops ?insts)). wrapper_name (site_path t) \<noteq> mapping_top p opts"
    using ok(1) by (auto simp: mapping_allowed_def elim!: mapping_sites_origin)
  from split_mapped_operations [OF assms(1,4) this] ok(2) obtain h' where
    h': "split_module (mapping_top p opts) ops' = Some h'"
      "instances (top_operation h') = map (mapped_instance p ?scope ops) ?insts"
    by auto
  let ?t = "s\<lparr>site_generator := hide_memories (site_generator s)\<rparr>"
  have "site_generator s \<in> set ops"
    using assms(7) by (auto simp: selected_def set_occurrences dest: site_record_generator)
  note tags = extern_tags [OF assms(1) this assms(5)]
  have "lookup_kind Hw_extern ops' (wrapper_name (site_path s)) = Some (site_extern c ?t)"
    using wrapper_found [OF assms(1,4) ok(1) assms(7)]
    by (simp add: lookup_kind_def ok(2) site_extern_def wrapper_extern_def)
  then have "wrapped c ops' (instances (top_operation h')) s"
    unfolding wrapped_def h'(2) using mapped_instance_module [OF ok(1) assms(6,7)] tags
    by (simp add: site_extern_def)
  with h'(1) show ?thesis by blast
qed

end
