(* ===== verification/Memory_Scope.thy ===== *)
theory Memory_Scope
  imports Memory_Mapping
begin

text \<open>
  The selection of the top, and the independence of the mapping from where a design stands: the same
  design as a top of its own and flattened below a prefix of a larger top gets the same wrappers.
  Concrete instances for the properties of the pass.
\<close>

section \<open>A concrete module\<close>

text \<open>A CIRCT that keeps the ports in one attribute.\<close>

definition example_circt :: "(unit, unit attribute option) circt" where
  "example_circt = \<lparr>port_list = (\<lambda>d. om_find d ''module_type''),
     extern_attributes = (\<lambda>n ps v q as.
       (''sym_name'', Text_attr n) # (case ps of None \<Rightarrow> [] | Some t \<Rightarrow> [(''module_type'', t)])
         @ (''verilogName'', Text_attr v) # (case q of None \<Rightarrow> [] | Some t \<Rightarrow> [(''parameters'', t)])
         @ filter (\<lambda>e. \<not> is_structural_attribute (fst e)) as)\<rparr>"

lemma om_find_append: "om_find (as @ bs) k = (case om_find as k of None \<Rightarrow> om_find bs k | Some v \<Rightarrow> Some v)"
  by (induction as k rule: om_find.induct) auto

lemma om_find_filter: "P k \<Longrightarrow> om_find (filter (\<lambda>e. P (fst e)) as) k = om_find as k"
  by (induction as k rule: om_find.induct) auto

lemma om_find_distinct: "distinct (map fst as) \<Longrightarrow> (k, v) \<in> set as \<Longrightarrow> om_find as k = Some v"
  by (induction as k rule: om_find.induct) (auto simp: image_iff)

lemma structural_None: "is_structural_attribute k \<Longrightarrow>
    om_find (filter (\<lambda>e. \<not> is_structural_attribute (fst e)) as) k = None"
  by (auto simp: om_find_None)

lemma structural_keys:
  "is_structural_attribute ''module_type''" "is_structural_attribute ''sym_name''"
  "is_structural_attribute ''parameters''" "is_structural_attribute ''verilogName''"
  by (simp_all add: is_structural_attribute_def)

lemma example_extern_attributes:
  "distinct (map fst as) \<Longrightarrow> (k, a) \<in> set as \<Longrightarrow> \<not> is_structural_attribute k \<Longrightarrow>
     om_find (extern_attributes example_circt n ps v q as) k = Some a"
  using structural_keys om_find_filter [of "\<lambda>k. \<not> is_structural_attribute k" k as]
  by (auto simp: example_circt_def om_find_append om_find_distinct split: option.splits)

lemma example_extern_ports:
  "om_find (extern_attributes example_circt n ps v q as) ''sym_name'' = Some (Text_attr n)"
  "port_list example_circt (extern_attributes example_circt n ps v q as) = ps"
  "port_list example_circt (om_put ''sym_visibility'' t d) = port_list example_circt d"
  by (simp_all add: example_circt_def om_find_append om_find_put_other structural_None [OF structural_keys(1)]
      split: option.splits)

lemma circt_ok_example: "circt_ok example_circt"
  unfolding circt_ok_def Let_def using example_extern_ports example_extern_attributes by blast

definition example_generator :: "unit operation" where
  "example_generator = \<lparr>operation_kind = Hw_generated,
     attributes = [(''depth'', Other_attr ()), (''generatorKind'', Symbol_attr ''FIRRTLMem''),
       (''module_type'', Other_attr ()), (''parameters'', Other_attr ()), (''sym_name'', Text_attr ''mem'')],
     instances = []\<rparr>"

definition example_instances :: "unit dictionary list" where
  "example_instances =
     [[(''instanceName'', Text_attr ''a/data_ext''), (''moduleName'', Symbol_attr ''mem'')],
      [(''instanceName'', Text_attr ''b/data_ext''), (''moduleName'', Symbol_attr ''mem'')]]"

definition example_top :: "unit operation" where
  "example_top = \<lparr>operation_kind = Hw_module,
     attributes = [(''sym_name'', Text_attr ''Top'')], instances = example_instances\<rparr>"

definition example_policy :: memory_policy where
  "example_policy = \<lparr>schema_version = 1, policy_top = ''Top'', default_decision = ''infer'',
     policy_sites = [(''a/data'', ''macro'')]\<rparr>"

definition example_files :: inventory_files where
  "example_files = \<lparr>parent_directory = (\<lambda>_. []), directory_fails = (\<lambda>_. False), open_fails = (\<lambda>_. False)\<rparr>"

definition example_options :: pass_options where
  "example_options = \<lparr>policy_path = ''p'', inventory_path = ''i'', top_option = [], scope_prefix = []\<rparr>"

abbreviation example_run :: "unit operation list \<times> (site_error + inventory_value)" where
  "example_run \<equiv> map_memory_sites (\<lambda>_. Policy_text example_policy) example_files example_circt
     example_options [example_generator, example_top]"

lemma example_mapped: "case example_run of (ops, Inr _) \<Rightarrow> map symbol_name ops =
    [Some ''mem'', Some (wrapper_name ''a/data''), Some ''Top''] | _ \<Rightarrow> False"
  by code_simp

theorem memory_sites_mapped_witness:
  "case example_run of
     (ops, Inr listing) \<Rightarrow> mapping_result (\<lambda>_. Policy_text example_policy) example_files example_circt
       example_options [example_generator, example_top] ops listing
   | _ \<Rightarrow> False"
  using example_mapped memory_sites_mapped [OF circt_ok_example]
  by (auto split: prod.splits sum.splits)

definition example_site :: "unit memory_site" where
  "example_site = \<lparr>site_path = ''a/data'', site_instance_path = ''a/data'', site_decision = ''macro'',
     source_module = ''mem'', wrapper_module = [], site_index = 0, site_generator = example_generator\<rparr>"

lemma example_selected:
  "selected (occurrences example_policy [] [example_generator, example_top] example_instances) = [example_site]"
  by code_simp

lemma example_split: "split_module (mapping_top example_policy example_options) [example_generator, example_top]
    = Some \<lparr>before = [example_generator], top_operation = example_top, after = []\<rparr>"
  by code_simp

lemma example_untagged: "untagged [example_generator, example_top]"
  unfolding untagged_def by code_simp

lemma example_resolved: "resolved [example_generator, example_top] example_instances"
proof -
  have "list_all (\<lambda>inst. list_ex (\<lambda>op. symbol_name op = Some (symbol_attr inst ''moduleName''))
      [example_generator, example_top]) example_instances"
    by code_simp
  then show ?thesis by (simp add: resolved_def symbols_of_def list_all_iff list_ex_iff)
qed

theorem memory_sites_wrapped_witness:
  "case example_run of
     (ops, Inr listing) \<Rightarrow> \<exists>h. split_module ''Top'' ops = Some h
       \<and> wrapped example_circt ops (instances (top_operation h)) example_site
   | _ \<Rightarrow> False"
proof -
  obtain ops listing where run: "example_run = (ops, Inr listing)"
    using example_mapped by (cases example_run) (auto split: sum.splits)
  have "mapping_top example_policy example_options = ''Top''" by code_simp
  with memory_sites_wrapped [OF circt_ok_example run refl example_split example_untagged]
  have "\<exists>h. split_module ''Top'' ops = Some h
      \<and> wrapped example_circt ops (instances (top_operation h)) example_site"
    using example_selected example_resolved by (simp add: example_top_def example_options_def)
  with run show ?thesis by simp
qed

section \<open>Independence of the scope\<close>

definition prefix_instance :: "string \<Rightarrow> 'a dictionary \<Rightarrow> 'a dictionary" where
  "prefix_instance scope inst =
     om_put ''instanceName'' (Text_attr (scope @ ''/'' @ text_attr inst ''instanceName'')) inst"

definition below :: "string \<Rightarrow> 'a dictionary \<Rightarrow> bool" where
  "below scope inst \<longleftrightarrow> (\<exists>n. text_attr inst ''instanceName'' = scope @ ''/'' @ n)"

text \<open>A larger top that holds, below the prefix, the instances of a design.\<close>

definition embeds :: "string \<Rightarrow> 'a operation list \<Rightarrow> 'a dictionary list \<Rightarrow> 'a operation list \<Rightarrow> 'a dictionary list \<Rightarrow> bool" where
  "embeds scope ops insts ops2 insts2 \<longleftrightarrow>
     (\<forall>inst. generator_of ops2 inst = generator_of ops inst)
     \<and> filter (below scope) insts2 = map (prefix_instance scope) insts
     \<and> (\<forall>inst\<in>set insts. canonical_site_path (text_attr inst ''instanceName'') \<noteq> [])"

lemma ends_with_iff: "ends_with t s \<longleftrightarrow> (\<exists>p. s = p @ t)"
proof
  assume "ends_with t s"
  then have "s = take (length s - length t) s @ t"
    unfolding ends_with_def by (metis append_take_drop_id)
  then show "\<exists>p. s = p @ t" by blast
qed (auto simp: ends_with_def)

lemma canonical_append: "canonical_site_path (p @ ''_ext'') = p"
  by (simp add: canonical_site_path_def ends_with_iff)

lemma canonical_prefix: "canonical_site_path (q @ ''/'' @ n) = q @ ''/'' @ canonical_site_path n"
proof (cases "ends_with ''_ext'' n")
  case True
  then obtain p where "n = p @ ''_ext''" by (auto simp: ends_with_iff)
  then show ?thesis using canonical_append [of "q @ ''/'' @ p"] by (simp add: canonical_append)
next
  case False
  have "\<not> ends_with ''_ext'' (q @ ''/'' @ n)"
  proof
    assume "ends_with ''_ext'' (q @ ''/'' @ n)"
    then obtain p where "q @ ''/'' @ n = p @ ''_ext''" by (auto simp: ends_with_iff)
    then obtain r where "q @ ''/'' = p @ r \<and> r @ n = ''_ext'' \<or> n = r @ ''_ext''"
      by (auto simp: append_eq_append_conv2 [of "q @ ''/''" n, simplified])
    with False show False
      by (auto simp: ends_with_iff append_eq_Cons_conv Cons_eq_append_conv)
  qed
  with False show ?thesis by (simp add: canonical_site_path_def)
qed

text \<open>A site without what depends on where it was found.\<close>

definition site_core :: "'a memory_site \<Rightarrow> 'a memory_site" where
  "site_core s = s\<lparr>site_instance_path := [], site_index := 0\<rparr>"

lemma consume_front_iff: "consume_front p s = Some r \<longleftrightarrow> s = p @ r"
  by (auto simp: consume_front_def) (metis append_take_drop_id)

lemma scoped_path_prefix: "scope \<noteq> [] \<Longrightarrow> m \<noteq> [] \<Longrightarrow> scoped_path scope (scope @ ''/'' @ m) = Some m"
  by (simp add: scoped_path_def consume_front_def)

lemma scoped_path_below:
  assumes "scope \<noteq> []" "scoped_path scope (canonical_site_path n) = Some m"
  shows "\<exists>k. n = scope @ ''/'' @ k"
proof -
  have "canonical_site_path n = scope @ ''/'' @ m"
    using assms by (auto simp: scoped_path_def consume_front_iff split: if_splits option.splits)
  moreover have "n = canonical_site_path n \<or> n = canonical_site_path n @ ''_ext''"
    by (auto simp: canonical_site_path_def ends_with_iff)
  ultimately show ?thesis by auto
qed

lemma record_outside: "scope \<noteq> [] \<Longrightarrow> \<not> below scope inst \<Longrightarrow> site_record p scope ops (i, inst) = None"
  by (auto simp: site_record_def below_def Let_def split: option.splits dest: scoped_path_below)

lemma generator_of_prefix: "generator_of ops (prefix_instance scope inst) = generator_of ops inst"
  by (simp add: generator_of_def symbol_attr_def prefix_instance_def om_find_put_other)

lemma instance_name_prefix:
  "text_attr (prefix_instance scope inst) ''instanceName'' = scope @ ''/'' @ text_attr inst ''instanceName''"
  by (simp add: prefix_instance_def text_attr_def om_find_put_same)

lemma record_prefix:
  assumes "scope \<noteq> []" "canonical_site_path (text_attr inst ''instanceName'') \<noteq> []"
    "generator_of ops2 inst = generator_of ops inst"
  shows "map_option site_core (site_record p scope ops2 (i, prefix_instance scope inst))
    = map_option site_core (site_record p [] ops (j, inst))"
proof -
  have "scoped_path scope (canonical_site_path (scope @ ''/'' @ text_attr inst ''instanceName''))
      = Some (canonical_site_path (text_attr inst ''instanceName''))"
    unfolding canonical_prefix by (rule scoped_path_prefix [OF assms(1,2)])
  then show ?thesis
    using assms(3) by (simp add: site_record_def generator_of_prefix instance_name_prefix scoped_path_def [of "[]"]
        site_core_def Let_def split: option.splits)
qed

lemma core_occurrences:
  "map site_core (List.map_filter (site_record p scope ops) (enumerate n insts))
    = List.map_filter (\<lambda>inst. map_option site_core (site_record p scope ops (0, inst))) insts"
proof (induction insts arbitrary: n)
  case (Cons inst insts)
  from Cons.IH [of "Suc n"] show ?case
    by (cases "site_record p scope ops (0, inst)")
      (simp_all add: map_filter_Cons site_record_index [of p scope ops n] site_core_def)
qed (simp add: List.map_filter_simps)

lemma map_filter_outside:
  "(\<And>x. \<not> P x \<Longrightarrow> f x = None) \<Longrightarrow> List.map_filter f xs = List.map_filter f (filter P xs)"
  by (induction xs) (auto simp: map_filter_Cons split: option.splits)

lemma map_filter_map_cong:
  "(\<And>x. x \<in> set xs \<Longrightarrow> f (g x) = h x) \<Longrightarrow> List.map_filter f (map g xs) = List.map_filter h xs"
  by (induction xs) (auto simp: map_filter_Cons split: option.splits)

lemma core_occurrences_embeds:
  assumes "scope \<noteq> []" "embeds scope ops insts ops2 insts2"
  shows "map site_core (occurrences p scope ops2 insts2) = map site_core (occurrences p [] ops insts)"
proof -
  let ?f = "\<lambda>inst. map_option site_core (site_record p scope ops2 (0, inst))"
  have "List.map_filter ?f insts2 = List.map_filter ?f (map (prefix_instance scope) insts)"
    using assms(2) map_filter_outside [of "below scope" ?f insts2]
    by (simp add: embeds_def record_outside [OF assms(1)])
  also have "\<dots> = List.map_filter (\<lambda>inst. map_option site_core (site_record p [] ops (0, inst))) insts"
    using assms(2) by (intro map_filter_map_cong record_prefix [OF assms(1)]) (simp_all add: embeds_def)
  finally show ?thesis by (simp add: occurrences_def core_occurrences)
qed

lemma sort_key_core:
  assumes "\<And>x. f (g x) = f x"
  shows "map g (sort_key f xs) = sort_key f (map g xs)"
proof -
  have "map g (insort_key f x ys) = insort_key f (g x) (map g ys)" for x ys
    by (induction ys) (simp_all add: assms)
  then show ?thesis by (induction xs) simp_all
qed

lemma selected_core: "selected (map site_core ss) = map site_core (selected ss)"
  by (induction ss) (simp_all add: selected_def site_core_def)

lemma mapping_sites_embeds:
  assumes "scope \<noteq> []" "embeds scope ops insts ops2 insts2"
  shows "map site_core (selected (mapping_sites p scope ops2 insts2))
    = map site_core (selected (mapping_sites p [] ops insts))"
proof -
  have core: "map site_core (mapping_sites p q xs is)
      = map (\<lambda>s. s\<lparr>site_generator := hide_memories (site_generator s)\<rparr>)
          (sort_key site_path (map site_core (occurrences p q xs is)))"
    for q and xs :: "'a operation list" and "is"
    by (subst sort_key_core [symmetric]) (simp_all add: mapping_sites_def site_core_def)
  show ?thesis
    unfolding selected_core [symmetric] core core_occurrences_embeds [OF assms] ..
qed

lemma map_site_extern_core: "map (site_extern c) ss = map (site_extern c) (map site_core ss)"
  by (simp add: site_extern_def site_core_def)

definition externs :: "'a operation list \<Rightarrow> 'a operation list" where
  "externs ops = filter (\<lambda>op. operation_kind op = Hw_extern) ops"

lemma operation_kind_hide [simp]: "operation_kind (hide_memories op) = operation_kind op"
  by (simp add: hide_memories_def set_visibility_def)

lemma externs_mapped:
  assumes "split_module tp ops = Some h" "externs ops = []" "operation_kind (top_operation h) = Hw_module"
  shows "externs (mapped_operations c p scope ops h)
    = map (site_extern c) (selected (mapping_sites p scope ops (instances (top_operation h))))"
proof -
  have "\<forall>op\<in>set (before h) \<union> set (after h). operation_kind op \<noteq> Hw_extern"
    using split_module_all [OF assms(1)] assms(2,3)
    by (auto simp: externs_def all_operations_def filter_empty_conv)
  moreover have "filter (\<lambda>op. operation_kind op = Hw_extern) (map (site_extern c) ss) = map (site_extern c) ss" for ss
    by (simp add: filter_id_conv site_extern_def wrapper_extern_def)
  ultimately show ?thesis
    using assms(3) by (simp add: mapped_operations_def externs_def Let_def filter_empty_conv)
qed

text \<open>C37: The wrappers do not depend on where a design stands: when a larger top holds the instances of a
  design below a scope prefix, a successful run with that prefix adds the same external modules, in
  the same order, as a successful run on the design as its own top.\<close>

theorem memory_sites_scope:
  assumes "circt_ok c" "scope_prefix opts = []" "scope_prefix opts2 \<noteq> []"
    and "policy_path opts2 = policy_path opts" "files (policy_path opts) = Policy_text p"
    and "map_memory_sites files fs c opts ops = (ops', Inr listing)"
    and "map_memory_sites files fs c opts2 ops2 = (ops2', Inr listing2)"
    and "split_module (mapping_top p opts) ops = Some h" "split_module (mapping_top p opts2) ops2 = Some h2"
    and "externs ops = []" "externs ops2 = []"
    and "embeds (scope_prefix opts2) ops (instances (top_operation h)) ops2 (instances (top_operation h2))"
  shows "externs ops2' = externs ops'"
proof -
  have r: "mapping_result files fs c opts ops ops' listing" "mapping_result files fs c opts2 ops2 ops2' listing2"
    using assms(1,6,7) mapping_pass by fastforce+
  then have "externs ops' = map (site_extern c) (selected (mapping_sites p [] ops (instances (top_operation h))))"
      "externs ops2' = map (site_extern c)
        (selected (mapping_sites p (scope_prefix opts2) ops2 (instances (top_operation h2))))"
    using assms externs_mapped by (auto simp: mapping_result_def)
  then show ?thesis
    using mapping_sites_embeds [OF assms(3,12)] by (metis map_site_extern_core)
qed

text \<open>The example flattened below \<open>soc\<close> in a larger top.\<close>

definition harness_top :: "unit operation" where
  "harness_top = \<lparr>operation_kind = Hw_module, attributes = [(''sym_name'', Text_attr ''Harness'')],
     instances =
       [[(''instanceName'', Text_attr ''rom_ext''), (''moduleName'', Symbol_attr ''mem'')],
        [(''instanceName'', Text_attr ''soc/a/data_ext''), (''moduleName'', Symbol_attr ''mem'')],
        [(''instanceName'', Text_attr ''soc/b/data_ext''), (''moduleName'', Symbol_attr ''mem'')]]\<rparr>"

definition harness_options :: pass_options where
  "harness_options = \<lparr>policy_path = ''p'', inventory_path = ''i'', top_option = ''Harness'', scope_prefix = ''soc''\<rparr>"

abbreviation harness_run :: "unit operation list \<times> (site_error + inventory_value)" where
  "harness_run \<equiv> map_memory_sites (\<lambda>_. Policy_text example_policy) example_files example_circt
     harness_options [example_generator, harness_top]"

lemma harness_mapped: "case harness_run of (ops, Inr _) \<Rightarrow> map symbol_name ops =
    [Some ''mem'', Some (wrapper_name ''a/data''), Some ''Harness''] | _ \<Rightarrow> False"
  by code_simp

lemma harness_split: "split_module (mapping_top example_policy harness_options) [example_generator, harness_top]
    = Some \<lparr>before = [example_generator], top_operation = harness_top, after = []\<rparr>"
  by code_simp

lemma example_externs:
  "externs [example_generator, example_top] = []" "externs [example_generator, harness_top] = []"
  by (simp_all add: externs_def example_generator_def example_top_def harness_top_def)

lemma generator_of_top:
  "operation_kind t = Hw_module \<Longrightarrow> generator_of [g, t] inst = generator_of [g] inst"
  by (simp add: generator_of_def lookup_kind_def lookup_symbol_def)

lemma below_iff: "below scope inst \<longleftrightarrow> take (length scope + 1) (text_attr inst ''instanceName'') = scope @ ''/''"
proof -
  have "take (length scope + 1) n = scope @ ''/'' \<Longrightarrow> n = scope @ ''/'' @ drop (length scope + 1) n" for n
    by (metis append.assoc append_take_drop_id)
  then show ?thesis by (auto simp: below_def)
qed

lemma harness_embeds:
  "embeds ''soc'' [example_generator, example_top] example_instances
     [example_generator, harness_top] (instances harness_top)"
  unfolding embeds_def
proof (intro conjI allI)
  show "generator_of [example_generator, harness_top] inst = generator_of [example_generator, example_top] inst"
    for inst by (simp add: generator_of_top harness_top_def example_top_def)
  show "filter (below ''soc'') (instances harness_top) = map (prefix_instance ''soc'') example_instances"
    unfolding below_iff [abs_def] by code_simp
  show "\<forall>inst\<in>set example_instances. canonical_site_path (text_attr inst ''instanceName'') \<noteq> []"
    by code_simp
qed

theorem memory_sites_scope_witness:
  "case (example_run, harness_run) of
     ((ops, Inr _), (ops2, Inr _)) \<Rightarrow> externs ops2 = externs ops
   | _ \<Rightarrow> False"
proof -
  obtain ops listing where run: "example_run = (ops, Inr listing)"
    using example_mapped by (cases example_run) (auto split: sum.splits)
  obtain ops2 listing2 where run2: "harness_run = (ops2, Inr listing2)"
    using harness_mapped by (cases harness_run) (auto split: sum.splits)
  have "externs ops2 = externs ops"
    by (rule memory_sites_scope [OF circt_ok_example _ _ _ refl run run2 example_split harness_split example_externs])
      (use harness_embeds in \<open>simp_all add: example_options_def harness_options_def example_top_def\<close>)
  with run run2 show ?thesis by simp
qed

section \<open>The selection of the top\<close>

definition public :: "'a operation \<Rightarrow> bool" where
  "public op \<longleftrightarrow> om_find (attributes op) ''sym_visibility'' \<noteq> Some (Text_attr ''private'')"

lemma public_visibility: "public (set_visibility b op) \<longleftrightarrow> b"
  by (simp add: public_def set_visibility_def om_find_put_same om_find_erase)

lemma visibility_keeps [simp]:
  "operation_kind (set_visibility b op) = operation_kind op" "instances (set_visibility b op) = instances op"
  by (simp_all add: set_visibility_def)

text \<open>Selecting a top succeeds exactly when a module of that name exists; it never renames, drops or
  reorders an operation, touches modules only, and leaves exactly the modules of that name public.\<close>

theorem select_hw_top_exact:
  "select_hw_top wanted ops = (ops', r) \<Longrightarrow> wanted \<noteq> [] \<Longrightarrow>
     (r = Inr () \<longleftrightarrow> (\<exists>op\<in>set ops. operation_kind op = Hw_module \<and> symbol_name op = Some wanted))
     \<and> list_all2 (\<lambda>op op'. symbol_name op' = symbol_name op \<and> operation_kind op' = operation_kind op
          \<and> instances op' = instances op
          \<and> (if operation_kind op = Hw_module then public op' \<longleftrightarrow> symbol_name op = Some wanted else op' = op))
        ops ops'"
  by (auto simp: select_hw_top_def list_all2_map2 list_all2_same public_visibility split: if_splits)

theorem select_hw_top_exact_witness:
  "\<exists>ops'. select_hw_top ''Top'' [example_generator, example_top] = (ops', Inr ())
    \<and> list_all2 (\<lambda>op op'. operation_kind op = Hw_module \<longrightarrow> public op') [example_generator, example_top] ops'"
proof -
  obtain ops' r where run: "select_hw_top ''Top'' [example_generator, example_top] = (ops', r)"
    by (cases "select_hw_top ''Top'' [example_generator, example_top]")
  from select_hw_top_exact [OF run] show ?thesis
    unfolding run by (auto simp: example_generator_def example_top_def symbol_name_def list_all2_Cons1)
qed

end
