(* ===== verification/Perfetto_Gzip.thy ===== *)
theory Perfetto_Gzip
  imports Perfetto_Export
begin

text \<open>
  The gzip encoder between the writer and its output: \<open>pump\<close> hands zlib one input and one output
  buffer, \<open>write\<close> feeds a batch in pieces of at most 65536 bytes, \<open>finish\<close> drains zlib. zlib's
  \<open>deflate\<close> is an argument: from its state, the bytes left to read, the size of the output buffer and
  whether the stream is being finished it yields the new state, the number of bytes read, the bytes
  produced and its result. The loops may run as long as zlib asks for more: \<open>None\<close> is a loop that
  does not return.
\<close>

section \<open>The encoder\<close>

datatype deflate_result = Deflate_ok | Deflate_end | Deflate_error

type_synonym 'z deflate = "'z \<Rightarrow> u8 list \<Rightarrow> nat \<Rightarrow> bool \<Rightarrow> 'z \<times> nat \<times> u8 list \<times> deflate_result"

definition pump ::
    "'z deflate \<Rightarrow> 'o sink \<Rightarrow> bool \<Rightarrow> 'z \<times> 'o \<Rightarrow> u8 list
      \<Rightarrow> ('z \<times> 'o) \<times> (export_error + u8 list \<times> deflate_result)" where
  "pump zl k finishing s input = (case s of (z, out) \<Rightarrow>
     case zl z input 32768 finishing of (z, n, bs, r) \<Rightarrow>
       if r = Deflate_error then ((z, out), Inl Gzip_failed)
       else let out = plain_write k out bs in
         if \<not> stream_good k out then ((z, out), Inl Output_write_failed)
         else ((z, out), Inr (drop n input, r)))"

text \<open>\<open>while (state.avail_in)\<close>.\<close>

partial_function (option) pump_input ::
    "'z deflate \<Rightarrow> 'o sink \<Rightarrow> 'z \<times> 'o \<Rightarrow> u8 list \<Rightarrow> (('z \<times> 'o) \<times> (export_error + unit)) option" where
  [code]: "pump_input zl k s input =
     (if input = [] then Some (s, Inr ())
      else case pump zl k False s input of
        (s, Inl e) \<Rightarrow> Some (s, Inl e)
      | (s, Inr (rest, r)) \<Rightarrow> pump_input zl k s rest)"

function gzip_encoder_write ::
    "'z deflate \<Rightarrow> 'o sink \<Rightarrow> 'z \<times> 'o \<Rightarrow> u8 list \<Rightarrow> (('z \<times> 'o) \<times> (export_error + unit)) option" where
  "gzip_encoder_write zl k s data =
     (if data = [] then Some (s, Inr ())
      else case pump_input zl k s (take 65536 data) of
        None \<Rightarrow> None
      | Some (s, Inl e) \<Rightarrow> Some (s, Inl e)
      | Some (s, Inr _) \<Rightarrow> gzip_encoder_write zl k s (drop 65536 data))"
  by pat_completeness auto
termination by (relation "measure (\<lambda>(zl, k, s, data). length data)") auto

declare gzip_encoder_write.simps [simp del]

partial_function (option) gzip_encoder_finish ::
    "'z deflate \<Rightarrow> 'o sink \<Rightarrow> 'z \<times> 'o \<Rightarrow> (('z \<times> 'o) \<times> (export_error + unit)) option" where
  [code]: "gzip_encoder_finish zl k s =
     (case pump zl k True s [] of
        (s, Inl e) \<Rightarrow> Some (s, Inl e)
      | (s, Inr (rest, r)) \<Rightarrow> if r = Deflate_end then Some (s, Inr ()) else gzip_encoder_finish zl k s)"

text \<open>The output of a writer with its encoder. A loop that does not return has no result; the value
  given to it here is never reached with a zlib that makes progress.\<close>

definition returned :: "'s \<Rightarrow> ('s \<times> (export_error + unit)) option \<Rightarrow> 's \<times> export_error option" where
  "returned s r = (case r of None \<Rightarrow> (s, Some Gzip_failed)
     | Some (s, Inl e) \<Rightarrow> (s, Some e) | Some (s, Inr _) \<Rightarrow> (s, None))"

definition gzip_sink :: "'z deflate \<Rightarrow> 'o sink \<Rightarrow> ('z \<times> 'o) sink" where
  "gzip_sink zl k = \<lparr>plain_write = (\<lambda>(z, out) bs. (z, plain_write k out bs)),
     gzip_write = (\<lambda>s bs. returned s (gzip_encoder_write zl k s bs)),
     gzip_finish = (\<lambda>s. returned s (gzip_encoder_finish zl k s)),
     stream_flush = (\<lambda>(z, out). (z, stream_flush k out)),
     stream_good = (\<lambda>(z, out). stream_good k out)\<rparr>"

section \<open>zlib\<close>

text \<open>Progress: every successful call reads input or has less left to emit.\<close>

definition zlib_progress :: "'z deflate \<Rightarrow> ('z \<Rightarrow> nat) \<Rightarrow> bool" where
  "zlib_progress zl m \<longleftrightarrow>
     (\<forall>z input z' n bs r. input \<noteq> [] \<longrightarrow> zl z input 32768 False = (z', n, bs, r) \<longrightarrow>
        r \<noteq> Deflate_error \<longrightarrow> 0 < n \<or> m z' < m z)
     \<and> (\<forall>z z' n bs. zl z [] 32768 True = (z', n, bs, Deflate_ok) \<longrightarrow> m z' < m z)"

text \<open>What was read and what was produced by a sequence of calls, before and while finishing.\<close>

inductive deflated :: "'z deflate \<Rightarrow> 'z \<Rightarrow> bool \<Rightarrow> 'z \<Rightarrow> u8 list \<Rightarrow> u8 list \<Rightarrow> bool" for zl z0 where
  start: "deflated zl z0 False z0 [] []"
| feed: "deflated zl z0 False z i out \<Longrightarrow> rest \<noteq> [] \<Longrightarrow> zl z rest 32768 False = (z', n, bs, r) \<Longrightarrow>
    r \<noteq> Deflate_error \<Longrightarrow> deflated zl z0 False z' (i @ take n rest) (out @ bs)"
| drain: "deflated zl z0 f z i out \<Longrightarrow> zl z [] 32768 True = (z', n, bs, Deflate_ok) \<Longrightarrow>
    deflated zl z0 True z' i (out @ bs)"

text \<open>The result of \<open>deflate\<close> on a finished stream is a member that decompresses to its input.\<close>

definition zlib_lossless :: "'z deflate \<Rightarrow> 'z \<Rightarrow> (u8 list \<Rightarrow> u8 list option) \<Rightarrow> bool" where
  "zlib_lossless zl z0 decode \<longleftrightarrow> (\<forall>f z i out z' n bs. deflated zl z0 f z i out \<longrightarrow>
     zl z [] 32768 True = (z', n, bs, Deflate_end) \<longrightarrow> decode (out @ bs) = Some i)"

text \<open>An output stream: what is written while it stays good is appended.\<close>

definition collects :: "'o sink \<Rightarrow> ('o \<Rightarrow> u8 list) \<Rightarrow> bool" where
  "collects k text_of \<longleftrightarrow>
     (\<forall>out bs. stream_good k (plain_write k out bs) \<longrightarrow> text_of (plain_write k out bs) = text_of out @ bs)
     \<and> (\<forall>out. text_of (stream_flush k out) = text_of out)"

section \<open>Termination\<close>

lemma zlib_progress_feed:
  "zlib_progress zl m \<Longrightarrow> input \<noteq> [] \<Longrightarrow> zl z input 32768 False = (z', n, bs, r) \<Longrightarrow>
     r \<noteq> Deflate_error \<Longrightarrow> 0 < n \<or> m z' < m z"
  by (simp add: zlib_progress_def)

lemma zlib_progress_drain:
  "zlib_progress zl m \<Longrightarrow> zl z [] 32768 True = (z', n, bs, Deflate_ok) \<Longrightarrow> m z' < m z"
  by (simp add: zlib_progress_def)

lemma pump_input_returns:
  assumes "zlib_progress zl m"
  shows "\<exists>r. pump_input zl k s input = Some r"
proof (induction "(length input, m (fst s))" arbitrary: s input rule: wf_induct_rule [OF wf_lex_prod [OF wf_less_than wf_less_than]])
  case 1
  show ?case
  proof (cases "input = []")
    case False
    obtain z out where s: "s = (z, out)" by (cases s)
    obtain z' n bs r where d: "zl z input 32768 False = (z', n, bs, r)" by (metis prod_cases4)
    have "r \<noteq> Deflate_error \<longrightarrow> 0 < n \<or> m z' < m z"
      using zlib_progress_feed [OF assms False d] by blast
    then have less: "((length (drop n input), m z'), (length input, m z)) \<in> less_than <*lex*> less_than"
      if "r \<noteq> Deflate_error"
      using that False by (cases "n = 0") auto
    show ?thesis
    proof (cases "r = Deflate_error \<or> \<not> stream_good k (plain_write k out bs)")
      case True
      then show ?thesis
        by (subst pump_input.simps) (auto simp: s d pump_def Let_def)
    next
      case F: False
      then have "\<exists>r. pump_input zl k (z', plain_write k out bs) (drop n input) = Some r"
        using 1 less by (auto simp: s)
      with F False show ?thesis
        by (subst pump_input.simps) (simp add: s d pump_def Let_def)
    qed
  qed (subst pump_input.simps, simp)
qed

lemma encoder_write_returns:
  assumes "zlib_progress zl m"
  shows "\<exists>r. gzip_encoder_write zl k s data = Some r"
proof (induction "length data" arbitrary: s data rule: less_induct)
  case less
  obtain s1 r where p: "pump_input zl k s (take 65536 data) = Some (s1, r)"
    using pump_input_returns [OF assms] by (metis prod.exhaust)
  show ?case
  proof (cases "data = [] \<or> (\<exists>e. r = Inl e)")
    case True
    with p show ?thesis by (auto simp: gzip_encoder_write.simps [of zl k s data])
  next
    case False
    then have "\<exists>r. gzip_encoder_write zl k s1 (drop 65536 data) = Some r" by (intro less) auto
    with p False show ?thesis
      by (cases r) (simp_all add: gzip_encoder_write.simps [of zl k s data])
  qed
qed

lemma encoder_finish_returns:
  assumes "zlib_progress zl m"
  shows "\<exists>r. gzip_encoder_finish zl k s = Some r"
proof (induction "m (fst s)" arbitrary: s rule: less_induct)
  case less
  obtain z out where s: "s = (z, out)" by (cases s)
  obtain z' n bs r where d: "zl z [] 32768 True = (z', n, bs, r)" by (metis prod_cases4)
  show ?case
  proof (cases "r = Deflate_ok \<and> stream_good k (plain_write k out bs)")
    case True
    then have "m z' < m z" using zlib_progress_drain [OF assms] d by blast
    then have "\<exists>r. gzip_encoder_finish zl k (z', plain_write k out bs) = Some r"
      using less by (simp add: s)
    with True show ?thesis
      by (simp add: gzip_encoder_finish.simps [of zl k "(z, out)"] s d pump_def Let_def)
  next
    case False
    then show ?thesis
      by (cases r) (simp_all add: gzip_encoder_finish.simps [of zl k "(z, out)"] s d pump_def Let_def)
  qed
qed

section \<open>Lossless encoding\<close>

lemma pump_iff:
  "pump zl k fin (z, out) input = ((z', out'), Inr (rest, r)) \<longleftrightarrow>
     (\<exists>n bs. zl z input 32768 fin = (z', n, bs, r) \<and> r \<noteq> Deflate_error \<and> out' = plain_write k out bs
        \<and> stream_good k out' \<and> rest = drop n input)"
  by (auto simp: pump_def Let_def split: prod.splits)

lemma pump_text:
  assumes "collects k text_of" "pump zl k fin (z, out) input = ((z', out'), Inr (rest, r))"
  obtains n bs where "zl z input 32768 fin = (z', n, bs, r)" "r \<noteq> Deflate_error"
    "text_of out' = text_of out @ bs" "rest = drop n input"
  using assms by (auto simp: pump_iff collects_def)

lemma pump_input_deflated:
  assumes "pump_input zl k s input = Some y" "collects k text_of"
    "deflated zl z0 False (fst s) i (text_of (snd s))" "snd y = Inr ()"
  shows "deflated zl z0 False (fst (fst y)) (i @ input) (text_of (snd (fst y)))"
  using assms
proof (induction arbitrary: i rule: pump_input.raw_induct [rotated, consumes 1, case_names 1])
  case (1 loop zl k s input y)
  show ?case
  proof (cases "input = []")
    case False
    obtain z out where s: "s = (z, out)" by (cases s)
    obtain z1 out1 rest r where p: "pump zl k False s input = ((z1, out1), Inr (rest, r))"
      and l: "loop zl k (z1, out1) rest = Some y"
      using 1(2) "1.prems"(3) False by (auto split: prod.splits sum.splits)
    from pump_text [OF "1.prems"(1) p [unfolded s]] obtain n bs where d:
      "zl z input 32768 False = (z1, n, bs, r)" "r \<noteq> Deflate_error"
      "text_of out1 = text_of out @ bs" "rest = drop n input" .
    have "deflated zl z0 False z i (text_of out)" using "1.prems"(2) by (simp add: s)
    from deflated.feed [OF this False d(1,2)]
    have "deflated zl z0 False z1 (i @ take n input) (text_of out1)" by (simp add: d(3))
    with 1(1) [OF l "1.prems"(1) _ "1.prems"(3), of "i @ take n input"] show ?thesis by (simp add: d(4))
  qed (use 1 in auto)
qed

lemma encoder_write_deflated:
  assumes "gzip_encoder_write zl k s data = Some y" "collects k text_of"
    "deflated zl z0 False (fst s) i (text_of (snd s))" "snd y = Inr ()"
  shows "deflated zl z0 False (fst (fst y)) (i @ data) (text_of (snd (fst y)))"
  using assms(1,3)
proof (induction "length data" arbitrary: s data i rule: less_induct)
  case less
  show ?case
  proof (cases "data = []")
    case True
    with less(2,3) show ?thesis by (auto simp: gzip_encoder_write.simps)
  next
    case False
    then obtain s1 where p: "pump_input zl k s (take 65536 data) = Some (s1, Inr ())"
        "gzip_encoder_write zl k s1 (drop 65536 data) = Some y"
      using less(2) assms(4)
      by (auto simp: gzip_encoder_write.simps [of zl k s data] split: option.splits prod.splits sum.splits)
    have "deflated zl z0 False (fst s1) (i @ take 65536 data) (text_of (snd s1))"
      using pump_input_deflated [OF p(1) assms(2) less(3)] by simp
    from less(1) [OF _ p(2) this] False show ?thesis by simp
  qed
qed

lemma encoder_finish_complete:
  assumes "gzip_encoder_finish zl k s = Some y" "collects k text_of" "zlib_lossless zl z0 decode"
    "deflated zl z0 f (fst s) i (text_of (snd s))" "snd y = Inr ()"
  shows "decode (text_of (snd (fst y))) = Some i"
  using assms
proof (induction arbitrary: f rule: gzip_encoder_finish.raw_induct [rotated, consumes 1, case_names 1])
  case (1 loop zl k s y)
  obtain z out where s: "s = (z, out)" by (cases s)
  obtain z1 out1 rest r where p: "pump zl k True s [] = ((z1, out1), Inr (rest, r))"
    using 1(2) "1.prems"(4) by (auto split: prod.splits sum.splits)
  from pump_text [OF "1.prems"(1) p [unfolded s]] obtain n bs where d:
    "zl z [] 32768 True = (z1, n, bs, r)" "r \<noteq> Deflate_error" "text_of out1 = text_of out @ bs" .
  have before: "deflated zl z0 f z i (text_of out)" using "1.prems"(3) by (simp add: s)
  show ?case
  proof (cases r)
    case Deflate_end
    with 1(2) p have "y = ((z1, out1), Inr ())" by simp
    with "1.prems"(2) before d Deflate_end show ?thesis by (simp add: zlib_lossless_def)
  next
    case Deflate_ok
    with 1(2) p have l: "loop zl k (z1, out1) = Some y" by simp
    from deflated.drain [OF before d(1) [unfolded Deflate_ok]]
    have "deflated zl z0 True z1 i (text_of out1)" by (simp add: d(3))
    with 1(1) [OF l "1.prems"(1,2) _ "1.prems"(4)] show ?thesis by simp
  qed (use d in simp)
qed

end
