(* ===== verification/Perfetto_Compressed.thy ===== *)
theory Perfetto_Compressed
  imports Perfetto_Gzip Perfetto_Failure
begin

text \<open>
  Compression is transparent: everything the writer does but handing bytes to its output is the same
  with and without gzip, so a compressed trace decompresses to the trace that would have been
  written plainly.
\<close>

section \<open>What does not depend on the compression\<close>

text \<open>The other members of a writer.\<close>

lemma members_gzip:
  "stalls (w\<lparr>gzip := z\<rparr>) = stalls w"
  "desc (w\<lparr>gzip := z\<rparr>) = desc w"
  "wtiming (w\<lparr>gzip := z\<rparr>) = wtiming w"
  "instructions (w\<lparr>gzip := z\<rparr>) = instructions w"
  "strings (w\<lparr>gzip := z\<rparr>) = strings w"
  "can_parent (w\<lparr>gzip := z\<rparr>) = can_parent w"
  "known (w\<lparr>gzip := z\<rparr>) = known w"
  "watermark (w\<lparr>gzip := z\<rparr>) = watermark w"
  "write_failed (w\<lparr>gzip := z\<rparr>) = write_failed w"
  "finished (w\<lparr>gzip := z\<rparr>) = finished w"
  by simp_all

text \<open>The definitions that take a writer, down to its members.\<close>

lemmas writer_functions =
  track_at_def [abs_def] stall_site_def [abs_def] timestamp_def [abs_def] event_def [abs_def]
  flow_def [abs_def] close_stall_def [abs_def] close_stalls_def [abs_def]
  check_batch_node_def [abs_def] check_batch_edge_def [abs_def] check_batch_def [abs_def]
  slice_name_def [abs_def] slice_body_def [abs_def] end_slice_def [abs_def]
  close_step_def [abs_def] enter_cycle_def [abs_def] next_identity_def [abs_def]
  admit_node_def [abs_def] flow_identity_def [abs_def] begin_slice_def [abs_def]
  parent_flow_def [abs_def] new_slice_def [abs_def] emit_node_def [abs_def]
  emit_batch_def [abs_def]

lemma functions_gzip:
  "check_batch (w\<lparr>gzip := z\<rparr>) = check_batch w"
  "close_stalls (w\<lparr>gzip := z\<rparr>) = close_stalls w"
  "emit_batch L (w\<lparr>gzip := z\<rparr>) = emit_batch L w"
  by (unfold writer_functions members_gzip) (rule refl)+

section \<open>An output in memory\<close>

definition memory_sink :: "u8 list sink" where
  "memory_sink = \<lparr>plain_write = (\<lambda>out bs. out @ bs), gzip_write = (\<lambda>out bs. (out, Some Gzip_failed)),
     gzip_finish = (\<lambda>out. (out, Some Gzip_failed)), stream_flush = (\<lambda>out. out), stream_good = (\<lambda>_. True)\<rparr>"

lemma memory_sink_good: "stream_flush memory_sink out = out" "stream_good memory_sink out"
  by (simp_all add: memory_sink_def)

lemma flush_memory: "flush memory_sink (w\<lparr>gzip := False\<rparr>) data out =
    (if write_failed w then (w\<lparr>gzip := False\<rparr>, out, Inl Output_failed_before)
     else if int (length data) > streamsize_max then (w\<lparr>gzip := False\<rparr>, out, Inl Batch_too_large)
     else (w\<lparr>gzip := False\<rparr>, out @ data, Inr ()))"
  by (simp add: flush_def sink_result_def memory_sink_def Let_def)

text \<open>A compressing writer against a plain one: the encoder has taken exactly the plain bytes.\<close>

definition encodes :: "'z deflate \<Rightarrow> 'z \<Rightarrow> ('o \<Rightarrow> u8 list) \<Rightarrow> 'z \<times> 'o \<Rightarrow> u8 list \<Rightarrow> bool" where
  "encodes zl z0 text_of s bs \<longleftrightarrow> deflated zl z0 False (fst s) bs (text_of (snd s))"

lemma flush_encodes:
  assumes "collects k text_of" "gzip w" "encodes zl z0 text_of s bs"
    "flush (gzip_sink zl k) w data s = (w', s', Inr ())"
  shows "w' = w \<and> encodes zl z0 text_of s' (bs @ data)
    \<and> flush memory_sink (w\<lparr>gzip := False\<rparr>) data bs = (w\<lparr>gzip := False\<rparr>, bs @ data, Inr ())"
proof -
  have ok: "\<not> write_failed w" "\<not> int (length data) > streamsize_max"
    using assms(4) by (auto simp: flush_def split: if_splits)
  then obtain s1 where w: "gzip_encoder_write zl k s data = Some (s1, Inr ())" "w' = w"
      "s' = (fst s1, stream_flush k (snd s1))"
    using assms(2,4) by (auto simp: flush_def sink_result_def gzip_sink_def returned_def Let_def
        split: option.splits sum.splits prod.splits if_splits)
  have "deflated zl z0 False (fst s1) (bs @ data) (text_of (snd s1))"
    using encoder_write_deflated [OF w(1) assms(1)] assms(3) by (simp add: encodes_def)
  with w ok assms(1) show ?thesis by (simp add: flush_memory encodes_def collects_def)
qed

section \<open>The operations\<close>

lemma updates_gzip:
  "w\<lparr>gzip := z, instructions := fmt\<rparr> = w\<lparr>instructions := fmt, gzip := z\<rparr>"
  "w\<lparr>gzip := z, stalls := runs\<rparr> = w\<lparr>stalls := runs, gzip := z\<rparr>"
  by simp_all

lemma write_encodes:
  assumes "collects k text_of" "gzip w" "encodes zl z0 text_of s bs"
    "write_batch L (gzip_sink zl k) w b s = (w', s', Inr ())"
  obtains bs' where "gzip w'" "encodes zl z0 text_of s' bs'"
    "write_batch L memory_sink (w\<lparr>gzip := False\<rparr>) b bs = (w'\<lparr>gzip := False\<rparr>, bs', Inr ())"
proof -
  from assms(4) obtain g order where c: "check_batch w b = Inr (g, order)"
    by (auto simp: write_batch_def split: sum.splits)
  with assms(4) obtain t where e: "emit_batch L w b g order = (t, Inr ())"
    by (auto simp: write_batch_def split: sum.splits prod.splits)
  let ?w = "w\<lparr>instructions := formatting t\<rparr>"
  from assms(4) c e obtain w1 where f: "flush (gzip_sink zl k) ?w (stream t) s = (w1, s', Inr ())"
    and w': "w' = w1\<lparr>strings := commit (interns t), stalls := next_stalls t,
      known := om_merge (known w1) (additions t), watermark := Some (bcycle b)\<rparr>"
    by (auto simp: write_batch_def split: sum.splits prod.splits)
  have "gzip ?w" using assms(2) by simp
  from flush_encodes [OF assms(1) this assms(3) f] have
    r: "w1 = ?w" "encodes zl z0 text_of s' (bs @ stream t)"
      "flush memory_sink (?w\<lparr>gzip := False\<rparr>) (stream t) bs = (?w\<lparr>gzip := False\<rparr>, bs @ stream t, Inr ())"
    by simp_all
  show thesis
  proof (rule that [OF _ r(2)])
    show "gzip w'" using assms(2) by (simp add: w' r(1))
    show "write_batch L memory_sink (w\<lparr>gzip := False\<rparr>) b bs = (w'\<lparr>gzip := False\<rparr>, bs @ stream t, Inr ())"
      using r(3) by (simp add: write_batch_def functions_gzip c e w' r(1) updates_gzip)
  qed
qed

lemma finish_encodes:
  assumes "collects k text_of" "zlib_lossless zl z0 decode" "gzip w" "\<not> finished w"
    "encodes zl z0 text_of s bs" "finish (gzip_sink zl k) w s = (w', s', Inr ())"
  obtains bs' where "decode (text_of (snd s')) = Some bs'"
    "snd (finish memory_sink (w\<lparr>gzip := False\<rparr>) bs) = (bs', Inr ())"
proof -
  from assms(4,6) have ok: "\<not> write_failed w" "finish_open (gzip_sink zl k) w s = (w', s', Inr ())"
    by (auto simp: finish_def split: if_splits sum.splits prod.splits)
  from ok(2) obtain data ps runs where c: "close_stalls w (\<lambda>_. True) ([], new_pending (strings w), stalls w)
      = Inr (data, ps, runs)"
    by (auto simp: finish_open_def split: sum.splits)
  let ?w = "w\<lparr>stalls := runs\<rparr>"
  from ok(2) c obtain w1 s1 where f: "flush (gzip_sink zl k) ?w data s = (w1, s1, Inr ())"
    by (auto simp: finish_open_def Let_def split: sum.splits prod.splits)
  have "gzip ?w" using assms(3) by simp
  from flush_encodes [OF assms(1) this assms(5) f] have r: "w1 = ?w" "encodes zl z0 text_of s1 (bs @ data)"
      "flush memory_sink (?w\<lparr>gzip := False\<rparr>) data bs = (?w\<lparr>gzip := False\<rparr>, bs @ data, Inr ())"
    by simp_all
  from ok(2) c f r(1) assms(3) obtain s2 where e: "gzip_encoder_finish zl k s1 = Some (s2, Inr ())"
      "s' = (fst s2, stream_flush k (snd s2))"
    by (auto simp: finish_open_def Let_def sink_result_def gzip_sink_def returned_def
        split: option.splits sum.splits prod.splits if_splits)
  have "decode (text_of (snd s2)) = Some (bs @ data)"
    using encoder_finish_complete [OF e(1) assms(1,2)] r(2) by (simp add: encodes_def)
  then have "decode (text_of (snd s')) = Some (bs @ data)"
    using assms(1) by (simp add: e(2) collects_def)
  moreover have "snd (finish memory_sink (w\<lparr>gzip := False\<rparr>) bs) = (bs @ data, Inr ())"
    using ok(1) assms(4) c r(3)
    by (simp add: finish_def finish_open_def functions_gzip updates_gzip sink_result_def Let_def memory_sink_good)
  ultimately show thesis by (rule that)
qed

section \<open>Sessions\<close>

text \<open>A client: it opens a writer, writes batches and finishes, and gives up at the first exception.\<close>

fun write_batches ::
    "library \<Rightarrow> 'o sink \<Rightarrow> cycle_batch list \<Rightarrow> writer \<Rightarrow> 'o \<Rightarrow> writer \<times> 'o \<times> (export_error + unit)" where
  "write_batches L k [] w out = (w, out, Inr ())"
| "write_batches L k (b # bs) w out =
     (case write_batch L k w b out of
        (w, out, Inl e) \<Rightarrow> (w, out, Inl e)
      | (w, out, Inr _) \<Rightarrow> write_batches L k bs w out)"

definition export_session ::
    "('j, 'o) export_env \<Rightarrow> manifest \<Rightarrow> trace_timing \<Rightarrow> compression \<Rightarrow> cycle_batch list \<Rightarrow> 'o
      \<Rightarrow> 'o \<times> (export_error + unit)" where
  "export_session env m t z bs out =
     (case new_writer env m t z out of
        (out, Inl e) \<Rightarrow> (out, Inl e)
      | (out, Inr w) \<Rightarrow>
          (case write_batches (lib env) (out_sink env) bs w out of
             (w, out, Inl e) \<Rightarrow> (out, Inl e)
           | (w, out, Inr _) \<Rightarrow> snd (finish (out_sink env) w out)))"

definition with_sink :: "('j, 'o) export_env \<Rightarrow> 'p sink \<Rightarrow> ('j, 'p) export_env" where
  "with_sink env k = \<lparr>json_lib = json_lib env, indented = indented env, lib = lib env,
     out_sink = k, gzip_starts = gzip_starts env\<rparr>"

lemma write_perfetto_session:
  "write_perfetto env h z out =
     (case (gtiming h, gmanifest h) of
        (Some t, Some m) \<Rightarrow> export_session env m t z [snapshot_batch h] out
      | _ \<Rightarrow> (out, Inl Requires_timing))"
  by (auto simp: write_perfetto_def export_session_def split: option.splits prod.splits sum.splits)

lemma write_batch_finished: "write_batch L k w b out = (w', out', Inr u) \<Longrightarrow> finished w' = finished w"
  by (auto simp: write_batch_def flush_def split: prod.splits sum.splits if_splits)

lemma write_batches_encodes:
  assumes "collects k text_of" "gzip w" "\<not> finished w" "encodes zl z0 text_of s out"
    "write_batches L (gzip_sink zl k) bs w s = (w', s', Inr ())"
  shows "\<exists>out'. gzip w' \<and> \<not> finished w' \<and> encodes zl z0 text_of s' out'
    \<and> write_batches L memory_sink bs (w\<lparr>gzip := False\<rparr>) out = (w'\<lparr>gzip := False\<rparr>, out', Inr ())"
  using assms(2-5)
proof (induction bs arbitrary: w s out)
  case (Cons b bs)
  from Cons.prems(4) obtain w1 s1 where w1: "write_batch L (gzip_sink zl k) w b s = (w1, s1, Inr ())"
      "write_batches L (gzip_sink zl k) bs w1 s1 = (w', s', Inr ())"
    by (auto split: prod.splits sum.splits)
  from write_encodes [OF assms(1) Cons.prems(1,3) w1(1)] obtain out1 where out1:
    "gzip w1" "encodes zl z0 text_of s1 out1"
    "write_batch L memory_sink (w\<lparr>gzip := False\<rparr>) b out = (w1\<lparr>gzip := False\<rparr>, out1, Inr ())" .
  have "\<not> finished w1"
    using w1(1) Cons.prems(2) by (auto dest: write_batch_finished)
  from Cons.IH [OF out1(1) this out1(2) w1(2)] out1(3) show ?case by auto
qed auto

lemma new_writer_encodes:
  assumes "collects k text_of" "text_of out = []"
    "new_writer (with_sink env (gzip_sink zl k)) m t Gzip (z0, out) = (s, Inr w)"
  shows "\<exists>bs. gzip w \<and> \<not> finished w \<and> encodes zl z0 text_of s bs
    \<and> new_writer (with_sink env memory_sink) m t No_compression [] = (bs, Inr (w\<lparr>gzip := False\<rparr>))"
proof -
  have start: "encodes zl z0 text_of (z0, out) []"
    using assms(2) by (simp add: encodes_def deflated.start)
  define W where "W d fmt z = \<lparr>stalls = [], desc = d, wtiming = t, instructions = fmt, strings = no_strings,
      can_parent = parents_allowed d, known = [], watermark = None, write_failed = False,
      finished = False, gzip = z\<rparr>" for d fmt z
  obtain j d fmt where a: "parse (json_lib env) (mjson m) False = Inr j" "describe (json_lib env) j = Inr d"
      "clock_frequency_hz t \<noteq> 0" "payload_widths (dmanifest d) = payload_widths m"
      "dependencies (dmanifest d) = dependencies m" "mfields (dmanifest d) = mfields m"
      "prepare_all (spike_lib (lib env)) (concat (mfields m)) new_formatting = Inr fmt"
    and f: "flush (gzip_sink zl k) (W d fmt True) (header_packets (indented env) d t) (z0, out) = (w, s, Inr ())"
    using assms(3) by (auto simp: new_writer_def with_sink_def Let_def W_def
        split: sum.splits prod.splits if_splits)
  have "gzip (W d fmt True)" by (simp add: W_def)
  note r = flush_encodes [OF assms(1) this start f]
  have "(W d fmt True)\<lparr>gzip := False\<rparr> = W d fmt False" by (simp add: W_def)
  with r a show ?thesis
    by (simp add: new_writer_def with_sink_def W_def)
qed

section \<open>Properties\<close>

text \<open>C38: a trace compressed with gzip decompresses to exactly the trace that the same session writes
  without compression, whatever the sizes of the batches, the pieces fed to zlib and the output
  buffers it fills.\<close>

theorem gzip_transparent:
  assumes "collects k text_of" "text_of out = []" "zlib_lossless zl z0 decode"
    and "export_session (with_sink env (gzip_sink zl k)) m t Gzip bs (z0, out) = (s, Inr ())"
  shows "\<exists>bytes. export_session (with_sink env memory_sink) m t No_compression bs [] = (bytes, Inr ())
    \<and> decode (text_of (snd s)) = Some bytes"
proof -
  from assms(4) obtain w s1 w2 s2 where n: "new_writer (with_sink env (gzip_sink zl k)) m t Gzip (z0, out) = (s1, Inr w)"
      "write_batches (lib env) (gzip_sink zl k) bs w s1 = (w2, s2, Inr ())"
    and "snd (finish (gzip_sink zl k) w2 s2) = (s, Inr ())"
    by (auto simp: export_session_def with_sink_def split: prod.splits sum.splits)
  then obtain w3 where n3: "finish (gzip_sink zl k) w2 s2 = (w3, s, Inr ())"
    by (cases "finish (gzip_sink zl k) w2 s2") simp
  obtain b1 where b1: "gzip w" "\<not> finished w" "encodes zl z0 text_of s1 b1"
      "new_writer (with_sink env memory_sink) m t No_compression [] = (b1, Inr (w\<lparr>gzip := False\<rparr>))"
    using new_writer_encodes [OF assms(1,2) n(1)] by blast
  obtain b2 where b2: "gzip w2" "\<not> finished w2" "encodes zl z0 text_of s2 b2"
      "write_batches (lib env) memory_sink bs (w\<lparr>gzip := False\<rparr>) b1 = (w2\<lparr>gzip := False\<rparr>, b2, Inr ())"
    using write_batches_encodes [OF assms(1) b1(1-3) n(2)] by blast
  from finish_encodes [OF assms(1,3) b2(1-3) n3] obtain b3 where
    "decode (text_of (snd s)) = Some b3" "snd (finish memory_sink (w2\<lparr>gzip := False\<rparr>) b2) = (b3, Inr ())" .
  with b1(4) b2(4) show ?thesis by (auto simp: export_session_def with_sink_def)
qed

text \<open>A zlib that stores its input, and a session of one batch.\<close>

definition stored_deflate :: "unit deflate" where
  "stored_deflate z input n finishing =
     ((), length (take n input), take n input, if finishing \<and> input = [] then Deflate_end else Deflate_ok)"

lemma stored_deflated: "deflated stored_deflate z0 f z i out \<Longrightarrow> out = i"
  by (induction rule: deflated.induct) (auto simp: stored_deflate_def min_def)

lemma zlib_lossless_stored: "zlib_lossless stored_deflate () Some"
  by (auto simp: zlib_lossless_def stored_deflate_def dest: stored_deflated)

lemma zlib_progress_stored: "zlib_progress stored_deflate (\<lambda>_. 0)"
  by (auto simp: zlib_progress_def stored_deflate_def)

lemma collects_memory: "collects memory_sink (\<lambda>out. out)"
  by (simp add: collects_def memory_sink_def)

definition example_env :: "(json, u8 list) export_env" where
  "example_env = \<lparr>json_lib = example_api\<lparr>parse_json := \<lambda>_. ([], Some example_json)\<rparr>, indented = (\<lambda>_. ''{}''),
     lib = example_library, out_sink = memory_sink, gzip_starts = True\<rparr>"

definition example_manifest :: manifest where
  "example_manifest = \<lparr>mjson = ''{}'', payload_widths = [0, 4], dependencies = [(0, 0)], mfields = []\<rparr>"

lemma stored_pump_input: "pump_input stored_deflate memory_sink ((), out) i = Some (((), out @ i), Inr ())"
proof (induction "length i" arbitrary: out i rule: less_induct)
  case less
  show ?case
  proof (cases "i = []")
    case False
    have "pump stored_deflate memory_sink False ((), out) i = (((), out @ take 32768 i), Inr (drop 32768 i, Deflate_ok))"
      using False by (auto simp: pump_def stored_deflate_def memory_sink_def min_def)
    with less [of "drop 32768 i" "out @ take 32768 i"] False show ?thesis
      by (simp add: pump_input.simps [of stored_deflate memory_sink "((), out)" i])
  qed (simp add: pump_input.simps)
qed

lemma stored_write: "gzip_encoder_write stored_deflate memory_sink ((), out) data = Some (((), out @ data), Inr ())"
proof (induction "length data" arbitrary: out data rule: less_induct)
  case less
  then show ?case
    by (cases "data = []")
      (simp_all add: gzip_encoder_write.simps [of stored_deflate memory_sink "((), out)" data]
        gzip_encoder_write.simps [of stored_deflate memory_sink "((), out)" "[]"] stored_pump_input)
qed

lemma stored_finish: "gzip_encoder_finish stored_deflate memory_sink ((), out) = Some (((), out), Inr ())"
  by (simp add: gzip_encoder_finish.simps pump_def stored_deflate_def memory_sink_def)

lemma stored_sink: "gzip_sink stored_deflate memory_sink =
  \<lparr>plain_write = (\<lambda>(z, out) bs. (z, out @ bs)), gzip_write = (\<lambda>(z, out) bs. (((), out @ bs), None)),
   gzip_finish = (\<lambda>(z, out). (((), out), None)), stream_flush = (\<lambda>s. s), stream_good = (\<lambda>_. True)\<rparr>"
  by (auto simp: gzip_sink_def memory_sink_good returned_def stored_write stored_finish fun_eq_iff)
    (simp_all add: memory_sink_def)

abbreviation gzip_session :: "(unit \<times> u8 list) \<times> (export_error + unit)" where
  "gzip_session \<equiv> export_session (with_sink example_env (gzip_sink stored_deflate memory_sink)) example_manifest
     \<lparr>clock_frequency_hz = 1000, epoch_id = 0\<rparr> Gzip [empty_batch] ((), [])"

lemma gzip_session_ok: "case gzip_session of (_, Inl _) \<Rightarrow> False | (s, Inr _) \<Rightarrow> snd s \<noteq> []"
  unfolding stored_sink by code_simp

theorem gzip_transparent_witness:
  "\<exists>bytes. bytes \<noteq> [] \<and> export_session (with_sink example_env memory_sink) example_manifest
     \<lparr>clock_frequency_hz = 1000, epoch_id = 0\<rparr> No_compression [empty_batch] [] = (bytes, Inr ())
     \<and> gzip_session = (((), bytes), Inr ())"
proof -
  obtain s where run: "gzip_session = (s, Inr ())" and s: "snd s \<noteq> []"
    using gzip_session_ok by (auto split: prod.splits sum.splits)
  from gzip_transparent [OF collects_memory refl zlib_lossless_stored run]
  obtain bytes where "export_session (with_sink example_env memory_sink) example_manifest
     \<lparr>clock_frequency_hz = 1000, epoch_id = 0\<rparr> No_compression [empty_batch] [] = (bytes, Inr ())" "snd s = bytes"
    by auto
  with s run show ?thesis by (cases s) auto
qed

text \<open>C39: with a zlib that makes progress, feeding a batch to the encoder and finishing it always
  return: either with the bytes handed on or with an exception.\<close>

theorem gzip_returns:
  assumes "zlib_progress zl m"
  shows "(\<exists>r. gzip_encoder_write zl k s data = Some r) \<and> (\<exists>r. gzip_encoder_finish zl k s = Some r)"
  using encoder_write_returns [OF assms] encoder_finish_returns [OF assms] by blast

theorem gzip_returns_witness:
  "(\<exists>r. gzip_encoder_write stored_deflate memory_sink ((), []) [1, 2, 3] = Some r)
    \<and> (\<exists>r. gzip_encoder_finish stored_deflate memory_sink ((), []) = Some r)"
  by (rule gzip_returns [OF zlib_progress_stored])

end
