(* ===== verification/Perfetto_Additions.thy ===== *)
theory Perfetto_Additions
  imports Perfetto_Compressed
begin

text \<open>
  What a written batch leaves in the writer: the occurrences it adds, with their cycles, merged into
  those known before.
\<close>

section \<open>The occurrences a batch adds\<close>

text \<open>Steps that record no occurrence and enter no cycle.\<close>

definition keeps :: "emit \<Rightarrow> bool" where
  "keeps f \<longleftrightarrow> (\<forall>s. additions (fst (f s)) = additions s \<and> group_cycle (fst (f s)) = group_cycle s)"

lemma keeps_then [intro]: "keeps f \<Longrightarrow> keeps g \<Longrightarrow> keeps (then_emit f g)"
  by (auto simp: keeps_def then_emit_def split: prod.splits sum.splits) (metis fst_conv)+

lemma keeps_each [intro]:
  assumes "\<And>x. keeps (f x)"
  shows "keeps (emit_each f xs)"
proof (induction xs)
  case (Cons x xs)
  have "emit_each f (x # xs) = then_emit (f x) (emit_each f xs)" by (intro ext) simp
  with Cons assms keeps_then show ?case by metis
qed (simp add: keeps_def)

lemma keeps_simple [intro]:
  "keeps (packet_step h)" "keeps (close_step w sc)" "keeps (end_slice w r n ps)" "keeps (\<lambda>s. (s, Inr ()))"
  by (auto simp: keeps_def packet_step_def close_step_def end_slice_def split: sum.splits)

lemma keeps_begin [intro]: "keeps (begin_slice L w r n)"
  by (auto simp: keeps_def begin_slice_def packet_step_def split: sum.splits prod.splits)

lemma keeps_flow [intro]: "keeps (parent_flow w r n p)"
  by (auto simp: keeps_def parent_flow_def packet_step_def split: sum.splits)

lemma keeps_slice [intro]: "keeps (new_slice L w g r n i)"
  unfolding new_slice_def by auto

lemma keepsD: "keeps f \<Longrightarrow> f s = (s', r) \<Longrightarrow> additions s' = additions s \<and> group_cycle s' = group_cycle s"
  by (metis fst_conv keeps_def)

lemma enter_keeps:
  "enter_cycle w b g c s = (s', r) \<Longrightarrow> additions s' = additions s \<and> group_cycle s' = Some c"
  using keepsD [OF keeps_simple(2), of w "stall_ends b g c" "s\<lparr>group_cycle := Some c\<rparr>" s' r]
  by (auto simp: enter_cycle_def split: if_splits)

lemma emit_node_adds:
  assumes "emit_node L w b g r s = (s', Inr ())"
  shows "\<exists>i. additions s' = om_put r (i, cycle (node_at (bnodes b) r)) (additions s)"
    and "group_cycle s' = Some (cycle (node_at (bnodes b) r))"
proof -
  let ?n = "node_at (bnodes b) r"
  obtain s1 where s1: "enter_cycle w b g (cycle ?n) s = (s1, Inr ())"
    using assms by (auto simp: emit_node_def then_emit_def Let_def split: prod.splits sum.splits)
  obtain s2 where s2: "admit_node w r ?n s1 = (s2, Inr ())"
    using assms s1 by (auto simp: emit_node_def then_emit_def Let_def split: prod.splits sum.splits)
  have e: "additions s1 = additions s" "group_cycle s1 = Some (cycle ?n)"
    using enter_keeps [OF s1] by simp_all
  have a: "additions s2 = om_put r (next_identity w s1, cycle ?n) (additions s1)" "group_cycle s2 = group_cycle s1"
    using s2 by (auto simp: admit_node_def split: if_splits)
  have k: "additions s' = additions s2 \<and> group_cycle s' = group_cycle s2"
    using assms s1 s2 keepsD [OF keeps_slice]
    by (auto simp: emit_node_def then_emit_def Let_def split: option.splits if_splits)
  show "\<exists>i. additions s' = om_put r (i, cycle ?n) (additions s)" using e a k by auto
  show "group_cycle s' = Some (cycle ?n)" using e a k by simp
qed

lemma emit_each_group:
  assumes "emit_each (emit_node L w b g) rs s = (s', Inr ())" "rs \<noteq> []"
  shows "\<exists>r \<in> set rs. group_cycle s' = Some (cycle (node_at (bnodes b) r))"
  using assms
proof (induction rs arbitrary: s)
  case (Cons r rs)
  then obtain s1 where s1: "emit_node L w b g r s = (s1, Inr ())" "emit_each (emit_node L w b g) rs s1 = (s', Inr ())"
    by (auto simp: then_emit_def split: prod.splits sum.splits)
  show ?case
  proof (cases "rs = []")
    case True
    with s1 emit_node_adds(2) [OF s1(1)] show ?thesis by simp
  next
    case False
    with Cons.IH [OF s1(2)] show ?thesis by auto
  qed
qed simp

lemma emit_each_adds:
  assumes "emit_each (emit_node L w b g) rs s = (s', Inr ())" "om_wf (additions s)"
  shows "om_wf (additions s') \<and> (\<forall>r. map_option snd (om_find (additions s') r) =
    (if r \<in> set rs then Some (cycle (node_at (bnodes b) r)) else map_option snd (om_find (additions s) r)))"
  using assms
proof (induction rs arbitrary: s)
  case (Cons r rs)
  then obtain s1 where s1: "emit_node L w b g r s = (s1, Inr ())" "emit_each (emit_node L w b g) rs s1 = (s', Inr ())"
    by (auto simp: then_emit_def split: prod.splits sum.splits)
  obtain i where i: "additions s1 = om_put r (i, cycle (node_at (bnodes b) r)) (additions s)"
    using emit_node_adds(1) [OF s1(1)] by blast
  with Cons.prems have "om_wf (additions s1)" by (simp add: om_wf_put)
  from Cons.IH [OF s1(2) this] i Cons.prems show ?case by (auto simp: om_find_put)
qed simp

lemma emit_batch_adds:
  assumes "emit_batch L w b g order = (s, Inr ())"
  shows "om_wf (additions s) \<and> (\<forall>r. map_option snd (om_find (additions s) r) =
    (if r \<in> set order then Some (cycle (node_at (bnodes b) r)) else None))"
proof -
  obtain s1 where s1: "emit_each (emit_node L w b g) order \<lparr>stream = [], interns = new_pending (strings w),
        next_stalls = stalls w, additions = [], formatting = instructions w, group_cycle = None\<rparr> = (s1, Inr ())"
      "close_step w (\<lambda>run. cycle (run_node run) < bcycle b) s1 = (s, Inr ())"
    using assms by (auto simp: emit_batch_def then_emit_def split: prod.splits sum.splits)
  have "additions s = additions s1" using keepsD [OF keeps_simple(2) s1(2)] by simp
  with emit_each_adds [OF s1(1)] show ?thesis by simp
qed

section \<open>Merging\<close>

lemma om_merge_known:
  "om_wf m \<Longrightarrow> om_wf (om_merge m n) \<and> (\<forall>k. om_find (om_merge m n) k =
    (case om_find m k of None \<Rightarrow> om_find n k | Some v \<Rightarrow> Some v))"
proof (induction n arbitrary: m)
  case (Cons e n)
  obtain a v where e: "e = (a, v)" by (cases e)
  define m' where "m' = (if om_has m a then m else om_put a v m)"
  have "om_merge m (e # n) = om_merge m' n" by (simp add: om_merge_def e m'_def)
  moreover have "om_wf m'" using Cons.prems by (simp add: m'_def om_wf_put)
  ultimately show ?case
    using Cons.IH [of m'] Cons.prems by (auto simp: e m'_def om_find_put split: option.splits)
qed (simp add: om_merge_def split: option.splits)

lemma length_om_put_fresh: "om_find m k = None \<Longrightarrow> length (om_put k v m) = Suc (length m)"
  by (induction k v m rule: om_put.induct) (auto split: if_splits)

lemma length_om_merge:
  "om_wf m \<Longrightarrow> om_wf n \<Longrightarrow> (\<And>k. om_find m k = None \<or> om_find n k = None) \<Longrightarrow>
    length (om_merge m n) = length m + length n"
proof (induction n arbitrary: m)
  case (Cons e n)
  obtain a v where e: "e = (a, v)" by (cases e)
  have free: "om_find m a = None" using Cons.prems(3) [of a] by (simp add: e)
  then have "om_merge m (e # n) = om_merge (om_put a v m) n" by (simp add: om_merge_def e)
  moreover have "om_find n a = None" using Cons.prems(2) by (auto simp: e om_find_None)
  then have "om_find (om_put a v m) k = None \<or> om_find n k = None" for k
    using Cons.prems(1) Cons.prems(3) [of k] by (auto simp: e om_find_put split: if_splits)
  ultimately show ?case
    using Cons.IH [of "om_put a v m"] Cons.prems(1,2) free by (simp add: e om_wf_put length_om_put_fresh)
qed (simp add: om_merge_def)

section \<open>The new writer\<close>

lemma written_batch:
  assumes "write_batch L k w b out = (w', out', Inr ())"
  obtains g order s where "check_batch w b = Inr (g, order)" "emit_batch L w b g order = (s, Inr ())"
    "w' = w\<lparr>instructions := formatting s, strings := commit (interns s), stalls := next_stalls s,
      known := om_merge (known w) (additions s), watermark := Some (bcycle b)\<rparr>"
proof -
  from assms obtain g order where c: "check_batch w b = Inr (g, order)"
    by (auto simp: write_batch_def split: sum.splits)
  with assms obtain s where e: "emit_batch L w b g order = (s, Inr ())"
    by (auto simp: write_batch_def split: sum.splits prod.splits)
  let ?w = "w\<lparr>instructions := formatting s\<rparr>"
  from assms c e obtain w1 where f: "flush k ?w (stream s) out = (w1, out', Inr ())"
    and w': "w' = w1\<lparr>strings := commit (interns s), stalls := next_stalls s,
      known := om_merge (known w1) (additions s), watermark := Some (bcycle b)\<rparr>"
    by (auto simp: write_batch_def split: sum.splits prod.splits)
  have "w1 = ?w" by (rule flush_ok [OF f])
  with c e w' show thesis by (intro that) simp_all
qed

end
