(* ===== verification/Rheg_Bridge.thy ===== *)
theory Rheg_Bridge
  imports Rheg_Sim Perfetto_Additions
begin

text \<open>
  Collector and exporter together: in a simulation the writer knows exactly the occurrences the
  collector has streamed, so a settled cycle is refused only for what the collector does not check.
\<close>

section \<open>A writer that follows a collector\<close>

text \<open>The cycle at which a reference was streamed.\<close>

definition streamed_cycle :: "graph \<Rightarrow> ref \<Rightarrow> u64 option" where
  "streamed_cycle g r =
     (if r \<in> set (pending_nodes g) then None else map_option cycle (om_find (nodes g) r))"

definition same_manifest :: "manifest option \<Rightarrow> description \<Rightarrow> bool" where
  "same_manifest mo d \<longleftrightarrow> (\<exists>m. mo = Some m \<and> payload_widths m = payload_widths (dmanifest d)
     \<and> dependencies m = dependencies (dmanifest d) \<and> length (payload_widths m) = length (sites d))"

definition follows :: "writer \<Rightarrow> graph \<Rightarrow> bool" where
  "follows w g \<longleftrightarrow> graph_inv g \<and> streaming g \<and> same_manifest (gmanifest g) (desc w)
     \<and> \<not> write_failed w \<and> \<not> finished w \<and> watermark w = finished_cycle g \<and> om_wf (known w)
     \<and> (\<forall>r. map_option snd (om_find (known w) r) = streamed_cycle g r)"

lemma later_streamed: "later m c \<longleftrightarrow> \<not> streamed m c"
  by (auto simp: later_def streamed_def not_le split: option.splits)

lemma checked_node_complete:
  assumes "check_node (Some m) (r, n) = Inr ()"
  shows "unat (site r) < length (payload_widths m) \<and> present n
    \<and> width n = payload_widths m ! unat (site r) \<and> words_complete n"
  using assms by (auto simp: check_node_def words_complete_def list_all_length bind_unit_eq_Inr
      split: if_splits)

lemma pending_batch_wf: "graph_inv g \<Longrightarrow> batch_wf (pending_batch g c)"
  by (auto simp: graph_inv_def maps_wf_def batch_wf_def pending_batch_def om_wf_def comp_def)

lemma find_map_pair: "om_find (map (\<lambda>r. (r, f r)) rs) r = (if r \<in> set rs then Some (f r) else None)"
  by (induction rs) auto

lemma pending_batch_find:
  "om_find (bnodes (pending_batch g c)) r = (if r \<in> set (pending_nodes g) then Some (node_at (nodes g) r) else None)"
  by (simp add: pending_batch_def find_map_pair)

text \<open>What the exporter checks and the collector does not.\<close>

definition export_conditions :: "writer \<Rightarrow> cycle_batch \<Rightarrow> bool" where
  "export_conditions w b \<longleftrightarrow> slots_apart w (bnodes b) \<and> acyclic (inner_edges b (set (bedges b)))
     \<and> (\<forall>(r, n) \<in> set (bnodes b). nanoseconds w (unat (cycle n) + 1) < 2 ^ 63)"

lemma follows_batch_ok:
  assumes "follows w g" "finish_cycle g c = (g', Inr b)"
  shows "batch_ok w b \<longleftrightarrow> export_conditions w b"
proof -
  note ok = assms(2) [unfolded finish_cycle_ok]
  obtain m where m: "gmanifest g = Some m" "payload_widths m = payload_widths (dmanifest (desc w))"
      "dependencies m = dependencies (dmanifest (desc w))" "length (payload_widths m) = length (sites (desc w))"
    using assms(1) by (auto simp: follows_def same_manifest_def)
  have b: "b = pending_batch g c" and cond: "finish_conditions g c" using ok by auto
  have w: "\<not> write_failed w" "\<not> finished w" "watermark w = finished_cycle g"
      "map_option snd (om_find (known w) r) = streamed_cycle g r" for r
    using assms(1) by (auto simp: follows_def)
  have nodes: "node_acceptable w b (r, node_at (nodes g) r) \<longleftrightarrow>
      nanoseconds w (unat (cycle (node_at (nodes g) r)) + 1) < 2 ^ 63" if "r \<in> set (pending_nodes g)" for r
  proof -
    have "om_find (known w) r = None" using w(4) [of r] that by (simp add: streamed_cycle_def)
    moreover have "check_node (Some m) (r, node_at (nodes g) r) = Inr ()" using ok that m(1) by auto
    note checked_node_complete [OF this]
    moreover have "cycle (node_at (nodes g) r) \<le> c" "later (watermark w) (cycle (node_at (nodes g) r))"
      using cond that by (auto simp: finish_conditions_def in_interval_def later_streamed w(3))
    ultimately show ?thesis using m by (simp add: node_acceptable_def b pending_batch_def)
  qed
  have edges: "edge_acceptable w b e" if e: "e \<in> set (pending_edges g)" for e
  proof -
    obtain p c' where pc: "e = (p, c')" by (cases e)
    have "check_edge (nodes g) (Some m) e = Inr ()" using ok e m(1) by auto
    then obtain pn cn where n: "om_find (nodes g) p = Some pn" "om_find (nodes g) c' = Some cn"
        "(site p, site c') \<in> set (dependencies m)" "cycle pn \<le> cycle cn"
      by (auto simp: check_edge_def pc not_less split: option.splits if_splits)
    moreover have "c' \<in> set (pending_nodes g)" using cond e by (auto simp: finish_conditions_def pc)
    moreover have "map_option snd (om_find (known w) p) = Some (cycle pn)" if "p \<notin> set (pending_nodes g)"
      using w(4) [of p] n(1) that by (simp add: streamed_cycle_def)
    ultimately show ?thesis
      using m(3) by (auto simp: edge_acceptable_def pc b pending_batch_find node_at_def)
  qed
  have "list_all (node_acceptable w b) (bnodes b) \<longleftrightarrow>
      (\<forall>(r, n) \<in> set (bnodes b). nanoseconds w (unat (cycle n) + 1) < 2 ^ 63)"
    using nodes by (auto simp: list_all_iff b pending_batch_def)
  moreover have "list_all (edge_acceptable w b) (bedges b)"
    using edges by (auto simp: list_all_iff b pending_batch_def)
  moreover have "later (watermark w) (bcycle b)"
    using cond by (simp add: finish_conditions_def later_streamed w(3) b pending_batch_def)
  ultimately show ?thesis using w by (auto simp: batch_ok_def export_conditions_def)
qed

section \<open>Following through a run\<close>

lemma streamed_cycle_put:
  assumes "om_wf (nodes g)" "r \<in> set (pending_nodes g) \<or> om_find (nodes g) r = None"
    "streaming g"
  shows "streamed_cycle (g\<lparr>started := a, epoch_active := a', nodes := om_put r n (nodes g),
      pending_nodes := os_insert r (pending_nodes g)\<rparr>) = streamed_cycle g"
  using assms by (auto simp: streamed_cycle_def om_find_put fun_eq_iff)

lemma follows_flags: "follows w g \<Longrightarrow> follows w (g\<lparr>started := True, epoch_active := True\<rparr>)"
  by (simp add: follows_def inv_started streamed_cycle_def)

lemma follows_put:
  assumes "follows w g" "om_wf (words n)" "\<not> present (node_at (nodes g) r) \<or> r \<in> set (pending_nodes g)"
  shows "follows w (g\<lparr>started := True, epoch_active := True, nodes := om_put r n (nodes g),
      pending_nodes := os_insert r (pending_nodes g)\<rparr>)"
proof -
  have g: "graph_inv g" "streaming g" "om_wf (nodes g)"
    using assms(1) by (auto simp: follows_def graph_inv_def maps_wf_def)
  have absent: "r \<in> set (pending_nodes g) \<or> om_find (nodes g) r = None"
  proof (cases "present (node_at (nodes g) r)")
    case False
    with g(1,2) show ?thesis by (rule inv_absent)
  qed (use assms(3) in simp)
  with g inv_put [OF g(1) assms(2), of r] streamed_cycle_put [OF g(3) absent g(2)] assms(1)
  show ?thesis by (simp add: follows_def)
qed

lemma follows_node: "follows w g \<Longrightarrow> follows w (fst (record_node g r c v))"
  using follows_put [of w g "node_at (nodes g) r\<lparr>present := True, cycle := c, width := v\<rparr>" r]
    inv_words [of g r] follows_flags [of w g]
  by (auto simp: record_node_def Let_def follows_def)

lemma follows_payload: "follows w g \<Longrightarrow> follows w (fst (record_payload g r i v))"
  using follows_put [of w g "node_at (nodes g) r\<lparr>words := om_put i v (words (node_at (nodes g) r))\<rparr>" r]
    inv_words [of g r] follows_flags [of w g]
  by (auto simp: record_payload_def Let_def follows_def om_wf_put)

lemma follows_edge: "follows w g \<Longrightarrow> follows w (fst (record_edge g p c))"
  using inv_record_edge [of g p c] by (auto simp: record_edge_def follows_def streamed_cycle_def)

lemma follows_reset:
  assumes "follows w g"
  shows "follows w (fst (reset g a))"
proof (cases "a \<and> \<not> epoch_active g \<and> finished_cycle g = None \<and> pending_nodes g = [] \<and> pending_edges g = []")
  case True
  then have "nodes g = []" "edges g = []"
    using assms by (auto simp: follows_def graph_inv_def)
  with assms True inv_reset [of g a] show ?thesis
    by (auto simp: reset_def follows_def streamed_cycle_def Let_def split: option.splits)
next
  case False
  with assms inv_reset [of g a] show ?thesis
    by (auto simp: reset_def follows_def streamed_cycle_def Let_def split: option.splits)
qed

lemma follows_callback:
  assumes "follows w g" "op \<notin> {Op_begin_stream, Op_end_stream} \<union> range Op_finish_cycle"
  shows "follows w (fst (graph_step g op))"
proof -
  have "streaming g" "gmanifest g \<noteq> None" "gtiming g \<noteq> None"
    using assms(1) by (auto simp: follows_def graph_inv_def)
  with assms show ?thesis
    by (cases op) (auto simp: clear_def bind_timing_def bind_manifest_def follows_node follows_payload
        follows_edge follows_reset)
qed

lemma follows_cycle:
  assumes "follows w g" "finish_cycle g c = (g', Inr b)" "write_batch L k w b out = (w', out', Inr ())"
  shows "follows w' g'"
proof -
  note ok = assms(2) [unfolded finish_cycle_ok]
  have b: "b = pending_batch g c" and g': "g' = g\<lparr>pending_nodes := [], pending_edges := [], finished_cycle := Some c\<rparr>"
    using ok by auto
  have inv: "graph_inv g" and w: "om_wf (known w)" "map_option snd (om_find (known w) r) = streamed_cycle g r" for r
    using assms(1) by (auto simp: follows_def)
  from written_batch [OF assms(3)] obtain bg order s where s: "check_batch w b = Inr (bg, order)"
    "emit_batch L w b bg order = (s, Inr ())"
    "w' = w\<lparr>instructions := formatting s, strings := commit (interns s), stalls := next_stalls s,
      known := om_merge (known w) (additions s), watermark := Some (bcycle b)\<rparr>" .
  have "batch_wf b" unfolding b by (rule pending_batch_wf [OF inv])
  from check_batch_refs [OF this s(1)] have order: "set order = set (pending_nodes g)"
    by (auto simp: batch_refs_def b pending_batch_def image_iff)
  have adds: "om_wf (additions s)" "map_option snd (om_find (additions s) r) =
      (if r \<in> set (pending_nodes g) then map_option cycle (om_find (nodes g) r) else None)" for r
    using emit_batch_adds [OF s(2)] inv_pending_has [OF inv, of r]
    by (auto simp: order b pending_batch_find node_at_def)
  have disjoint: "om_find (known w) r = None \<or> om_find (additions s) r = None" for r
    using w(2) [of r] adds(2) [of r] by (cases "r \<in> set (pending_nodes g)") (auto simp: streamed_cycle_def)
  note merged = om_merge_known [OF w(1), of "additions s"]
  have "map_option snd (om_find (om_merge (known w) (additions s)) r) = streamed_cycle g' r" for r
    using w(2) [of r] adds(2) [of r] disjoint [of r] merged
    by (auto simp: streamed_cycle_def g' split: option.splits if_splits)
  moreover have "graph_inv g'" using inv_finish_cycle [OF inv, of c] assms(2) by simp
  ultimately show ?thesis
    using assms(1) merged by (simp add: follows_def s(3) g' b pending_batch_def)
qed

lemma new_writer_ok:
  assumes "new_writer env m t z out = (out', Inr w)"
  obtains j where "describe (json_lib env) j = Inr (desc w)"
    "payload_widths (dmanifest (desc w)) = payload_widths m" "dependencies (dmanifest (desc w)) = dependencies m"
    "known w = []" "watermark w = None" "\<not> write_failed w" "\<not> finished w"
proof -
  from assms have "\<exists>j. describe (json_lib env) j = Inr (desc w)
      \<and> payload_widths (dmanifest (desc w)) = payload_widths m \<and> dependencies (dmanifest (desc w)) = dependencies m
      \<and> known w = [] \<and> watermark w = None \<and> \<not> write_failed w \<and> \<not> finished w"
    by (auto simp: new_writer_def Let_def dest!: flush_ok split: sum.splits prod.splits if_splits)
  with that show thesis by blast
qed

lemma follows_open:
  assumes "graph_inv g" "begin_stream g = (g', Inr h)" "gmanifest h = Some m"
    "new_writer env m t z out = (out', Inr w)"
  shows "follows w g'"
proof -
  from new_writer_ok [OF assms(4)] obtain j where j: "describe (json_lib env) j = Inr (desc w)"
    "payload_widths (dmanifest (desc w)) = payload_widths m" "dependencies (dmanifest (desc w)) = dependencies m"
    "known w = []" "watermark w = None" "\<not> write_failed w" "\<not> finished w" .
  have g: "h = g" "nodes g = []" "g' = g\<lparr>streaming := True, started := True, finished_cycle := None\<rparr>"
    using assms(2) by (auto simp: begin_stream_def snapshot_ok split: if_splits sum.splits)
  have "length (payload_widths m) = length (sites (desc w))"
    using describe_description_ok [OF j(1)] j(2) by (simp add: description_ok_def)
  moreover have "graph_inv g'" using inv_begin_stream [OF assms(1)] assms(2) by simp
  ultimately show ?thesis
    using j assms(3) g by (auto simp: follows_def same_manifest_def streamed_cycle_def)
qed

section \<open>Simulations\<close>

text \<open>A simulation up to its first error: it opens, the collector's callbacks run, and cycles are
  settled and written.\<close>

inductive sim_run :: "('j, 'o) sim_env \<Rightarrow> 'o sim \<Rightarrow> bool" for env where
  opened: "graph_reachable (sim_graph s) \<Longrightarrow> rheg_sim_open env path s = (s', 0) \<Longrightarrow> sim_run env s'"
| callback: "sim_run env s \<Longrightarrow> op \<notin> {Op_begin_stream, Op_end_stream} \<union> range Op_finish_cycle \<Longrightarrow>
    sim_run env (s\<lparr>sim_graph := fst (graph_step (sim_graph s) op)\<rparr>)"
| cycle_written: "sim_run env s \<Longrightarrow> rheg_sim_cycle env c s = (s', 0) \<Longrightarrow> sim_run env s'"

lemma inv_bindings: "graph_inv g \<Longrightarrow> bind_manifest g m = (g1, r) \<Longrightarrow> graph_inv g1"
    "graph_inv g \<Longrightarrow> bind_timing g t = (g2, r') \<Longrightarrow> graph_inv g2"
  using inv_bind_manifest [of g m] inv_bind_timing [of g t] by auto

lemma sim_open_follows:
  assumes "graph_inv (sim_graph s)" "rheg_sim_open env path s = (s', 0)"
  shows "\<exists>w. sim_writer s' = Some w \<and> follows w (sim_graph s')"
proof -
  obtain g1 g2 g3 h where g: "bind_manifest (sim_graph s) (generated_manifest env) = (g1, Inr ())"
      "bind_timing g1 \<lparr>clock_frequency_hz = generated_frequency env, epoch_id = 0\<rparr> = (g2, Inr ())"
      "begin_stream g2 = (g3, Inr h)"
    and w: "start_writer env path h
      (s\<lparr>sim_output := open_output env (sim_output s) path, sim_graph := g3\<rparr>) = (s', 0)"
    using assms(2) by (auto simp: rheg_sim_open_def on_graph_def Let_def split: if_splits prod.splits sum.splits)
  have "graph_inv g2" using inv_bindings assms(1) g(1,2) by metis
  with g(3) w show ?thesis
    by (auto simp: start_writer_def split: option.splits prod.splits sum.splits intro: follows_open)
qed

lemma sim_run_follows: "sim_run env s \<Longrightarrow> \<exists>w. sim_writer s = Some w \<and> follows w (sim_graph s)"
proof (induction rule: sim_run.induct)
  case (opened s path s')
  then show ?case using reachable_inv sim_open_follows by blast
next
  case (callback s op)
  then show ?case using follows_callback by fastforce
next
  case (cycle_written s c s')
  then obtain w where w: "sim_writer s = Some w" "follows w (sim_graph s)" by blast
  with cycle_written(2) show ?case
    by (auto simp: rheg_sim_cycle_def on_graph_def split: prod.splits sum.splits intro: follows_cycle)
qed

text \<open>C40: in a simulation without earlier errors the exporter refuses a cycle that the collector has
  settled only for what the collector cannot know: two occurrences in one cycle of a shared track, a
  time that does not fit the trace, or a cycle of dependencies within the cycle; identities,
  widths, payloads, intervals, lineage and earlier parents never disagree.\<close>

theorem sim_cycle_accepted:
  assumes "sim_run env s" "sim_writer s = Some w" "finish_cycle (sim_graph s) c = (g', Inr b)"
  shows "(\<exists>r. check_batch w b = Inr r) \<longleftrightarrow> export_conditions w b"
proof -
  have f: "follows w (sim_graph s)" using sim_run_follows [OF assms(1)] assms(2) by auto
  have "b = pending_batch (sim_graph s) c" "graph_inv (sim_graph s)"
    using assms(3) f by (auto simp: finish_cycle_ok follows_def)
  then have "batch_wf b" using pending_batch_wf by blast
  from check_batch_iff [OF this] follows_batch_ok [OF f assms(3)] show ?thesis by simp
qed

text \<open>A simulation with one occurrence before the end of cycle 5.\<close>

definition example_sim :: "(json, u8 list) sim_env" where
  "example_sim = \<lparr>exporter = example_env, generated_manifest = example_manifest, generated_frequency = 1000,
     open_output = (\<lambda>_ _. []), close_output = (\<lambda>out. out)\<rparr>"

lemma example_sim_open:
  "case rheg_sim_open example_sim ''t'' (new_sim []) of (s, n) \<Rightarrow> n = 0 \<and>
     (case sim_writer s of None \<Rightarrow> False | Some w \<Rightarrow>
       (case finish_cycle (fst (graph_step (sim_graph s) (Op_node (Ref 0 0) 3 0))) 5 of
          (_, Inl _) \<Rightarrow> False
        | (_, Inr b) \<Rightarrow> length (bnodes b) = 1 \<and> (case check_batch w b of Inl _ \<Rightarrow> False | Inr _ \<Rightarrow> True)))"
  by code_simp

theorem sim_cycle_accepted_witness:
  "\<exists>s w g' b. sim_run example_sim s \<and> sim_writer s = Some w \<and> finish_cycle (sim_graph s) 5 = (g', Inr b)
     \<and> length (bnodes b) = 1 \<and> export_conditions w b"
proof -
  obtain s n where o: "rheg_sim_open example_sim ''t'' (new_sim []) = (s, n)" by fastforce
  note run = example_sim_open [unfolded o prod.case]
  then obtain w where w: "sim_writer s = Some w" by (auto split: option.splits)
  from run have o: "rheg_sim_open example_sim ''t'' (new_sim []) = (s, 0)" using o by simp
  note rest = run [unfolded w option.case, THEN conjunct2]
  obtain g' b where b: "finish_cycle (fst (graph_step (sim_graph s) (Op_node (Ref 0 0) 3 0))) 5 = (g', Inr b)"
      "length (bnodes b) = 1" "case check_batch w b of Inl _ \<Rightarrow> False | Inr _ \<Rightarrow> True"
    using rest by (cases "finish_cycle (fst (graph_step (sim_graph s) (Op_node (Ref 0 0) 3 0))) 5")
      (auto split: sum.splits)
  obtain r where r: "check_batch w b = Inr r" using b(3) by (auto split: sum.splits)
  let ?s = "s\<lparr>sim_graph := fst (graph_step (sim_graph s) (Op_node (Ref 0 0) 3 0))\<rparr>"
  have "graph_reachable (sim_graph (new_sim ([] :: u8 list)))"
    by (simp add: new_sim_def graph_reachable.initial)
  from sim_run.callback [OF sim_run.opened [OF this o], of "Op_node (Ref 0 0) 3 0"]
  have run: "sim_run example_sim ?s" by auto
  have sw: "sim_writer ?s = Some w" "finish_cycle (sim_graph ?s) 5 = (g', Inr b)" using w b(1) by simp_all
  from sim_cycle_accepted [OF run sw] r have "export_conditions w b" by blast
  with run sw b(2) show ?thesis by blast
qed

end
