(* ===== verification/Perfetto_Same.thy ===== *)
theory Perfetto_Same
  imports Perfetto_Additions
begin

text \<open>
  String dictionaries that cannot be told apart: what one batch has committed and a later batch adds
  answers every reference as if both batches had been one. Everything that writes packets respects
  this relation; the lemmas are its transfer rules.
\<close>

section \<open>The relation\<close>

text \<open>The identity of a string, committed or added.\<close>

definition interned_id :: "pending_interns \<Rightarrow> kind \<Rightarrow> string \<Rightarrow> u64 option" where
  "interned_id ps k v = (case om_find (ids (known_strings ps k)) v of
     Some i \<Rightarrow> Some i | None \<Rightarrow> om_find (ids (added_strings ps k)) v)"

definition interns_wf :: "pending_interns \<Rightarrow> bool" where
  "interns_wf ps \<longleftrightarrow> (\<forall>k. om_wf (ids (known_strings ps k)) \<and> om_wf (ids (added_strings ps k))
     \<and> (\<forall>v. om_find (ids (known_strings ps k)) v = None \<or> om_find (ids (added_strings ps k)) v = None))"

definition interned_count :: "pending_interns \<Rightarrow> kind \<Rightarrow> nat" where
  "interned_count ps k = length (ids (known_strings ps k)) + length (ids (added_strings ps k))"

definition same_interns :: "pending_interns \<Rightarrow> pending_interns \<Rightarrow> bool" where
  "same_interns ps qs \<longleftrightarrow> interns_wf ps \<and> interns_wf qs \<and> pending ps = pending qs
     \<and> (\<forall>k. interned_count ps k = interned_count qs k \<and> entry_bytes ps k = entry_bytes qs k
          \<and> (\<forall>v. interned_id ps k v = interned_id qs k v))"

lemma same_refl: "same_interns ps ps \<longleftrightarrow> interns_wf ps"
  by (simp add: same_interns_def)

lemma interned_id_pending: "interned_id (ps\<lparr>pending := x\<rparr>) k v = interned_id ps k v"
  by (simp add: interned_id_def split: option.split)

text \<open>A new entry.\<close>

definition admit_string :: "kind \<Rightarrow> string \<Rightarrow> u64 \<Rightarrow> pending_interns \<Rightarrow> pending_interns" where
  "admit_string k v iid ps = ps\<lparr>added_strings := (added_strings ps)(k :=
       \<lparr>ids = om_put v iid (ids (added_strings ps k)), dict_bytes = dict_bytes (added_strings ps k) + length v\<rparr>),
     pending := pending ps @ bytes_field (intern_table k) (intern_entry iid v)\<rparr>"

lemma reference_unfold: "reference f g k v ps =
  (case interned_id ps k v of
     Some i \<Rightarrow> (ps, integer f i)
   | None \<Rightarrow>
       if interned_count ps k \<ge> 4096 \<or> length v > 1024 \<or> entry_bytes ps k + length v > 1024 * 1024
       then (ps, bytes_field g (octets v))
       else (admit_string k v (of_nat (interned_count ps k + 1)) ps, integer f (of_nat (interned_count ps k + 1))))"
  by (simp add: reference_def interned_id_def interned_count_def entry_bytes_def admit_string_def Let_def
      split: option.split)

lemma admit_string_facts:
  assumes "interns_wf ps" "interned_id ps k v = None"
  shows "interns_wf (admit_string k v i ps)"
    and "interned_id (admit_string k v i ps) j u = (if j = k \<and> u = v then Some i else interned_id ps j u)"
    and "interned_count (admit_string k v i ps) j = (if j = k then Suc (interned_count ps j) else interned_count ps j)"
    and "entry_bytes (admit_string k v i ps) j = (if j = k then entry_bytes ps j + length v else entry_bytes ps j)"
    and "pending (admit_string k v i ps) = pending ps @ bytes_field (intern_table k) (intern_entry i v)"
proof -
  have fresh: "om_find (ids (known_strings ps k)) v = None" "om_find (ids (added_strings ps k)) v = None"
    and wf: "om_wf (ids (added_strings ps j))" for j
    using assms by (auto simp: interned_id_def interns_wf_def split: option.splits)
  show "interns_wf (admit_string k v i ps)"
    using assms(1) fresh wf by (auto simp: interns_wf_def admit_string_def om_find_put om_wf_put)
  show "interned_id (admit_string k v i ps) j u = (if j = k \<and> u = v then Some i else interned_id ps j u)"
    using fresh wf by (auto simp: interned_id_def admit_string_def om_find_put split: option.splits)
qed (use assms in \<open>auto simp: admit_string_def interned_count_def entry_bytes_def interned_id_def length_om_put_fresh
    split: option.splits\<close>)

lemma same_admit:
  assumes "same_interns ps qs" "interned_id ps k v = None"
  shows "same_interns (admit_string k v i ps) (admit_string k v i qs)"
proof -
  have wf: "interns_wf ps" "interns_wf qs" "interned_id qs k v = None"
    using assms by (auto simp: same_interns_def)
  show ?thesis
    using assms(1) admit_string_facts [OF wf(1) assms(2)] admit_string_facts [OF wf(2,3)]
    by (simp add: same_interns_def)
qed

lemma same_reference [transfer_rule]:
  "rel_fun (=) (rel_fun (=) (rel_fun (=) (rel_fun (=) (rel_fun same_interns (rel_prod same_interns (=))))))
     reference reference"
proof (intro rel_funI, hypsubst)
  fix f g k v ps qs
  assume s: "same_interns ps qs"
  then have same: "interned_id qs k v = interned_id ps k v" "interned_count qs k = interned_count ps k"
    "entry_bytes qs k = entry_bytes ps k"
    by (auto simp: same_interns_def)
  show "rel_prod same_interns (=) (reference f g k v ps) (reference f g k v qs)"
    unfolding reference_unfold same using s same_admit [OF s] by (simp split: option.split)
qed

section \<open>Committing\<close>

text \<open>Committed dictionaries do not show which entries were pending, and a new batch starts with a
  state that cannot be told from the one the last batch ended with.\<close>

lemma same_commit:
  assumes "same_interns ps qs"
  shows "commit ps = commit qs"
proof
  fix k
  have wf: "om_wf (ids (known_strings ps k))" "om_wf (ids (known_strings qs k))"
    using assms by (auto simp: same_interns_def interns_wf_def)
  have "om_merge (ids (known_strings ps k)) (ids (added_strings ps k))
      = om_merge (ids (known_strings qs k)) (ids (added_strings qs k))"
  proof (rule om_ext)
    fix v
    have "interned_id ps k v = interned_id qs k v" using assms by (simp add: same_interns_def)
    then show "om_find (om_merge (ids (known_strings ps k)) (ids (added_strings ps k))) v
        = om_find (om_merge (ids (known_strings qs k)) (ids (added_strings qs k))) v"
      using om_merge_known [OF wf(1)] om_merge_known [OF wf(2)]
      by (simp add: interned_id_def split: option.splits)
  qed (use om_merge_known wf in blast)+
  moreover have "entry_bytes ps k = entry_bytes qs k" using assms by (simp add: same_interns_def)
  ultimately show "commit ps k = commit qs k" by (simp add: commit_def entry_bytes_def)
qed

lemma same_committed:
  assumes "interns_wf ps" "pending ps = []"
  shows "same_interns ps (new_pending (commit ps))"
proof -
  have wf: "om_wf (ids (known_strings ps k))" "om_wf (ids (added_strings ps k))"
    "\<And>v. om_find (ids (known_strings ps k)) v = None \<or> om_find (ids (added_strings ps k)) v = None" for k
    using assms(1) by (auto simp: interns_wf_def)
  note merged = om_merge_known [OF wf(1)] length_om_merge [OF wf]
  show ?thesis
    using assms merged
    by (simp add: same_interns_def interns_wf_def new_pending_def commit_def no_strings_def
        interned_id_def interned_count_def entry_bytes_def split: option.split)
qed

section \<open>Annotations and slices\<close>

lemma same_annotation [transfer_rule]:
  "rel_fun (=) (rel_fun (=) (rel_fun (=) (rel_fun same_interns (rel_prod same_interns (=))))) annotation annotation"
  unfolding annotation_def [abs_def] by transfer_prover

lemma same_capture_annotation [transfer_rule]:
  "rel_fun (=) (rel_fun (=) (rel_fun same_interns (rel_sum (=) (rel_prod same_interns (=)))))
     capture_annotation capture_annotation"
  unfolding capture_annotation_def [abs_def] bind_result_def by transfer_prover

lemma same_field_annotation [transfer_rule]:
  "rel_fun (=) (rel_fun (=) (rel_fun (=) (rel_fun (=) (rel_fun same_interns (rel_fun (=) (rel_fun (=)
     (rel_prod (=) (rel_sum (=) (rel_prod same_interns (=))))))))))
     field_annotation field_annotation"
  unfolding field_annotation_def [abs_def] bind_result_def collector_def by transfer_prover

lemma same_field_annotations [transfer_rule]:
  "rel_fun (=) (rel_fun (=) (rel_fun (=) (rel_fun (=) (rel_fun same_interns (rel_fun (=) (rel_fun (=)
     (rel_prod (=) (rel_sum (=) (rel_prod same_interns (=))))))))))
     field_annotations field_annotations"
proof (intro rel_funI, hypsubst)
  fix L all n fs ps qs fmt sl
  show "same_interns ps qs \<Longrightarrow> rel_prod (=) (rel_sum (=) (rel_prod same_interns (=)))
      (field_annotations L all n fs ps fmt sl) (field_annotations L all n fs qs fmt sl)"
  proof (induction fs arbitrary: ps qs fmt sl)
    case (Cons f fs)
    have "rel_prod (=) (rel_sum (=) (rel_prod same_interns (=)))
        (field_annotation L all n f ps fmt sl) (field_annotation L all n f qs fmt sl)"
      using same_field_annotation Cons.prems by (auto dest!: rel_funD)
    with Cons.IH show ?case
      by (auto split: prod.split sum.split elim!: rel_sum.cases rel_prod.cases)
  qed simp
qed

lemma same_slice_body [transfer_rule]:
  "rel_fun (=) (rel_fun (=) (rel_fun (=) (rel_fun (=) (rel_fun same_interns (rel_fun (=)
     (rel_prod (=) (rel_sum (=) (rel_prod same_interns (=)))))))))
     slice_body slice_body"
  unfolding slice_body_def [abs_def] by transfer_prover

section \<open>Packets and stalls\<close>

text \<open>The bytes written so far may be preceded by \<open>pre\<close>; a packet takes the pending entries along.\<close>

abbreviation same_output :: "u8 list \<Rightarrow> u8 list \<times> pending_interns \<Rightarrow> u8 list \<times> pending_interns \<Rightarrow> bool" where
  "same_output pre \<equiv> rel_prod (\<lambda>bs cs. bs = pre @ cs) same_interns"

definition same_sent :: "pending_interns \<Rightarrow> pending_interns \<Rightarrow> bool" where
  "same_sent ps qs \<longleftrightarrow> same_interns ps qs \<and> pending ps = []"

abbreviation sent_output :: "u8 list \<Rightarrow> u8 list \<times> pending_interns \<Rightarrow> u8 list \<times> pending_interns \<Rightarrow> bool" where
  "sent_output pre \<equiv> rel_prod (\<lambda>bs cs. bs = pre @ cs) same_sent"

lemma same_pending: "same_interns ps qs \<Longrightarrow> pending ps = pending qs"
  by (simp add: same_interns_def)

lemma same_sent_clear: "same_interns ps qs \<Longrightarrow> same_sent (ps\<lparr>pending := []\<rparr>) (qs\<lparr>pending := []\<rparr>)"
  by (simp add: same_sent_def same_interns_def interned_id_pending interns_wf_def interned_count_def entry_bytes_def)

lemma same_event:
  "same_output pre s t \<Longrightarrow> rel_sum (=) (sent_output pre) (event w r c bd s) (event w r c bd t)"
  by (cases "timestamp w c") (auto simp: event_def Let_def same_pending same_sent_clear elim!: rel_prod.cases)

lemma same_references:
  "same_interns ps qs \<Longrightarrow> rel_prod same_interns (=) (reference f g k v ps) (reference f g k v qs)"
  using same_reference by (auto dest!: rel_funD)

lemma same_flow:
  assumes "same_output pre s t"
  shows "rel_sum (=) (sent_output pre) (flow w r c ph i s) (flow w r c ph i t)"
proof -
  obtain bs ps cs qs where st: "s = (bs, ps)" "t = (cs, qs)" "bs = pre @ cs" "same_interns ps qs"
    using assms by (auto elim!: rel_prod.cases)
  obtain ps1 qs1 a where a: "reference 10 23 Name ''dependency'' ps = (ps1, a)"
      "reference 10 23 Name ''dependency'' qs = (qs1, a)" "same_interns ps1 qs1"
    using same_references [OF st(4)] by (fastforce elim!: rel_prod.cases)
  obtain ps2 qs2 b where b: "reference 3 22 Category ''rhodium.flow'' ps1 = (ps2, b)"
      "reference 3 22 Category ''rhodium.flow'' qs1 = (qs2, b)" "same_interns ps2 qs2"
    using same_references [OF a(3)] by (fastforce elim!: rel_prod.cases)
  show ?thesis
    using same_event [of pre "(bs, ps2)" "(cs, qs2)"] b(3) st(3) by (simp add: flow_def st(1,2) a b)
qed

abbreviation sent_slices :: "u8 list \<Rightarrow> slices \<Rightarrow> slices \<Rightarrow> bool" where
  "sent_slices pre \<equiv> rel_prod (\<lambda>bs cs. bs = pre @ cs) (rel_prod same_sent (=))"

lemma same_close_stall:
  assumes "sent_slices pre s t"
  shows "rel_sum (=) (sent_slices pre) (close_stall w e s) (close_stall w e t)"
proof -
  obtain bs ps cs qs runs where st: "s = (bs, ps, runs)" "t = (cs, qs, runs)" "same_output pre (bs, ps) (cs, qs)"
    using assms by (auto simp: same_sent_def elim!: rel_prod.cases)
  obtain c track where e: "e = (c, track)" by (cases e)
  show ?thesis
  proof (cases "om_find runs track")
    case (Some run)
    with same_event [OF st(3), of w "last_ref run" "ucast c + 1" "integer 9 2"] show ?thesis
      by (auto simp: close_stall_def st(1,2) e elim!: rel_sum.cases rel_prod.cases)
  qed (simp add: close_stall_def st(1,2) e)
qed

lemma same_emit_all:
  assumes "\<And>x s t. R s t \<Longrightarrow> rel_sum (=) R (f x s) (f x t)"
  shows "R s t \<Longrightarrow> rel_sum (=) R (emit_all f xs s) (emit_all f xs t)"
proof (induction xs arbitrary: s t)
  case (Cons x xs)
  with assms [OF Cons.prems, of x] show ?case by (auto elim!: rel_sum.cases)
qed simp

lemma same_close_stalls:
  assumes "sent_slices pre s t"
  shows "rel_sum (=) (sent_slices pre) (close_stalls w P s) (close_stalls w P t)"
proof -
  have "snd (snd s) = snd (snd t)" using assms by (auto elim!: rel_prod.cases)
  then show ?thesis
    unfolding close_stalls_def using same_emit_all [OF same_close_stall assms] by simp
qed

end
