(* ===== verification/Perfetto_Continue.thy ===== *)
theory Perfetto_Continue
  imports Perfetto_Same
begin

text \<open>
  Emission does not depend on where a batch begins: two writers of one session that cannot be told
  apart by what they have recorded, one of them in the middle of a batch and the other at its start,
  emit the same bytes and remain indistinguishable.
\<close>

section \<open>Writers of one session\<close>

definition same_session :: "writer \<Rightarrow> writer \<Rightarrow> bool" where
  "same_session w v \<longleftrightarrow> desc w = desc v \<and> wtiming w = wtiming v \<and> can_parent w = can_parent v"

lemma session_functions:
  assumes "same_session w v"
  shows "track_at w = track_at v" "stall_site w = stall_site v" "event w = event v" "flow w = flow v"
    and "close_stalls w = close_stalls v" "slice_body L w = slice_body L v" "end_slice w = end_slice v"
proof -
  have m: "desc w = desc v" "wtiming w = wtiming v" "can_parent w = can_parent v"
    using assms by (auto simp: same_session_def)
  show t: "track_at w = track_at v" and s: "stall_site w = stall_site v"
    by (simp_all add: track_at_def stall_site_def m fun_eq_iff)
  have "timestamp w = timestamp v" by (simp add: timestamp_def m fun_eq_iff)
  then show e: "event w = event v" by (simp add: event_def [abs_def] t)
  show "flow w = flow v" by (simp add: flow_def [abs_def] e)
  show "close_stalls w = close_stalls v" unfolding close_stalls_def [abs_def] close_stall_def [abs_def] e by (rule refl)
  have "slice_name w = slice_name v" unfolding slice_name_def [abs_def] s m by (rule refl)
  then show "slice_body L w = slice_body L v" unfolding slice_body_def [abs_def] m by simp
  show "end_slice w = end_slice v" unfolding end_slice_def [abs_def] s t e by (rule refl)
qed

lemma session_steps:
  assumes "same_session w v"
  shows "close_step w = close_step v" "begin_slice L w = begin_slice L v"
  by (simp_all add: close_step_def [abs_def] begin_slice_def [abs_def] session_functions [OF assms])

section \<open>Emissions that cannot be told apart\<close>

text \<open>What is known of an occurrence, recorded by an earlier batch or by this one.\<close>

definition recorded :: "writer \<Rightarrow> emission \<Rightarrow> ref \<Rightarrow> (u64 \<times> u64) option" where
  "recorded w s r = (case om_find (additions s) r of Some x \<Rightarrow> Some x | None \<Rightarrow> om_find (known w) r)"

definition recorded_count :: "writer \<Rightarrow> emission \<Rightarrow> nat" where
  "recorded_count w s = length (known w) + length (additions s)"

definition same_emission :: "writer \<Rightarrow> writer \<Rightarrow> u8 list \<Rightarrow> emission \<Rightarrow> emission \<Rightarrow> bool" where
  "same_emission w v pre s t \<longleftrightarrow> stream s = pre @ stream t \<and> same_sent (interns s) (interns t)
     \<and> next_stalls s = next_stalls t \<and> formatting s = formatting t \<and> group_cycle s = group_cycle t
     \<and> om_wf (next_stalls t) \<and> om_wf (additions s) \<and> om_wf (additions t)
     \<and> recorded_count w s = recorded_count v t \<and> (\<forall>r. recorded w s r = recorded v t r)"

definition same_result ::
  "writer \<Rightarrow> writer \<Rightarrow> u8 list \<Rightarrow> emission \<times> (export_error + unit) \<Rightarrow> emission \<times> (export_error + unit) \<Rightarrow> bool" where
  "same_result w v pre p q \<longleftrightarrow> snd p = snd q \<and> (snd p = Inr () \<longrightarrow> same_emission w v pre (fst p) (fst q))"

definition alike :: "writer \<Rightarrow> writer \<Rightarrow> u8 list \<Rightarrow> emit \<Rightarrow> emit \<Rightarrow> bool" where
  "alike w v pre f h \<longleftrightarrow> (\<forall>s t. same_emission w v pre s t \<longrightarrow> same_result w v pre (f s) (h t))"

lemma alikeD: "alike w v pre f h \<Longrightarrow> same_emission w v pre s t \<Longrightarrow> same_result w v pre (f s) (h t)"
  by (simp add: alike_def)

lemma same_result_simps [simp]:
  "same_result w v pre (s, Inl e) (t, Inl e') \<longleftrightarrow> e = e'"
  "same_result w v pre (s, Inr ()) (t, Inr ()) \<longleftrightarrow> same_emission w v pre s t"
  by (auto simp: same_result_def)

lemma same_result_then:
  assumes "same_result w v pre (f s) (h t)"
    and "\<And>s' t'. f s = (s', Inr ()) \<Longrightarrow> same_emission w v pre s' t' \<Longrightarrow> same_result w v pre (f' s') (h' t')"
  shows "same_result w v pre (then_emit f f' s) (then_emit h h' t)"
proof -
  obtain s' r t' where r: "f s = (s', r)" "h t = (t', r)"
    using assms(1) by (cases "f s", cases "h t") (simp add: same_result_def)
  show ?thesis
  proof (cases r)
    case (Inr u)
    with assms r show ?thesis by (simp add: then_emit_def)
  qed (simp add: then_emit_def r same_result_def)
qed

lemma alike_then [intro]: "alike w v pre f h \<Longrightarrow> alike w v pre f' h' \<Longrightarrow> alike w v pre (then_emit f f') (then_emit h h')"
  by (auto simp: alike_def intro: same_result_then)

lemma alike_each [intro]:
  assumes "\<And>x. alike w v pre (f x) (h x)"
  shows "alike w v pre (emit_each f xs) (emit_each h xs)"
proof (induction xs)
  case (Cons x xs)
  from alike_then [OF assms this] show ?case by (simp add: alike_def)
qed (simp add: alike_def)

lemma alike_skip [intro]: "alike w v pre (\<lambda>s. (s, Inr ())) (\<lambda>s. (s, Inr ()))"
  by (simp add: alike_def)

text \<open>A step that only writes.\<close>

lemma same_emission_write:
  assumes "same_emission w v pre s t" "sent_output pre (bs, ps) (cs, qs)"
  shows "same_emission w v pre (s\<lparr>stream := bs, interns := ps\<rparr>) (t\<lparr>stream := cs, interns := qs\<rparr>)"
  using assms by (simp add: same_emission_def recorded_def recorded_count_def)

lemma same_packet:
  assumes "same_emission w v pre s t" "same_interns ps qs"
    and "\<And>s t. same_output pre s t \<Longrightarrow> rel_sum (=) (sent_output pre) (f s) (h t)"
  shows "same_result w v pre (packet_step f (s\<lparr>interns := ps\<rparr>)) (packet_step h (t\<lparr>interns := qs\<rparr>))"
proof -
  have "same_output pre (stream s, ps) (stream t, qs)" using assms(1,2) by (simp add: same_emission_def)
  from assms(3) [OF this] show ?thesis
  proof cases
    case (2 x y)
    then obtain bs ps' cs qs' where "x = (bs, ps')" "y = (cs, qs')" "sent_output pre (bs, ps') (cs, qs')"
      by (cases x, cases y) auto
    with 2 same_emission_write [OF assms(1) this(3)] show ?thesis by (simp add: packet_step_def)
  qed (simp add: packet_step_def)
qed

lemma alike_packet:
  assumes "\<And>s t. same_output pre s t \<Longrightarrow> rel_sum (=) (sent_output pre) (f s) (h t)"
  shows "alike w v pre (packet_step f) (packet_step h)"
proof (unfold alike_def, intro allI impI)
  fix s t
  assume st: "same_emission w v pre s t"
  then have "same_interns (interns s) (interns t)" by (simp add: same_emission_def same_sent_def)
  from same_packet [OF st this assms] show "same_result w v pre (packet_step f s) (packet_step h t)" by simp
qed

lemma alike_event: "alike w v pre (packet_step (event u r c bd)) (packet_step (event u r c bd))"
  by (rule alike_packet) (rule same_event)

lemma alike_flow_packet: "alike w v pre (packet_step (flow u r c ph i)) (packet_step (flow u r c ph i))"
  by (rule alike_packet) (rule same_flow)

section \<open>The steps of an occurrence\<close>

lemma close_stalls_runs:
  "close_stalls w P (bs, ps, runs) = Inr (bs', ps', runs') \<Longrightarrow>
    runs' = filter (\<lambda>(track, _). track \<notin> snd ` set (endings P runs)) runs"
proof -
  have "emit_all (close_stall w) es (bs, ps, runs) = Inr (bs', ps', runs') \<Longrightarrow>
      runs' = filter (\<lambda>(track, _). track \<notin> snd ` set es) runs" for es
  proof (induction es arbitrary: bs ps runs)
    case (Cons e es)
    obtain c track where e: "e = (c, track)" by (cases e)
    from Cons.prems obtain x where x: "close_stall w e (bs, ps, runs) = Inr x"
      "emit_all (close_stall w) es x = Inr (bs', ps', runs')" by auto
    then obtain bs1 ps1 where "x = (bs1, ps1, om_erase track runs)"
      by (auto simp: close_stall_def e split: option.splits)
    with x have "emit_all (close_stall w) es (bs1, ps1, om_erase track runs) = Inr (bs', ps', runs')" by simp
    from Cons.IH [OF this] show ?case
      by (auto simp: om_erase_def e intro!: filter_cong)
  qed (simp add: case_prod_unfold)
  then show "close_stalls w P (bs, ps, runs) = Inr (bs', ps', runs') \<Longrightarrow>
    runs' = filter (\<lambda>(track, _). track \<notin> snd ` set (endings P runs)) runs"
    by (simp add: close_stalls_def)
qed

lemma om_wf_filter: "om_wf m \<Longrightarrow> om_wf (filter P m)"
  unfolding om_wf_def sorted_wrt_map by (rule sorted_wrt_filter)

lemma alike_close:
  assumes "same_session w v"
  shows "alike w v pre (close_step w P) (close_step v P)"
proof (unfold alike_def, intro allI impI)
  fix s t
  assume st: "same_emission w v pre s t"
  then have "sent_slices pre (stream s, interns s, next_stalls s) (stream t, interns t, next_stalls t)"
    by (simp add: same_emission_def)
  from same_close_stalls [OF this, of v P] show "same_result w v pre (close_step w P s) (close_step v P t)"
  proof cases
    case (2 x y)
    then obtain bs ps cs qs runs where "x = (bs, ps, runs)" "y = (cs, qs, runs)" "sent_output pre (bs, ps) (cs, qs)"
      by (cases x, cases y) auto
    moreover have "om_wf runs"
      using close_stalls_runs [of v P "stream s" "interns s" "next_stalls s" bs ps runs] 2 calculation st
      by (simp add: same_emission_def om_wf_filter)
    ultimately show ?thesis using 2 st
      by (simp add: close_step_def session_functions [OF assms] same_emission_def recorded_def recorded_count_def)
  qed (simp add: close_step_def session_functions [OF assms])
qed

lemma alike_enter:
  assumes "same_session w v" "stall_ends b g c = stall_ends b' g' c"
  shows "alike w v pre (enter_cycle w b g c) (enter_cycle v b' g' c)"
proof (unfold alike_def, intro allI impI)
  fix s t
  assume st: "same_emission w v pre s t"
  then have "same_emission w v pre (s\<lparr>group_cycle := Some c\<rparr>) (t\<lparr>group_cycle := Some c\<rparr>)"
    by (simp add: same_emission_def recorded_def recorded_count_def)
  from alikeD [OF alike_close [OF assms(1)] this] st assms(2)
  show "same_result w v pre (enter_cycle w b g c s) (enter_cycle v b' g' c t)"
    by (simp add: enter_cycle_def same_emission_def)
qed

lemma same_bodies:
  "same_interns ps qs \<Longrightarrow> rel_prod (=) (rel_sum (=) (rel_prod same_interns (=)))
    (slice_body L w r n ps fmt) (slice_body L w r n qs fmt)"
  using same_slice_body by (auto dest!: rel_funD)

lemma alike_begin:
  assumes "same_session w v"
  shows "alike w v pre (begin_slice L w r n) (begin_slice L v r n)"
proof (unfold alike_def, intro allI impI)
  fix s t
  assume st: "same_emission w v pre s t"
  then have i: "same_interns (interns s) (interns t)" "formatting s = formatting t"
    by (simp_all add: same_emission_def same_sent_def)
  obtain fmt x y where b: "slice_body L v r n (interns s) (formatting t) = (fmt, x)"
      "slice_body L v r n (interns t) (formatting t) = (fmt, y)" "rel_sum (=) (rel_prod same_interns (=)) x y"
    using same_bodies [OF i(1), of L v r n "formatting t"] by (auto elim!: rel_prod.cases)
  from b(3) show "same_result w v pre (begin_slice L w r n s) (begin_slice L v r n t)"
  proof cases
    case (2 p q)
    then obtain ps qs bd where p: "p = (ps, bd)" "q = (qs, bd)" "same_interns ps qs"
      by (cases p, cases q) auto
    have "same_emission w v pre (s\<lparr>formatting := fmt\<rparr>) (t\<lparr>formatting := fmt\<rparr>)"
      using st by (simp add: same_emission_def recorded_def recorded_count_def)
    from same_packet [OF this p(3) same_event] b 2 p show ?thesis
      by (simp add: begin_slice_def session_steps [OF assms] i(2))
  qed (use b i in \<open>simp add: begin_slice_def session_steps [OF assms]\<close>)
qed

lemma flow_identity_recorded: "flow_identity w s p =
    (case recorded w s p of Some (i, _) \<Rightarrow> Inr i | None \<Rightarrow> Inl (Collector Out_of_range))"
  by (simp add: flow_identity_def recorded_def split: option.split prod.split)

lemma alike_flow:
  assumes "same_session w v"
  shows "alike w v pre (parent_flow w r n p) (parent_flow v r n p)"
proof (unfold alike_def, intro allI impI)
  fix s t
  assume st: "same_emission w v pre s t"
  then have "flow_identity w s p = flow_identity v t p"
    by (simp add: flow_identity_recorded same_emission_def)
  with alikeD [OF alike_flow_packet st] show
    "same_result w v pre (parent_flow w r n p s) (parent_flow v r n p t)"
    by (simp add: parent_flow_def session_functions [OF assms] split: sum.split)
qed

lemma same_emission_stalls:
  "same_emission w v pre s t \<Longrightarrow> om_wf x \<Longrightarrow> same_emission w v pre (s\<lparr>next_stalls := x\<rparr>) (t\<lparr>next_stalls := x\<rparr>)"
  by (simp add: same_emission_def recorded_def recorded_count_def)

lemma alike_end:
  assumes "same_session w v"
  shows "alike w v pre (end_slice w r n ps) (end_slice v r n ps)"
proof (unfold alike_def, intro allI impI)
  fix s t
  assume st: "same_emission w v pre s t"
  then have "next_stalls s = next_stalls t" "om_wf (next_stalls t)" by (simp_all add: same_emission_def)
  with st same_emission_stalls [OF st, of "next_stalls t"] alikeD [OF alike_event st, of v r "ucast (cycle n) + 1" "integer 9 2"]
  show "same_result w v pre (end_slice w r n ps s) (end_slice v r n ps t)"
    by (simp add: end_slice_def session_functions [OF assms] same_emission_stalls om_wf_put)
qed

lemma alike_slice:
  assumes "same_session w v" "refs_of (parents g) r = refs_of (parents g') r"
  shows "alike w v pre (new_slice L w g r n i) (new_slice L v g' r n i)"
proof -
  have "can_parent w = can_parent v" using assms(1) by (simp add: same_session_def)
  with assms session_functions(4) [OF assms(1)] show ?thesis unfolding new_slice_def
    by (auto intro!: alike_then alike_each alike_begin alike_flow alike_end alike_flow_packet)
qed

section \<open>Batches that agree on some cycles\<close>

definition agree :: "(u64 \<Rightarrow> bool) \<Rightarrow> cycle_batch \<Rightarrow> batch_graph \<Rightarrow> cycle_batch \<Rightarrow> batch_graph \<Rightarrow> bool" where
  "agree C b g b' g' \<longleftrightarrow> (\<forall>r n. C (cycle n) \<longrightarrow>
     (om_find (bnodes b) r = Some n \<longleftrightarrow> om_find (bnodes b') r = Some n)
     \<and> (om_find (bnodes b) r = Some n \<longrightarrow> refs_of (parents g) r = refs_of (parents g') r))"

lemma stall_ends_agree:
  assumes "agree C b g b' g'" "C c"
  shows "stall_ends b g c = stall_ends b' g' c"
proof (rule ext)
  fix run :: stall_run
  let ?r = "Ref (site (last_ref run)) (sequence (last_ref run) + 1)"
  have a: "om_find (bnodes b) ?r = Some n \<longleftrightarrow> om_find (bnodes b') ?r = Some n"
      "om_find (bnodes b) ?r = Some n \<Longrightarrow> refs_of (parents g) ?r = refs_of (parents g') ?r" if "cycle n = c" for n
    using assms that by (auto simp: agree_def)
  show "stall_ends b g c run = stall_ends b' g' c run"
  proof (cases "\<exists>n. om_find (bnodes b) ?r = Some n \<and> cycle n = c")
    case True
    then obtain n where "om_find (bnodes b) ?r = Some n" "cycle n = c" by blast
    with a [of n] show ?thesis by (simp add: stall_ends_def)
  next
    case False
    with a have "\<not> (\<exists>n. om_find (bnodes b') ?r = Some n \<and> cycle n = c)" by blast
    with False show ?thesis by (auto simp: stall_ends_def split: option.split)
  qed
qed

lemma emit_node_agree:
  assumes "agree C b g b' g'" "om_find (bnodes b) r = Some n" "C (cycle n)"
  shows "emit_node L w b g r = emit_node L w b' g' r"
proof -
  have "om_find (bnodes b') r = Some n" and ps: "refs_of (parents g) r = refs_of (parents g') r"
    using assms by (auto simp: agree_def)
  with assms(2) have n: "node_at (bnodes b) r = n" "node_at (bnodes b') r = n" by (simp_all add: node_at_def)
  have e: "enter_cycle w b g (cycle n) = enter_cycle w b' g' (cycle n)"
    by (simp add: enter_cycle_def fun_eq_iff stall_ends_agree [OF assms(1,3)])
  have slice: "new_slice L w g r n = new_slice L w g' r n"
    by (simp add: new_slice_def fun_eq_iff ps)
  show ?thesis unfolding emit_node_def [abs_def] n Let_def e slice by (rule refl)
qed

lemma same_admit_node:
  assumes "same_emission w v pre s t" "recorded w s r = None"
  shows "same_result w v pre (admit_node w r n s) (admit_node v r n t)"
proof -
  have c: "length (known w) + length (additions s) = length (known v) + length (additions t)"
    using assms(1) by (simp add: same_emission_def recorded_count_def)
  have "recorded v t r = None" using assms by (simp add: same_emission_def)
  then have fresh: "om_find (additions s) r = None" "om_find (additions t) r = None"
    using assms(2) by (auto simp: recorded_def split: option.splits)
  have "same_emission w v pre (s\<lparr>additions := om_put r x (additions s)\<rparr>) (t\<lparr>additions := om_put r x (additions t)\<rparr>)" for x
  proof -
    have "recorded w (s\<lparr>additions := om_put r x (additions s)\<rparr>) q = (if q = r then Some x else recorded w s q)"
        "recorded v (t\<lparr>additions := om_put r x (additions t)\<rparr>) q = (if q = r then Some x else recorded v t q)" for q
      using assms(1) by (simp_all add: recorded_def same_emission_def om_find_put)
    with assms(1) fresh show ?thesis
      by (simp add: same_emission_def recorded_count_def om_wf_put length_om_put_fresh)
  qed
  moreover have "int (length (known w)) \<ge> 2 ^ 64 - 1 - int (length (additions s)) \<longleftrightarrow>
      int (length (known v)) \<ge> 2 ^ 64 - 1 - int (length (additions t))" using c by linarith
  moreover have "next_identity w s = next_identity v t" using c by (simp add: next_identity_def)
  ultimately show ?thesis by (simp add: admit_node_def)
qed

lemma same_emit_node:
  assumes "same_session w v" "agree C b g b' g'" "om_find (bnodes b) r = Some n" "C (cycle n)"
    and st: "same_emission w v pre s t" and fresh: "recorded w s r = None"
  shows "same_result w v pre (emit_node L w b g r s) (emit_node L v b' g' r t)"
proof -
  have "om_find (bnodes b') r = Some n" and ps: "refs_of (parents g) r = refs_of (parents g') r"
    using assms(2-4) by (auto simp: agree_def)
  with assms(3) have n: "node_at (bnodes b) r = n" "node_at (bnodes b') r = n" by (simp_all add: node_at_def)
  define x where "x run = (run\<lparr>last_ref := r, run_node := (run_node run)\<lparr>cycle := cycle n\<rparr>\<rparr>)" for run :: stall_run
  define k where "k w g i s = (case om_find (next_stalls s) (track_at w r) of
      Some run \<Rightarrow> if stall_site w r then (s\<lparr>next_stalls := om_put (track_at w r) (x run) (next_stalls s)\<rparr>, Inr ())
        else new_slice L w g r n i s
    | None \<Rightarrow> new_slice L w g r n i s)" for w g i s
  have emit: "emit_node L w b g r s = then_emit (enter_cycle w b g (cycle n))
      (\<lambda>s. then_emit (admit_node w r n) (k w g (next_identity w s)) s) s" if "node_at (bnodes b) r = n" for w b g s
    unfolding emit_node_def Let_def that k_def x_def by (rule refl)
  have slice: "same_result w v pre (k w g i s) (k v g' i t)" if "same_emission w v pre s t" for s t i
  proof -
    have "next_stalls s = next_stalls t" "om_wf (next_stalls t)" using that by (auto simp: same_emission_def)
    with that alikeD [OF alike_slice [OF assms(1) ps] that, of L n i] show ?thesis
      by (simp add: k_def session_functions [OF assms(1)] same_emission_stalls om_wf_put split: option.split)
  qed
  show ?thesis
    unfolding emit [OF n(1)] emit [OF n(2)]
  proof (rule same_result_then)
    show "same_result w v pre (enter_cycle w b g (cycle n) s) (enter_cycle v b' g' (cycle n) t)"
      by (rule alikeD [OF alike_enter [OF assms(1) stall_ends_agree [OF assms(2,4)]] st])
    fix s' t'
    assume e: "enter_cycle w b g (cycle n) s = (s', Inr ())" and st': "same_emission w v pre s' t'"
    have "recorded w s' r = None"
      using enter_keeps [OF e] fresh by (simp add: recorded_def)
    moreover have "next_identity w s' = next_identity v t'"
      using st' by (simp add: next_identity_def same_emission_def recorded_count_def)
    ultimately show "same_result w v pre (then_emit (admit_node w r n) (k w g (next_identity w s')) s')
        (then_emit (admit_node v r n) (k v g' (next_identity v t')) t')"
      using same_admit_node [OF st'] slice by (auto intro: same_result_then)
  qed
qed

lemma same_emit_nodes:
  assumes "same_session w v" "agree C b g b' g'"
    and "\<And>r. r \<in> set rs \<Longrightarrow> \<exists>n. om_find (bnodes b) r = Some n \<and> C (cycle n)"
  shows "distinct rs \<Longrightarrow> same_emission w v pre s t \<Longrightarrow> \<forall>r \<in> set rs. recorded w s r = None \<Longrightarrow>
    same_result w v pre (emit_each (emit_node L w b g) rs s) (emit_each (emit_node L v b' g') rs t)"
  using assms(3)
proof (induction rs arbitrary: s t)
  case (Cons r rs)
  obtain n where n: "om_find (bnodes b) r = Some n" "C (cycle n)" using Cons.prems(4) [of r] by auto
  have fresh: "recorded w s r = None" using Cons.prems(3) by simp
  show ?case
    unfolding emit_each.simps
  proof (rule same_result_then)
    show "same_result w v pre (emit_node L w b g r s) (emit_node L v b' g' r t)"
      by (rule same_emit_node [OF assms(1,2) n Cons.prems(2) fresh])
    fix s' t'
    assume s': "emit_node L w b g r s = (s', Inr ())" and st: "same_emission w v pre s' t'"
    have "om_wf (additions s)" using Cons.prems(2) by (simp add: same_emission_def)
    with emit_node_adds(1) [OF s'] Cons.prems(1,3) have "\<forall>q \<in> set rs. recorded w s' q = None"
      by (auto simp: recorded_def om_find_put)
    with Cons.IH [OF _ st] Cons.prems(1,4) show
      "same_result w v pre (emit_each (emit_node L w b g) rs s') (emit_each (emit_node L v b' g') rs t')" by simp
  qed
qed simp

end
