(* ===== verification/Topo_Split.thy ===== *)
theory Topo_Split
  imports Topo_Order
begin

text \<open>
  The order of Kahn's algorithm as a specification: the least node whose parents have all been taken
  comes next. It determines the order, and the order of a graph whose nodes are split at a key is
  the order of the lower part followed by that of the upper part.
\<close>

section \<open>The least free node comes next\<close>

definition free_nodes :: "'a set \<Rightarrow> ('a \<times> 'a) set \<Rightarrow> 'a set \<Rightarrow> 'a set" where
  "free_nodes N E T = {r \<in> N - T. open_parents E T r = {}}"

inductive greedy :: "('a::linorder \<Rightarrow> 'k::linorder) \<Rightarrow> 'a set \<Rightarrow> ('a \<times> 'a) set \<Rightarrow> 'a set \<Rightarrow> 'a list \<Rightarrow> bool"
  for key N E where
  none: "free_nodes N E T = {} \<Longrightarrow> greedy key N E T []"
| least: "r \<in> free_nodes N E T \<Longrightarrow> \<forall>x \<in> free_nodes N E T. (key r, r) \<le> (key x, x) \<Longrightarrow>
    greedy key N E (insert r T) rs \<Longrightarrow> greedy key N E T (r # rs)"

inductive_cases greedy_NilE: "greedy key N E T []"
inductive_cases greedy_ConsE: "greedy key N E T (r # rs)"

lemma greedy_unique: "greedy key N E T xs \<Longrightarrow> greedy key N E T ys \<Longrightarrow> xs = ys"
proof (induction arbitrary: ys rule: greedy.induct)
  case (none T)
  from none(2) show ?case by cases (use none(1) in auto)
next
  case (least r T rs)
  from least(5) show ?case
  proof cases
    case none
    with least(1) show ?thesis by simp
  next
    case (least s ss)
    have "(key r, r) \<le> (key s, s)" "(key s, s) \<le> (key r, r)"
      using \<open>\<forall>x \<in> free_nodes N E T. (key r, r) \<le> (key x, x)\<close> least(3) \<open>r \<in> free_nodes N E T\<close> least(2)
      by blast+
    then have "s = r" by (metis antisym prod.inject)
    with \<open>\<And>ys. greedy key N E (insert r T) ys \<Longrightarrow> rs = ys\<close> least show ?thesis by simp
  qed
qed

lemma kahn_greedy:
  assumes ch: "\<And>r. r \<in> N \<Longrightarrow> distinct (children r) \<and> set (children r) = {c. (r, c) \<in> E}"
  shows "kahn_inv key N E T d ready \<Longrightarrow> card (N - T) \<le> fuel \<Longrightarrow>
    greedy key N E T (kahn key children fuel d ready)"
proof (induction fuel arbitrary: d ready T)
  case 0
  then have "finite N" "T \<subseteq> N" by (auto simp: kahn_inv_def)
  with 0 have "N - T = {}" by simp
  with 0 show ?case by (cases ready) (auto simp: kahn_inv_def free_nodes_def intro: greedy.none)
next
  case (Suc fuel)
  note I = Suc.prems(1) [unfolded kahn_inv_def, folded free_nodes_def]
  show ?case
  proof (cases ready)
    case Nil
    with I have "free_nodes N E T = {}" by auto
    then show ?thesis by (simp add: Nil greedy.none)
  next
    case (Cons a rest)
    obtain k r where a: "a = (k, r)" by (cases a)
    obtain d' ready' where rel: "release key (children r) (d, rest) = (d', ready')" by (metis prod.exhaust)
    have "(k, r) \<in> (\<lambda>r. (key r, r)) ` free_nodes N E T" using I Cons a by (metis list.set_intros(1))
    then have r: "r \<in> free_nodes N E T" "k = key r" by auto
    then have "r \<in> N" by (auto simp: free_nodes_def)
    note c = ch [OF this]
    note step = kahn_step [of key N E T d k r rest children,
        OF Suc.prems(1) [unfolded Cons a] c [THEN conjunct1] c [THEN conjunct2] rel]
    have "card (N - insert r T) < card (N - T)"
      using step I by (intro psubset_card_mono) auto
    then have tail: "greedy key N E (insert r T) (kahn key children fuel d' ready')"
      using Suc.IH step Suc.prems(2) by auto
    have "(key r, r) \<le> (key x, x)" if "x \<in> free_nodes N E T" for x
    proof -
      have "(key x, x) \<in> set ready" using I that by blast
      then show ?thesis using I Cons a r(2) by (cases "x = r") (auto simp: less_imp_le)
    qed
    with r tail rel show ?thesis by (auto simp: Cons a intro: greedy.least)
  qed
qed

section \<open>Two parts\<close>

text \<open>\<open>N1\<close> and \<open>N2\<close> are the nodes below and above a key; no edge leads down.\<close>

definition split_graph :: "('a \<Rightarrow> 'k::linorder) \<Rightarrow> 'a set \<Rightarrow> 'a set \<Rightarrow> ('a \<times> 'a) set \<Rightarrow> bool" where
  "split_graph key N1 N2 E \<longleftrightarrow> (\<forall>x \<in> N1. \<forall>y \<in> N2. key x < key y) \<and> E \<subseteq> (N1 \<union> N2) \<times> (N1 \<union> N2)
     \<and> (\<forall>(p, c) \<in> E. key p \<le> key c)"

lemma split_disjoint: "split_graph key N1 N2 E \<Longrightarrow> x \<in> N1 \<Longrightarrow> x \<notin> N2"
  unfolding split_graph_def by (metis order_less_irrefl)

lemma lower_parents: "split_graph key N1 N2 E \<Longrightarrow> x \<in> N1 \<Longrightarrow>
    open_parents E T x = open_parents (E \<inter> N1 \<times> N1) T x"
  by (fastforce simp: split_graph_def open_parents_def)

lemma upper_parents: "split_graph key N1 N2 E \<Longrightarrow> x \<in> N2 \<Longrightarrow>
    open_parents E (N1 \<union> T) x = open_parents (E \<inter> N2 \<times> N2) T x - N1"
  using split_disjoint [of key N1 N2 E] by (fastforce simp: split_graph_def open_parents_def)

lemma greedy_upper:
  assumes s: "split_graph key N1 N2 E"
  shows "greedy key N2 (E \<inter> N2 \<times> N2) T ys \<Longrightarrow> greedy key (N1 \<union> N2) E (N1 \<union> T) ys"
proof (induction rule: greedy.induct)
  have "open_parents (E \<inter> N2 \<times> N2) T x \<subseteq> N2" for T x by (auto simp: open_parents_def)
  then have "open_parents E (N1 \<union> T) x = open_parents (E \<inter> N2 \<times> N2) T x" if "x \<in> N2" for T x
    using upper_parents [OF s that, of T] split_disjoint [OF s] by blast
  then have free: "free_nodes (N1 \<union> N2) E (N1 \<union> T) = free_nodes N2 (E \<inter> N2 \<times> N2) T" for T
    using split_disjoint [OF s] by (auto simp: free_nodes_def)
  {
    case (none T)
    then show ?case by (simp add: free greedy.none)
  next
    case (least r T rs)
    then show ?case by (intro greedy.least) (simp_all add: free)
  }
qed

lemma greedy_lower:
  assumes s: "split_graph key N1 N2 E" and upper: "greedy key (N1 \<union> N2) E N1 ys"
  shows "greedy key N1 (E \<inter> N1 \<times> N1) T xs \<Longrightarrow> T \<union> set xs = N1 \<Longrightarrow>
    greedy key (N1 \<union> N2) E T (xs @ ys)"
proof (induction rule: greedy.induct)
  case (none T)
  then show ?case using upper by simp
next
  case (least r T rs)
  have r: "r \<in> N1" "r \<in> free_nodes (N1 \<union> N2) E T"
    using least(1) lower_parents [OF s, of r T] by (auto simp: free_nodes_def)
  have "(key r, r) \<le> (key x, x)" if x: "x \<in> free_nodes (N1 \<union> N2) E T" for x
  proof (cases "x \<in> N1")
    case True
    with x lower_parents [OF s True, of T] have "x \<in> free_nodes N1 (E \<inter> N1 \<times> N1) T"
      by (simp add: free_nodes_def)
    with least(2) show ?thesis by blast
  next
    case False
    with x have "x \<in> N2" by (simp add: free_nodes_def)
    with s r(1) show ?thesis by (auto simp: split_graph_def)
  qed
  with r least show ?case by (auto intro: greedy.least)
qed

text \<open>The order of the whole is the order of the parts, when the lower part is ordered completely.\<close>

lemma greedy_split:
  assumes "split_graph key N1 N2 E" "greedy key N1 (E \<inter> N1 \<times> N1) {} xs" "set xs = N1"
    and "greedy key N2 (E \<inter> N2 \<times> N2) {} ys" "greedy key (N1 \<union> N2) E {} zs"
  shows "zs = xs @ ys"
  using greedy_unique [OF assms(5) greedy_lower [OF assms(1) _ assms(2)]]
    greedy_upper [OF assms(1,4)] assms(3) by simp

text \<open>Only the keys of the nodes matter.\<close>

lemma greedy_key:
  assumes "\<And>r. r \<in> N \<Longrightarrow> key' r = key r"
  shows "greedy key N E T xs \<Longrightarrow> greedy key' N E T xs"
proof (induction rule: greedy.induct)
  case (least r T rs)
  then show ?case using assms by (intro greedy.least) (auto simp: free_nodes_def)
qed (rule greedy.none)

end
