(* ===== verification/Perfetto_Join.thy ===== *)
theory Perfetto_Join
  imports Perfetto_Continue Topo_Split
begin

text \<open>
  Two batches written one after the other against the batch that holds the occurrences of both: when
  the exporter accepts the two it accepts the one, and orders it as the first followed by the second.
\<close>

section \<open>The joined batch\<close>

definition join_batches :: "cycle_batch \<Rightarrow> cycle_batch \<Rightarrow> cycle_batch" where
  "join_batches b1 b2 = \<lparr>bcycle = bcycle b2, bnodes = om_merge (bnodes b1) (bnodes b2),
     bedges = fold os_insert (bedges b2) (bedges b1)\<rparr>"

lemma fold_os_insert: "os_wf s \<Longrightarrow> os_wf (fold os_insert xs s) \<and> set (fold os_insert xs s) = set s \<union> set xs"
  by (induction xs arbitrary: s) auto

lemma join_wf: "batch_wf b1 \<Longrightarrow> batch_wf b2 \<Longrightarrow> batch_wf (join_batches b1 b2)"
  using om_merge_known [of "bnodes b1" "bnodes b2"] fold_os_insert [of "bedges b1" "bedges b2"]
  by (simp add: batch_wf_def join_batches_def)

lemma join_find:
  "batch_wf b1 \<Longrightarrow> om_find (bnodes (join_batches b1 b2)) r =
    (case om_find (bnodes b1) r of None \<Rightarrow> om_find (bnodes b2) r | Some n \<Rightarrow> Some n)"
  using om_merge_known [of "bnodes b1" "bnodes b2"] by (simp add: batch_wf_def join_batches_def)

lemma join_edges: "batch_wf b1 \<Longrightarrow> set (bedges (join_batches b1 b2)) = set (bedges b1) \<union> set (bedges b2)"
  using fold_os_insert [of "bedges b1" "bedges b2"] by (simp add: batch_wf_def join_batches_def)

lemma batch_refs_find: "r \<in> batch_refs b \<longleftrightarrow> om_has (bnodes b) r"
  unfolding batch_refs_def om_has_iff by (rule refl)

text \<open>Two batches that follow each other: their occurrences are different ones, their cycles lie
  before and after the end of the first, and edges end in their own batch.\<close>

definition successive :: "cycle_batch \<Rightarrow> cycle_batch \<Rightarrow> bool" where
  "successive b1 b2 \<longleftrightarrow> batch_wf b1 \<and> batch_wf b2 \<and> batch_refs b1 \<inter> batch_refs b2 = {}
     \<and> (\<forall>r n. om_find (bnodes b1) r = Some n \<longrightarrow> cycle n \<le> bcycle b1)
     \<and> (\<forall>r n. om_find (bnodes b2) r = Some n \<longrightarrow> bcycle b1 < cycle n)
     \<and> snd ` set (bedges b1) \<subseteq> batch_refs b1 \<and> snd ` set (bedges b2) \<subseteq> batch_refs b2"

lemma successive_find:
  assumes "successive b1 b2"
  shows "om_find (bnodes (join_batches b1 b2)) r = Some n \<longleftrightarrow>
    om_find (bnodes b1) r = Some n \<or> om_find (bnodes b2) r = Some n"
proof -
  have "r \<notin> batch_refs b1 \<or> r \<notin> batch_refs b2" and wf: "batch_wf b1"
    using assms by (auto simp: successive_def)
  then have "om_find (bnodes b1) r = None \<or> om_find (bnodes b2) r = None" by (simp add: batch_refs_find)
  then show ?thesis by (auto simp: join_find [OF wf] split: option.split)
qed

lemma successive_refs: "successive b1 b2 \<Longrightarrow> batch_refs (join_batches b1 b2) = batch_refs b1 \<union> batch_refs b2"
  using successive_find by (fastforce simp: batch_refs_find)

lemma successive_set:
  assumes "successive b1 b2"
  shows "set (bnodes (join_batches b1 b2)) = set (bnodes b1) \<union> set (bnodes b2)"
proof -
  have wf: "om_wf (bnodes b1)" "om_wf (bnodes b2)" "om_wf (bnodes (join_batches b1 b2))"
    using assms join_wf by (auto simp: successive_def batch_wf_def)
  have "(r, n) \<in> set (bnodes (join_batches b1 b2)) \<longleftrightarrow> (r, n) \<in> set (bnodes b1) \<union> set (bnodes b2)" for r n
    using successive_find [OF assms, of r n] by (simp add: om_find_iff [OF wf(1)] om_find_iff [OF wf(2)] om_find_iff [OF wf(3)])
  then show ?thesis by auto
qed

text \<open>The parents of an occurrence are those of its own batch.\<close>

lemma successive_parents:
  assumes s: "successive b1 b2" and g: "graph_of b (set (bedges (join_batches b1 b2))) g"
    "graph_of b1 (set (bedges b1)) g1" "graph_of b2 (set (bedges b2)) g2"
  shows "r \<in> batch_refs b1 \<Longrightarrow> refs_of (parents g) r = refs_of (parents g1) r"
    and "r \<in> batch_refs b2 \<Longrightarrow> refs_of (parents g) r = refs_of (parents g2) r"
proof -
  have wf: "batch_wf b1" using s by (simp add: successive_def)
  have ps: "set (refs_of (parents g) r) = {p. (p, r) \<in> set (bedges b1) \<union> set (bedges b2)}"
      "set (refs_of (parents g1) r) = {p. (p, r) \<in> set (bedges b1)}"
      "set (refs_of (parents g2) r) = {p. (p, r) \<in> set (bedges b2)}"
      "os_wf (refs_of (parents g) r)" "os_wf (refs_of (parents g1) r)" "os_wf (refs_of (parents g2) r)"
    using g join_edges [OF wf, of b2] by (auto simp: graph_of_def)
  have own: "c \<in> batch_refs b1" if "(p, c) \<in> set (bedges b1)" for p c
    using s that by (force simp: successive_def)
  have own': "c \<in> batch_refs b2" if "(p, c) \<in> set (bedges b2)" for p c
    using s that by (force simp: successive_def)
  have disjoint: "c \<notin> batch_refs b1 \<or> c \<notin> batch_refs b2" for c
    using s by (auto simp: successive_def)
  have none: "r \<in> batch_refs b1 \<Longrightarrow> (p, r) \<notin> set (bedges b2)" "r \<in> batch_refs b2 \<Longrightarrow> (p, r) \<notin> set (bedges b1)" for p
    using disjoint [of r] own [of p r] own' [of p r] by blast+
  show "r \<in> batch_refs b1 \<Longrightarrow> refs_of (parents g) r = refs_of (parents g1) r"
    using ps none(1) by (intro os_ext) simp_all
  show "r \<in> batch_refs b2 \<Longrightarrow> refs_of (parents g) r = refs_of (parents g2) r"
    using ps none(2) by (intro os_ext) simp_all
qed

lemma successive_agree:
  assumes s: "successive b1 b2" and g: "graph_of b (set (bedges (join_batches b1 b2))) g"
    "graph_of b1 (set (bedges b1)) g1" "graph_of b2 (set (bedges b2)) g2"
  shows "agree (\<lambda>c. c \<le> bcycle b1) (join_batches b1 b2) g b1 g1"
    and "agree (\<lambda>c. bcycle b1 < c) (join_batches b1 b2) g b2 g2"
proof -
  note ps = successive_parents [OF s g]
  have c: "om_find (bnodes b1) r = Some n \<Longrightarrow> cycle n \<le> bcycle b1"
      "om_find (bnodes b2) r = Some n \<Longrightarrow> bcycle b1 < cycle n" for r n
    using s by (auto simp: successive_def)
  show "agree (\<lambda>c. c \<le> bcycle b1) (join_batches b1 b2) g b1 g1"
    using c ps(1) unfolding agree_def successive_find [OF s] batch_refs_find
    by (metis not_le option.distinct(1))
  show "agree (\<lambda>c. bcycle b1 < c) (join_batches b1 b2) g b2 g2"
    using c ps(2) unfolding agree_def successive_find [OF s] batch_refs_find
    by (metis not_le option.distinct(1))
qed

section \<open>The order\<close>

lemma batch_order_greedy:
  assumes "graph_of b es g" "om_wf (bnodes b)" "\<forall>e \<in> es. om_has (bnodes b) (snd e)"
  shows "greedy (batch_key b) (batch_refs b) (inner_edges b es) {} (batch_order b g)"
  unfolding batch_order_def batch_key_def [symmetric]
  using card_batch_refs [OF assms(2)] graph_children [OF assms(1)] initial_kahn [OF assms]
  by (intro kahn_greedy) simp_all

lemma inner_edges_parts:
  assumes s: "successive b1 b2"
  shows "inner_edges (join_batches b1 b2) (set (bedges (join_batches b1 b2))) \<inter> batch_refs b1 \<times> batch_refs b1
      = inner_edges b1 (set (bedges b1))"
    and "inner_edges (join_batches b1 b2) (set (bedges (join_batches b1 b2))) \<inter> batch_refs b2 \<times> batch_refs b2
      = inner_edges b2 (set (bedges b2))"
proof -
  have wf: "batch_wf b1" using s by (simp add: successive_def)
  have es: "inner_edges (join_batches b1 b2) (set (bedges (join_batches b1 b2))) =
      {e \<in> set (bedges b1) \<union> set (bedges b2). fst e \<in> batch_refs b1 \<union> batch_refs b2}"
    unfolding inner_edges_def join_edges [OF wf] batch_refs_find [symmetric] successive_refs [OF s] by (rule refl)
  have inner: "inner_edges b1 (set (bedges b1)) = {e \<in> set (bedges b1). fst e \<in> batch_refs b1}"
      "inner_edges b2 (set (bedges b2)) = {e \<in> set (bedges b2). fst e \<in> batch_refs b2}"
    unfolding inner_edges_def batch_refs_find [symmetric] by (rule refl)+
  have own: "snd e \<in> batch_refs b1" "snd e \<notin> batch_refs b2" if "e \<in> set (bedges b1)" for e
    using s that by (auto simp: successive_def)
  have own': "snd e \<in> batch_refs b2" "snd e \<notin> batch_refs b1" if "e \<in> set (bedges b2)" for e
    using s that by (auto simp: successive_def)
  show "inner_edges (join_batches b1 b2) (set (bedges (join_batches b1 b2))) \<inter> batch_refs b1 \<times> batch_refs b1
      = inner_edges b1 (set (bedges b1))"
    unfolding es inner using own own' by auto
  show "inner_edges (join_batches b1 b2) (set (bedges (join_batches b1 b2))) \<inter> batch_refs b2 \<times> batch_refs b2
      = inner_edges b2 (set (bedges b2))"
    unfolding es inner using own own' by auto
qed

lemma join_order:
  assumes s: "successive b1 b2"
    and g: "graph_of (join_batches b1 b2) (set (bedges (join_batches b1 b2))) g"
      "graph_of b1 (set (bedges b1)) g1" "graph_of b2 (set (bedges b2)) g2"
    and mono: "\<And>p c. (p, c) \<in> inner_edges (join_batches b1 b2) (set (bedges (join_batches b1 b2))) \<Longrightarrow>
      batch_key (join_batches b1 b2) p \<le> batch_key (join_batches b1 b2) c"
    and complete: "set (batch_order b1 g1) = batch_refs b1"
  shows "batch_order (join_batches b1 b2) g = batch_order b1 g1 @ batch_order b2 g2"
proof -
  let ?b = "join_batches b1 b2"
  have wf: "om_wf (bnodes b1)" "om_wf (bnodes b2)" "om_wf (bnodes ?b)"
    using s join_wf by (auto simp: successive_def batch_wf_def)
  have own: "\<forall>e \<in> set (bedges b1). om_has (bnodes b1) (snd e)" "\<forall>e \<in> set (bedges b2). om_has (bnodes b2) (snd e)"
    using s unfolding successive_def batch_refs_find [symmetric] by auto
  have ends: "\<forall>e \<in> set (bedges ?b). om_has (bnodes ?b) (snd e)"
  proof -
    have "batch_wf b1" using s by (simp add: successive_def)
    from own show ?thesis unfolding join_edges [OF \<open>batch_wf b1\<close>] batch_refs_find [symmetric] successive_refs [OF s] by blast
  qed
  have key: "batch_key b1 r = batch_key ?b r" if "r \<in> batch_refs b1" for r
    using that successive_find [OF s, of r] by (force simp: batch_refs_find batch_key_def node_at_def)
  have key': "batch_key b2 r = batch_key ?b r" if "r \<in> batch_refs b2" for r
    using that successive_find [OF s, of r] by (force simp: batch_refs_find batch_key_def node_at_def)
  have "batch_key ?b x < batch_key ?b y" if "x \<in> batch_refs b1" "y \<in> batch_refs b2" for x y
  proof -
    have "batch_key b1 x \<le> bcycle b1" "bcycle b1 < batch_key b2 y"
      using s that by (auto simp: successive_def batch_refs_find batch_key_def node_at_def)
    then show ?thesis using key [OF that(1)] key' [OF that(2)] by simp
  qed
  then have split: "split_graph (batch_key ?b) (batch_refs b1) (batch_refs b2) (inner_edges ?b (set (bedges ?b)))"
    using inner_range [OF ends] mono by (auto simp: split_graph_def successive_refs [OF s])
  note parts = inner_edges_parts [OF s]
  show ?thesis
  proof (rule greedy_split [OF split])
    show "greedy (batch_key ?b) (batch_refs b1) (inner_edges ?b (set (bedges ?b)) \<inter> batch_refs b1 \<times> batch_refs b1) {}
        (batch_order b1 g1)"
      unfolding parts using batch_order_greedy [OF g(2) wf(1) own(1)] by (rule greedy_key [rotated]) (simp add: key)
    show "greedy (batch_key ?b) (batch_refs b2) (inner_edges ?b (set (bedges ?b)) \<inter> batch_refs b2 \<times> batch_refs b2) {}
        (batch_order b2 g2)"
      unfolding parts using batch_order_greedy [OF g(3) wf(2) own(2)] by (rule greedy_key [rotated]) (simp add: key')
    show "greedy (batch_key ?b) (batch_refs b1 \<union> batch_refs b2) (inner_edges ?b (set (bedges ?b))) {} (batch_order ?b g)"
      using batch_order_greedy [OF g(1) wf(3) ends] by (simp add: successive_refs [OF s])
  qed (rule complete)
qed

end
