(* ===== verification/Perfetto_Replay.thy ===== *)
theory Perfetto_Replay
  imports Perfetto_Join
begin

text \<open>
  Streaming and replay: writing batches one after the other gives the same bytes, and leaves the same
  writer, as writing one batch with all their occurrences.
\<close>

section \<open>The writer between two batches\<close>

definition writer_wf :: "writer \<Rightarrow> bool" where
  "writer_wf w \<longleftrightarrow> om_wf (known w) \<and> om_wf (stalls w) \<and> (\<forall>k. om_wf (ids (strings w k)))"

definition start_emission :: "writer \<Rightarrow> emission" where
  "start_emission w = \<lparr>stream = [], interns = new_pending (strings w), next_stalls = stalls w,
     additions = [], formatting = instructions w, group_cycle = None\<rparr>"

text \<open>The writer after a batch that ended in emission \<open>s\<close>.\<close>

definition after_batch :: "writer \<Rightarrow> cycle_batch \<Rightarrow> emission \<Rightarrow> writer" where
  "after_batch w b s = w\<lparr>instructions := formatting s, strings := commit (interns s), stalls := next_stalls s,
     known := om_merge (known w) (additions s), watermark := Some (bcycle b)\<rparr>"

lemma start_same: "writer_wf w \<Longrightarrow> same_emission w w [] (start_emission w) (start_emission w)"
  by (simp add: same_emission_def start_emission_def writer_wf_def same_sent_def same_refl interns_wf_def
      new_pending_def no_strings_def)

lemma acceptable_find:
  assumes "batch_wf b" "check_batch w b = Inr (g, order)" "om_find (bnodes b) r = Some n"
  shows "node_acceptable w b (r, n)"
  using check_batch_graph [OF assms(1,2)] om_find_in [OF assms(3)] by (auto simp: list_all_iff)

lemma acceptable_new: "node_acceptable w b (r, n) \<Longrightarrow> om_find (known w) r = None"
  by (simp add: node_acceptable_def del: not_None_eq split_paired_All)

lemma order_find:
  assumes "batch_wf b" "check_batch w b = Inr (g, order)" "r \<in> set order"
  obtains n where "om_find (bnodes b) r = Some n"
  using check_batch_refs [OF assms(1,2)] assms(3) by (auto simp: batch_refs_find)

lemma then_emit_Inr:
  "then_emit f h s = (u, Inr ()) \<longleftrightarrow> (\<exists>t. f s = (t, Inr ()) \<and> h t = (u, Inr ()))"
  by (auto simp: then_emit_def split: prod.splits sum.splits)

definition stalled_before :: "u64 \<Rightarrow> stall_run \<Rightarrow> bool" where
  "stalled_before c run \<longleftrightarrow> cycle (run_node run) < c"

lemma emit_batch_steps:
  "emit_batch L w b g order = then_emit (emit_each (emit_node L w b g) order)
     (close_step w (stalled_before (bcycle b))) (start_emission w)"
  by (simp add: emit_batch_def start_emission_def stalled_before_def [abs_def])

lemma emitted_nodes:
  assumes "writer_wf w" "batch_wf b" "check_batch w b = Inr (g, order)"
    "emit_each (emit_node L w b g) order (start_emission w) = (t, Inr ())"
  shows "same_emission w w [] t t"
proof -
  have session: "same_session w w" by (simp add: same_session_def)
  have refs: "\<exists>n. om_find (bnodes b) r = Some n \<and> True" "om_find (known w) r = None" if "r \<in> set order" for r
  proof -
    from order_find [OF assms(2,3) that] obtain n where n: "om_find (bnodes b) r = Some n" .
    then show "\<exists>n. om_find (bnodes b) r = Some n \<and> True" by simp
    show "om_find (known w) r = None"
      by (rule acceptable_new [OF acceptable_find [OF assms(2,3) n]])
  qed
  have fresh: "\<forall>r \<in> set order. recorded w (start_emission w) r = None"
    using refs(2) by (simp add: recorded_def start_emission_def)
  have "agree (\<lambda>_. True) b g b g" by (simp add: agree_def)
  note nodes = same_emit_nodes [OF session this refs(1) _ start_same [OF assms(1)] fresh, of L]
  have "distinct order" using check_batch_refs [OF assms(2,3)] by simp
  with nodes show ?thesis by (simp add: assms(4))
qed

lemma emitted_same:
  assumes "writer_wf w" "batch_wf b" "check_batch w b = Inr (g, order)"
    "emit_batch L w b g order = (s, Inr ())"
  shows "same_emission w w [] s s"
proof -
  obtain t where t: "emit_each (emit_node L w b g) order (start_emission w) = (t, Inr ())"
      "close_step w (stalled_before (bcycle b)) t = (s, Inr ())"
    using assms(4) unfolding emit_batch_steps then_emit_Inr by blast
  have "same_session w w" by (simp add: same_session_def)
  from alikeD [OF alike_close [OF this] emitted_nodes [OF assms(1-3) t(1)]] t(2) show ?thesis
    by (metis same_result_simps(2))
qed

lemma after_batch_wf:
  assumes "writer_wf w" "same_emission w w [] s s"
  shows "writer_wf (after_batch w b s)"
proof -
  have "om_wf (ids (commit (interns s) k))" for k
    using assms(2) om_merge_known [of "ids (known_strings (interns s) k)" "ids (added_strings (interns s) k)"]
    by (simp add: same_emission_def same_sent_def same_interns_def interns_wf_def commit_def)
  with assms om_merge_known [of "known w" "additions s"] show ?thesis
    by (simp add: writer_wf_def after_batch_def same_emission_def)
qed

text \<open>A new batch starts where the last one ended.\<close>

lemma after_batch_same:
  assumes w: "writer_wf w" and s: "same_emission w w [] s s"
    and disjoint: "\<And>r. om_find (known w) r = None \<or> om_find (additions s) r = None"
  shows "same_emission w (after_batch w b s) (stream s) (s\<lparr>group_cycle := None\<rparr>) (start_emission (after_batch w b s))"
proof -
  let ?v = "after_batch w b s"
  have wf: "om_wf (known w)" "om_wf (additions s)" "om_wf (next_stalls s)"
    using w s by (simp_all add: writer_wf_def same_emission_def)
  have interns: "interns_wf (interns s)" "pending (interns s) = []"
    using s by (auto simp: same_emission_def same_sent_def same_interns_def)
  note merged = om_merge_known [OF wf(1), of "additions s"] length_om_merge [OF wf(1,2) disjoint]
  have "recorded w (s\<lparr>group_cycle := None\<rparr>) r = recorded ?v (start_emission ?v) r" for r
    using merged disjoint [of r] by (auto simp: recorded_def start_emission_def after_batch_def split: option.split)
  moreover have "recorded_count w (s\<lparr>group_cycle := None\<rparr>) = recorded_count ?v (start_emission ?v)"
    using merged by (simp add: recorded_count_def start_emission_def after_batch_def)
  ultimately show ?thesis
    using wf same_committed [OF interns] interns(2)
    by (simp add: same_emission_def same_sent_def) (simp add: start_emission_def after_batch_def)
qed

section \<open>Acceptance\<close>

lemma inj_on_some:
  "inj_on f {e \<in> S. f e \<noteq> None} \<longleftrightarrow> (\<forall>e \<in> S. \<forall>e' \<in> S. f e = f e' \<and> f e \<noteq> None \<longrightarrow> e = e')"
  unfolding inj_on_def mem_Collect_eq Ball_def by metis

lemma slots_apart_iff:
  assumes "distinct ns"
  shows "slots_apart w ns \<longleftrightarrow> (\<forall>e \<in> set ns. \<forall>e' \<in> set ns. slot w e = slot w e' \<and> slot w e \<noteq> None \<longrightarrow> e = e')"
proof -
  have "slots_apart w ns \<longleftrightarrow> inj_on (slot w) {e \<in> set ns. slot w e \<noteq> None}"
    using assms by (simp add: slots_apart_def filter_map comp_def distinct_map)
  then show ?thesis by (simp only: inj_on_some)
qed

lemma batch_wf_distinct: "batch_wf b \<Longrightarrow> distinct (bnodes b)"
  by (metis batch_wf_def distinct_map om_wf_def strict_sorted_iff)

lemma slot_cycle: "slot w (r, n) = Some x \<Longrightarrow> snd x = cycle n"
  by (auto simp: slot_def split: if_splits)

lemma session_acceptance:
  "slot (after_batch w b s) = slot w" "desc (after_batch w b s) = desc w"
  "nanoseconds (after_batch w b s) = nanoseconds w"
  by (simp_all add: fun_eq_iff slot_def track_at_def after_batch_def nanoseconds_def)

text \<open>The occurrences of the first batch are what the second finds in addition to the known ones.\<close>

lemma after_batch_known:
  assumes "writer_wf w" "batch_wf b" "check_batch w b = Inr (g, order)" "emit_batch L w b g order = (s, Inr ())"
  shows "map_option snd (om_find (known (after_batch w b s)) r) =
    (case om_find (bnodes b) r of None \<Rightarrow> map_option snd (om_find (known w) r) | Some n \<Rightarrow> Some (cycle n))"
    and "om_find (known w) r = None \<or> om_find (additions s) r = None"
proof -
  have wf: "om_wf (known w)" using assms(1) by (simp add: writer_wf_def)
  have adds: "map_option snd (om_find (additions s) r) = map_option cycle (om_find (bnodes b) r)"
  proof (cases "om_find (bnodes b) r")
    case None
    then have "r \<notin> set order" using check_batch_refs [OF assms(2,3)] by (simp add: batch_refs_find)
    with None emit_batch_adds [OF assms(4)] show ?thesis by simp
  next
    case (Some n)
    then have "r \<in> set order" using check_batch_refs [OF assms(2,3)] by (simp add: batch_refs_find)
    with Some emit_batch_adds [OF assms(4)] show ?thesis by (simp add: node_at_def)
  qed
  show disjoint: "om_find (known w) r = None \<or> om_find (additions s) r = None"
  proof (cases "om_find (bnodes b) r")
    case None
    with adds show ?thesis by simp
  next
    case (Some n)
    from acceptable_new [OF acceptable_find [OF assms(2,3) this]] show ?thesis ..
  qed
  show "map_option snd (om_find (known (after_batch w b s)) r) =
    (case om_find (bnodes b) r of None \<Rightarrow> map_option snd (om_find (known w) r) | Some n \<Rightarrow> Some (cycle n))"
    using om_merge_known [OF wf, of "additions s"] adds disjoint
    by (auto simp: after_batch_def split: option.split)
qed

lemma later_after: "later (watermark w) (bcycle b) \<Longrightarrow> later (watermark (after_batch w b s)) c \<Longrightarrow>
    later (watermark w) c \<and> bcycle b < c"
  by (auto simp: later_def after_batch_def split: option.splits)

lemma written_successive:
  assumes "writer_wf w" "batch_wf b1" "batch_wf b2"
    and "check_batch w b1 = Inr (g1, o1)" "emit_batch L w b1 g1 o1 = (s1, Inr ())"
    and "check_batch (after_batch w b1 s1) b2 = Inr (g2, o2)"
  shows "successive b1 b2"
proof -
  have later: "later (watermark w) (bcycle b1)" using assms(4) by (simp add: check_batch_steps)
  have own: "snd ` set (bedges b1) \<subseteq> batch_refs b1" "snd ` set (bedges b2) \<subseteq> batch_refs b2"
    using check_batch_graph [OF assms(2,4)] check_batch_graph [OF assms(3,6)] edge_child
    by (fastforce simp: list_all_iff batch_refs_find)+
  have "r \<notin> batch_refs b2" if "r \<in> batch_refs b1" for r
  proof
    assume "r \<in> batch_refs b2"
    then obtain n where "om_find (bnodes b2) r = Some n" by (auto simp: batch_refs_find)
    from acceptable_new [OF acceptable_find [OF assms(3,6) this]] have "om_find (known (after_batch w b1 s1)) r = None" .
    with after_batch_known(1) [OF assms(1,2,4,5), of r] that show False
      by (auto simp: batch_refs_find)
  qed
  moreover have "cycle n \<le> bcycle b1" if "om_find (bnodes b1) r = Some n" for r n
    using acceptable_find [OF assms(2,4) that] by (simp add: node_acceptable_def)
  moreover have "bcycle b1 < cycle n" if "om_find (bnodes b2) r = Some n" for r n
    using acceptable_find [OF assms(3,6) that] later_after [OF later] by (auto simp: node_acceptable_def)
  ultimately show ?thesis using assms(2,3) own by (auto simp: successive_def)
qed

lemma join_acceptable:
  assumes "writer_wf w" "batch_wf b1" "batch_wf b2"
    and c1: "check_batch w b1 = Inr (g1, o1)" and e1: "emit_batch L w b1 g1 o1 = (s1, Inr ())"
    and c2: "check_batch (after_batch w b1 s1) b2 = Inr (g2, o2)"
  shows "list_all (node_acceptable w (join_batches b1 b2)) (bnodes (join_batches b1 b2))"
    and "slots_apart w (bnodes (join_batches b1 b2))"
    and "list_all (edge_acceptable w (join_batches b1 b2)) (bedges (join_batches b1 b2))"
proof -
  let ?b = "join_batches b1 b2" and ?v = "after_batch w b1 s1"
  note s = written_successive [OF assms]
  note find = successive_find [OF s]
  have later: "later (watermark w) (bcycle b1)" "later (watermark ?v) (bcycle b2)"
    using c1 c2 by (simp_all add: check_batch_steps)
  have up: "bcycle b1 < bcycle b2" "bcycle ?b = bcycle b2"
    using later_after [OF later] by (simp_all add: join_batches_def)
  have known: "om_find (known w) r = None" if "om_find (known ?v) r = None" for r
    using after_batch_known [OF assms(1,2) c1 e1, of r] that by (auto split: option.splits)
  have "node_acceptable w ?b (r, n)" if "om_find (bnodes b1) r = Some n" for r n
    using acceptable_find [OF assms(2) c1 that] up by (auto simp: node_acceptable_def)
  moreover have "node_acceptable w ?b (r, n)" if "om_find (bnodes b2) r = Some n" for r n
  proof -
    have a: "node_acceptable ?v b2 (r, n)" by (rule acceptable_find [OF assms(3) c2 that])
    then have "om_find (known ?v) r = None" by (rule acceptable_new)
    with a known later_after [OF later(1)] up show ?thesis
      by (auto simp: node_acceptable_def session_acceptance)
  qed
  ultimately have acc: "node_acceptable w ?b (r, n)" if "om_find (bnodes ?b) r = Some n" for r n
    using that find by blast
  have wf: "batch_wf ?b" by (rule join_wf [OF assms(2,3)])
  then show "list_all (node_acceptable w ?b) (bnodes ?b)"
    using acc om_find_iff [of "bnodes ?b"] by (auto simp: list_all_iff batch_wf_def)
  have apart: "slots_apart w (bnodes b1)" "slots_apart w (bnodes b2)"
    using check_batch_iff [OF assms(2), of w] c1 check_batch_iff [OF assms(3), of ?v] c2
    by (auto simp: batch_ok_def slots_apart_def session_acceptance)
  have other: "slot w e \<noteq> slot w e' \<or> slot w e = None" if e: "e \<in> set (bnodes b1)" "e' \<in> set (bnodes b2)" for e e'
  proof -
    obtain r n r' n' where rn: "e = (r, n)" "e' = (r', n')" by (cases e, cases e')
    have "om_wf (bnodes b1)" "om_wf (bnodes b2)" using assms(2,3) by (simp_all add: batch_wf_def)
    then have "cycle n \<le> bcycle b1" "bcycle b1 < cycle n'"
      using s e rn by (auto simp: successive_def om_find_iff)
    then show ?thesis using slot_cycle [of w r n] slot_cycle [of w r' n'] rn
      by (metis not_le option.exhaust)
  qed
  show "slots_apart w (bnodes ?b)"
    using apart other unfolding slots_apart_iff [OF batch_wf_distinct [OF wf]] successive_set [OF s]
      slots_apart_iff [OF batch_wf_distinct [OF assms(2)]] slots_apart_iff [OF batch_wf_distinct [OF assms(3)]]
    by (metis Un_iff)
  have "edge_acceptable w ?b (p, c)" if e: "(p, c) \<in> set (bedges b1)" for p c
  proof -
    obtain n where n: "om_find (bnodes b1) c = Some n" "(site p, site c) \<in> set (dependencies (dmanifest (desc w)))"
      "case om_find (bnodes b1) p of Some pn \<Rightarrow> cycle pn \<le> cycle n
        | None \<Rightarrow> \<exists>i k. om_find (known w) p = Some (i, k) \<and> k \<le> cycle n"
      using check_batch_graph [OF assms(2) c1] e by (auto simp: list_all_iff edge_acceptable_def)
    show ?thesis
    proof (cases "om_find (bnodes b1) p")
      case None
      with n(3) have "om_find (known w) p \<noteq> None" by auto
      with acc have "om_find (bnodes ?b) p = None" by (cases "om_find (bnodes ?b) p") (auto simp: node_acceptable_def)
      with n None find show ?thesis by (auto simp: edge_acceptable_def)
    next
      case (Some pn)
      with n find [of p pn] find [of c n] show ?thesis by (auto simp: edge_acceptable_def)
    qed
  qed
  moreover have "edge_acceptable w ?b (p, c)" if e: "(p, c) \<in> set (bedges b2)" for p c
  proof -
    obtain n where n: "om_find (bnodes b2) c = Some n" "(site p, site c) \<in> set (dependencies (dmanifest (desc w)))"
      "case om_find (bnodes b2) p of Some pn \<Rightarrow> cycle pn \<le> cycle n
        | None \<Rightarrow> \<exists>i k. om_find (known ?v) p = Some (i, k) \<and> k \<le> cycle n"
      using check_batch_graph [OF assms(3) c2] e by (auto simp: list_all_iff edge_acceptable_def session_acceptance)
    show ?thesis
    proof (cases "om_find (bnodes b2) p")
      case None
      with n(3) obtain i k where k: "om_find (known ?v) p = Some (i, k)" "k \<le> cycle n" by auto
      show ?thesis
      proof (cases "om_find (bnodes b1) p")
        case (Some pn)
        then have "cycle pn = k" using after_batch_known(1) [OF assms(1,2) c1 e1, of p] k(1) by simp
        with Some n k find [of p pn] find [of c n] show ?thesis by (auto simp: edge_acceptable_def)
      next
        case nb1: None
        then have "map_option snd (om_find (known w) p) = Some k"
          using after_batch_known(1) [OF assms(1,2) c1 e1, of p] k(1) by simp
        moreover have "om_find (bnodes ?b) p = None" using find [of p] nb1 None by (metis not_None_eq)
        ultimately show ?thesis using n k(2) find [of c n] by (auto simp: edge_acceptable_def)
      qed
    next
      case (Some pn)
      with n find [of p pn] find [of c n] show ?thesis by (auto simp: edge_acceptable_def)
    qed
  qed
  ultimately show "list_all (edge_acceptable w ?b) (bedges ?b)"
    by (auto simp: list_all_iff join_edges [OF assms(2)])
qed

lemma join_accepted:
  assumes "writer_wf w" "batch_wf b1" "batch_wf b2"
    and c1: "check_batch w b1 = Inr (g1, o1)" and e1: "emit_batch L w b1 g1 o1 = (s1, Inr ())"
    and c2: "check_batch (after_batch w b1 s1) b2 = Inr (g2, o2)"
  shows "\<exists>g. check_batch w (join_batches b1 b2) = Inr (g, o1 @ o2)
    \<and> graph_of (join_batches b1 b2) (set (bedges (join_batches b1 b2))) g"
proof -
  let ?b = "join_batches b1 b2" and ?v = "after_batch w b1 s1"
  note s = written_successive [OF assms] and acc = join_acceptable [OF assms]
  have wf: "batch_wf ?b" by (rule join_wf [OF assms(2,3)])
  have "distinct (bedges ?b)" using wf by (simp add: batch_wf_def strict_sorted_iff)
  then obtain g where g: "emit_all (check_batch_edge w ?b) (bedges ?b) (no_graph (bnodes ?b)) = Inr g"
      "graph_of ?b (set (bedges ?b)) g"
    using check_edges_ok [OF no_graph_ok, where xs = "bedges ?b" and b = ?b and w = w] acc(3) by auto
  note ok1 = check_batch_graph [OF assms(2) c1] and ok2 = check_batch_graph [OF assms(3) c2]
  have mono: "batch_key ?b p \<le> batch_key ?b c" if "(p, c) \<in> inner_edges ?b (set (bedges ?b))" for p c
    using acc(3) that by (auto simp: inner_edges_def list_all_iff edge_acceptable_def batch_key_def node_at_def)
  have "set (batch_order b1 g1) = batch_refs b1" using ok1 check_batch_refs [OF assms(2) c1] by simp
  with mono g(2) ok1 ok2 have order: "batch_order ?b g = o1 @ o2"
    by (simp add: join_order [OF s, where g = g and ?g1.0 = g1 and ?g2.0 = g2])
  have "length (o1 @ o2) = card (batch_refs b1) + card (batch_refs b2)"
    using ok1 ok2 card_batch_refs [of b1] card_batch_refs [of b2] assms(2,3) by (auto simp: batch_wf_def)
  also have "\<dots> = card (batch_refs ?b)"
    unfolding successive_refs [OF s] using s
    by (intro card_Un_disjoint [symmetric]) (simp_all add: successive_def batch_refs_def)
  also have "\<dots> = length (bnodes ?b)" using card_batch_refs [of ?b] wf by (simp add: batch_wf_def)
  finally have "length (o1 @ o2) = length (bnodes ?b)" .
  moreover have "\<not> write_failed w \<and> \<not> finished w \<and> later (watermark w) (bcycle ?b)"
    using c1 c2 later_after [of w b1 s1 "bcycle b2"] by (auto simp: check_batch_steps join_batches_def)
  moreover have "\<exists>occ. emit_all (check_batch_node w (bcycle ?b)) (bnodes ?b) [] = Inr occ"
    using check_nodes_ok [where w = w and b = ?b and ns = "bnodes ?b" and occ = "[]"] acc(1,2) by simp
  ultimately show ?thesis using g order by (auto simp: check_batch_steps)
qed

section \<open>Closing stalls in two steps\<close>

text \<open>The stalls that end before a cycle are the first to be closed at any later point.\<close>

definition ending_of :: "u32 \<times> stall_run \<Rightarrow> u64 \<times> u32" where
  "ending_of e = (cycle (run_node (snd e)), fst e)"

lemma endings_spec:
  "os_wf (endings P runs) \<and> set (endings P runs) = ending_of ` {e \<in> set runs. P (snd e)}"
proof -
  have "os_wf es \<Longrightarrow> os_wf (fold (\<lambda>(track, run) es. if P run then os_insert (cycle (run_node run), track) es else es) runs es)
    \<and> set (fold (\<lambda>(track, run) es. if P run then os_insert (cycle (run_node run), track) es else es) runs es)
      = set es \<union> ending_of ` {e \<in> set runs. P (snd e)}" for es
  proof (induction runs arbitrary: es)
    case (Cons e runs)
    obtain track run where e: "e = (track, run)" by (cases e)
    have "{x \<in> set (e # runs). P (snd x)} = (if P run then insert e else id) {x \<in> set runs. P (snd x)}"
      by (auto simp: e)
    with Cons.IH [of "if P run then os_insert (cycle (run_node run), track) es else es"] Cons.prems
    show ?case by (auto simp: e ending_of_def)
  qed simp
  from this [of "[]"] show ?thesis by (simp add: endings_def)
qed

lemma endings_split:
  assumes "\<And>run. stalled_before c run \<Longrightarrow> P run"
  shows "endings P runs = endings (stalled_before c) runs @ endings P (filter (\<lambda>e. \<not> stalled_before c (snd e)) runs)"
proof (rule os_ext)
  let ?l = "endings (stalled_before c) runs" and ?r = "endings P (filter (\<lambda>e. \<not> stalled_before c (snd e)) runs)"
  have "x < y" if "x \<in> set ?l" "y \<in> set ?r" for x y
  proof -
    have "fst x < c" using that(1) endings_spec [of "stalled_before c" runs]
      by (auto simp: ending_of_def stalled_before_def)
    moreover have "c \<le> fst y"
      using that(2) endings_spec [of P "filter (\<lambda>e. \<not> stalled_before c (snd e)) runs"]
      by (auto simp: ending_of_def stalled_before_def)
    ultimately have "fst x < fst y" by (rule less_le_trans)
    then show ?thesis by (simp add: less_prod_def')
  qed
  then show "os_wf (?l @ ?r)" using endings_spec by (auto simp: sorted_wrt_append)
  have "{e \<in> set runs. P (snd e)} = {e \<in> set runs. stalled_before c (snd e)}
      \<union> {e \<in> set (filter (\<lambda>e. \<not> stalled_before c (snd e)) runs). P (snd e)}"
    using assms by auto
  then show "set (endings P runs) = set (?l @ ?r)" by (simp only: endings_spec set_append image_Un)
qed (use endings_spec in blast)

lemma emit_all_append: "emit_all f (xs @ ys) s = bind_result (emit_all f xs s) (emit_all f ys)"
  by (induction xs arbitrary: s) (auto simp: bind_result_def split: sum.split)

text \<open>What remains after closing.\<close>

lemma close_remains:
  assumes "om_wf runs" "close_stalls w P (bs, ps, runs) = Inr (bs', ps', runs')"
  shows "runs' = filter (\<lambda>e. \<not> P (snd e)) runs"
proof -
  have "fst e \<notin> snd ` set (endings P runs) \<longleftrightarrow> \<not> P (snd e)" if e: "e \<in> set runs" for e
  proof -
    have "e' = e" if "e' \<in> set runs" "fst e' = fst e" for e'
      using e that om_find_iff [OF assms(1), of "fst e"] by (metis option.inject prod.collapse)
    moreover have "snd ` set (endings P runs) = fst ` {e \<in> set runs. P (snd e)}"
      by (simp add: endings_spec image_comp comp_def ending_of_def)
    ultimately show ?thesis using e by force
  qed
  then show ?thesis
    unfolding close_stalls_runs [OF assms(2)] case_prod_unfold by (intro filter_cong) simp_all
qed

lemma close_stalls_twice:
  assumes "om_wf runs" "\<And>run. stalled_before c run \<Longrightarrow> P run"
  shows "close_stalls w P (bs, ps, runs) = bind_result (close_stalls w (stalled_before c) (bs, ps, runs)) (close_stalls w P)"
proof -
  have split: "endings P runs = endings (stalled_before c) runs @ endings P (filter (\<lambda>e. \<not> stalled_before c (snd e)) runs)"
    by (rule endings_split) (rule assms(2))
  show ?thesis
  proof (cases "close_stalls w (stalled_before c) (bs, ps, runs)")
    case (Inl e)
    then show ?thesis by (simp add: close_stalls_def split emit_all_append)
  next
    case (Inr st)
    obtain bs' ps' runs' where st: "st = (bs', ps', runs')" by (cases st)
    note runs = close_remains [OF assms(1) Inr [unfolded st]]
    from Inr show ?thesis by (simp add: close_stalls_def split emit_all_append st runs)
  qed
qed

lemma close_step_slices:
  "close_step w P s = (u, Inr ()) \<longleftrightarrow> (\<exists>bs ps runs. close_stalls w P (stream s, interns s, next_stalls s) = Inr (bs, ps, runs)
     \<and> u = s\<lparr>stream := bs, interns := ps, next_stalls := runs\<rparr>)"
  by (auto simp: close_step_def split: sum.splits)

lemma close_twice:
  assumes "om_wf (next_stalls t)" "\<And>run. stalled_before c run \<Longrightarrow> P run"
  shows "close_step w P t = (u, Inr ()) \<longleftrightarrow>
    (\<exists>s. close_step w (stalled_before c) t = (s, Inr ()) \<and> close_step w P s = (u, Inr ()))"
  unfolding close_step_slices close_stalls_twice [OF assms(1), of c P, OF assms(2), simplified]
  by (cases "close_stalls w (stalled_before c) (stream t, interns t, next_stalls t)") auto

lemma close_group:
  "close_step w P (s\<lparr>group_cycle := x\<rparr>) = (u, Inr ()) \<longleftrightarrow>
    (\<exists>u'. close_step w P s = (u', Inr ()) \<and> u = u'\<lparr>group_cycle := x\<rparr>)"
  by (auto simp: close_step_def split: sum.splits)

section \<open>Resuming\<close>

lemma emit_each_append: "emit_each f (xs @ ys) s = then_emit (emit_each f xs) (emit_each f ys) s"
  by (induction xs arbitrary: s) (auto simp: then_emit_def split: prod.split sum.split)

lemma emit_each_cong: "(\<And>x. x \<in> set xs \<Longrightarrow> f x = h x) \<Longrightarrow> emit_each f xs s = emit_each h xs s"
  by (induction xs arbitrary: s) (auto simp: then_emit_def split: prod.split sum.split)

lemma before_ends: "stalled_before c run \<Longrightarrow> c < d \<Longrightarrow> stall_ends b g d run"
proof -
  assume "stalled_before c run" "c < d"
  then have "unat (cycle (run_node run)) + 1 < unat d"
    by (simp add: stalled_before_def word_less_nat_alt)
  moreover have "unat (ucast (cycle (run_node run)) + 1 :: u128) = unat (cycle (run_node run)) + 1"
    by (rule unat_next_cycle)
  ultimately have "(ucast (cycle (run_node run)) + 1 :: u128) \<noteq> ucast d"
    by (metis less_irrefl unat_ucast_64_128)
  then show ?thesis by (auto simp: stall_ends_def split: option.split)
qed

text \<open>In the middle of a batch it makes no difference whether the stalls that have ended are closed
  at once or when the next cycle begins.\<close>

lemma resume:
  assumes t: "om_wf (next_stalls t)" "close_step w (stalled_before c) t = (s, Inr ())"
    and later: "\<And>r. r \<in> set rs \<Longrightarrow> c < cycle (node_at (bnodes b) r)" "c \<le> d"
    and group: "\<And>k. group_cycle t = Some k \<Longrightarrow> k \<le> c"
    and run: "then_emit (emit_each (emit_node L w b g) rs) (close_step w (stalled_before d))
      (s\<lparr>group_cycle := None\<rparr>) = (u, Inr ())"
  shows "\<exists>u'. then_emit (emit_each (emit_node L w b g) rs) (close_step w (stalled_before d)) t = (u', Inr ())
    \<and> u = u'\<lparr>group_cycle := group_cycle u\<rparr>"
proof (cases rs)
  case Nil
  have "\<And>run. stalled_before c run \<Longrightarrow> stalled_before d run"
    using later(2) by (auto simp: stalled_before_def)
  moreover obtain u' where u': "close_step w (stalled_before d) s = (u', Inr ())" "u = u'\<lparr>group_cycle := None\<rparr>"
    using run by (auto simp: Nil then_emit_Inr close_group)
  ultimately have "close_step w (stalled_before d) t = (u', Inr ())" using close_twice [OF t(1)] t(2) by blast
  with u'(2) show ?thesis by (auto simp: Nil then_emit_Inr)
next
  case (Cons r rs')
  let ?n = "node_at (bnodes b) r"
  obtain k where k: "emit_node L w b g r s = then_emit (enter_cycle w b g (cycle ?n)) k s" for s
    unfolding emit_node_def Let_def by blast
  have c: "c < cycle ?n" using later(1) Cons by simp
  obtain s1 where s1: "enter_cycle w b g (cycle ?n) (s\<lparr>group_cycle := None\<rparr>) = (s1, Inr ())"
    using run by (auto simp: Cons then_emit_Inr k)
  then have "close_step w (stall_ends b g (cycle ?n)) (s\<lparr>group_cycle := Some (cycle ?n)\<rparr>) = (s1, Inr ())"
    by (simp add: enter_cycle_def)
  then obtain u1 where u1: "close_step w (stall_ends b g (cycle ?n)) s = (u1, Inr ())"
      "s1 = u1\<lparr>group_cycle := Some (cycle ?n)\<rparr>"
    by (auto simp: close_group)
  have "close_step w (stall_ends b g (cycle ?n)) t = (u1, Inr ())"
    using close_twice [OF t(1), of c "stall_ends b g (cycle ?n)"] before_ends [OF _ c] t(2) u1(1) by blast
  then have "enter_cycle w b g (cycle ?n) t = (s1, Inr ())"
    using group c u1(2) by (auto simp: enter_cycle_def close_group)
  then have "then_emit (emit_each (emit_node L w b g) rs) (close_step w (stalled_before d)) t = (u, Inr ())"
    using run s1 by (auto simp: Cons then_emit_Inr k)
  then show ?thesis by auto
qed

section \<open>Two batches\<close>

lemma after_batch_session: "same_session w (after_batch w b s)"
  by (simp add: same_session_def after_batch_def)

lemma join_emitted:
  assumes "writer_wf w" "batch_wf b1" "batch_wf b2"
    and c1: "check_batch w b1 = Inr (g1, o1)" and e1: "emit_batch L w b1 g1 o1 = (s1, Inr ())"
    and c2: "check_batch (after_batch w b1 s1) b2 = Inr (g2, o2)"
    and e2: "emit_batch L (after_batch w b1 s1) b2 g2 o2 = (s2, Inr ())"
    and g: "graph_of (join_batches b1 b2) (set (bedges (join_batches b1 b2))) g"
  shows "\<exists>s. emit_batch L w (join_batches b1 b2) g (o1 @ o2) = (s, Inr ())
    \<and> same_emission w (after_batch w b1 s1) (stream s1) (s\<lparr>group_cycle := group_cycle s2\<rparr>) s2"
proof -
  let ?b = "join_batches b1 b2" and ?v = "after_batch w b1 s1"
  let ?close = "close_step w (stalled_before (bcycle ?b))"
  note s = written_successive [OF assms(1-6)]
  have "graph_of b1 (set (bedges b1)) g1" "graph_of b2 (set (bedges b2)) g2"
    using check_batch_graph [OF assms(2) c1] check_batch_graph [OF assms(3) c2] by auto
  note agree = successive_agree [OF s g this]
  have find1: "\<exists>n. om_find (bnodes ?b) r = Some n \<and> cycle n \<le> bcycle b1" if "r \<in> set o1" for r
  proof -
    from order_find [OF assms(2) c1 that] obtain n where n: "om_find (bnodes b1) r = Some n" .
    with s successive_find [OF s, of r n] show ?thesis by (auto simp: successive_def)
  qed
  have find2: "\<exists>n. om_find (bnodes ?b) r = Some n \<and> bcycle b1 < cycle n" if "r \<in> set o2" for r
  proof -
    from order_find [OF assms(3) c2 that] obtain n where n: "om_find (bnodes b2) r = Some n" .
    with s successive_find [OF s, of r n] show ?thesis by (auto simp: successive_def)
  qed
  obtain t where t: "emit_each (emit_node L w b1 g1) o1 (start_emission w) = (t, Inr ())"
      "close_step w (stalled_before (bcycle b1)) t = (s1, Inr ())"
    using e1 unfolding emit_batch_steps then_emit_Inr by blast
  have node: "emit_node L w ?b g r = emit_node L w b1 g1 r" if "r \<in> set o1" for r
    using find1 [OF that] emit_node_agree [OF agree(1)] by blast
  have "emit_each (emit_node L w ?b g) o1 (start_emission w) = emit_each (emit_node L w b1 g1) o1 (start_emission w)"
    by (rule emit_each_cong) (rule node)
  with t(1) have first: "emit_each (emit_node L w ?b g) o1 (start_emission w) = (t, Inr ())" by simp
  have self: "same_emission w w [] s1 s1" by (rule emitted_same [OF assms(1,2) c1 e1])
  note start = after_batch_same [OF assms(1) self after_batch_known(2) [OF assms(1,2) c1 e1], where b = b1]
  have fresh: "\<forall>r \<in> set o2. recorded w (s1\<lparr>group_cycle := None\<rparr>) r = None"
  proof
    fix r assume "r \<in> set o2"
    from order_find [OF assms(3) c2 this] obtain n where "om_find (bnodes b2) r = Some n" .
    from acceptable_new [OF acceptable_find [OF assms(3) c2 this]]
    have "recorded ?v (start_emission ?v) r = None" by (simp add: recorded_def start_emission_def)
    with start show "recorded w (s1\<lparr>group_cycle := None\<rparr>) r = None" by (simp add: same_emission_def)
  qed
  have "distinct o2" using check_batch_refs [OF assms(3) c2] by simp
  note nodes = same_emit_nodes [OF after_batch_session agree(2) find2 this start fresh, of L]
  have bc: "bcycle ?b = bcycle b2" by (simp add: join_batches_def)
  have close: "same_result w ?v (stream s1) (?close s') (close_step ?v (stalled_before (bcycle b2)) t')"
    if "same_emission w ?v (stream s1) s' t'" for s' t'
    unfolding bc by (rule alikeD [OF alike_close [OF after_batch_session] that])
  have "same_result w ?v (stream s1)
      (then_emit (emit_each (emit_node L w ?b g) o2) ?close (s1\<lparr>group_cycle := None\<rparr>)) (emit_batch L ?v b2 g2 o2)"
    unfolding emit_batch_steps [of L ?v]
  proof (rule same_result_then)
    show "same_result w ?v (stream s1) (emit_each (emit_node L w ?b g) o2 (s1\<lparr>group_cycle := None\<rparr>))
        (emit_each (emit_node L ?v b2 g2) o2 (start_emission ?v))" by (rule nodes)
  qed (rule close)
  then obtain u where u: "then_emit (emit_each (emit_node L w ?b g) o2) ?close (s1\<lparr>group_cycle := None\<rparr>) = (u, Inr ())"
      "same_emission w ?v (stream s1) u s2"
    by (cases "then_emit (emit_each (emit_node L w ?b g) o2) ?close (s1\<lparr>group_cycle := None\<rparr>)")
      (simp add: e2 same_result_def)
  have stalls: "om_wf (next_stalls t)"
    using emitted_nodes [OF assms(1,2) c1 t(1)] by (simp add: same_emission_def)
  have group: "k \<le> bcycle b1" if "group_cycle t = Some k" for k
  proof (cases "o1 = []")
    case True
    with t(1) have "t = start_emission w" by simp
    with that show ?thesis by (simp add: start_emission_def)
  next
    case False
    from emit_each_group [OF t(1) this] that obtain r where "r \<in> set o1" "k = cycle (node_at (bnodes b1) r)" by auto
    with s order_find [OF assms(2) c1] show ?thesis by (metis node_at_def option.case(2) successive_def)
  qed
  have later: "bcycle b1 < cycle (node_at (bnodes ?b) r)" if "r \<in> set o2" for r
    using find2 [OF that] by (auto simp: node_at_def)
  have "later (watermark w) (bcycle b1)" "later (watermark ?v) (bcycle b2)"
    using c1 c2 by (simp_all add: check_batch_steps)
  then have "bcycle b1 \<le> bcycle ?b" using later_after [of w b1 s1 "bcycle b2"] by (auto simp: join_batches_def)
  from resume [OF stalls t(2) later this group u(1)] obtain u' where u':
    "then_emit (emit_each (emit_node L w ?b g) o2) ?close t = (u', Inr ())" "u = u'\<lparr>group_cycle := group_cycle u\<rparr>"
    by blast
  have "group_cycle u = group_cycle s2" using u(2) by (simp add: same_emission_def)
  moreover have "emit_batch L w ?b g (o1 @ o2) = (u', Inr ())"
    using u'(1) first unfolding emit_batch_steps emit_each_append then_emit_Inr by blast
  ultimately show ?thesis using u'(2) u(2) by auto
qed

section \<open>Writing\<close>

lemma plain_written:
  assumes "\<not> gzip w"
  shows "write_batch L memory_sink w b out = (w', out', Inr ()) \<longleftrightarrow>
    (\<exists>g order s. check_batch w b = Inr (g, order) \<and> emit_batch L w b g order = (s, Inr ())
       \<and> int (length (stream s)) \<le> streamsize_max \<and> w' = after_batch w b s \<and> out' = out @ stream s)"
proof -
  have "flush memory_sink (w\<lparr>instructions := fmt\<rparr>) data out =
      (if write_failed w then (w\<lparr>instructions := fmt\<rparr>, out, Inl Output_failed_before)
       else if int (length data) > streamsize_max then (w\<lparr>instructions := fmt\<rparr>, out, Inl Batch_too_large)
       else (w\<lparr>instructions := fmt\<rparr>, out @ data, Inr ()))" for fmt data
    using assms by (simp add: flush_def sink_result_def memory_sink_def Let_def)
  moreover have "check_batch w b = Inr x \<Longrightarrow> \<not> write_failed w" for x
    by (auto simp: check_batch_def split: if_splits)
  ultimately show ?thesis
    by (auto simp: write_batch_def after_batch_def split: sum.splits prod.splits if_splits)
qed

lemma join_written:
  assumes "\<not> gzip w" "writer_wf w" "batch_wf b1" "batch_wf b2"
    and "write_batch L memory_sink w b1 out = (w1, out1, Inr ())"
    and "write_batch L memory_sink w1 b2 out1 = (w2, out2, Inr ())"
    and size: "int (length out2) \<le> streamsize_max"
  shows "write_batch L memory_sink w (join_batches b1 b2) out = (w2, out2, Inr ())"
proof -
  let ?b = "join_batches b1 b2"
  obtain g1 o1 s1 where c1: "check_batch w b1 = Inr (g1, o1)" "emit_batch L w b1 g1 o1 = (s1, Inr ())"
      "w1 = after_batch w b1 s1" "out1 = out @ stream s1"
    using assms(5) unfolding plain_written [OF assms(1)] by blast
  have "\<not> gzip w1" using assms(1) by (simp add: c1(3) after_batch_def)
  from assms(6) [unfolded plain_written [OF this]] obtain g2 o2 s2 where
    c2: "check_batch w1 b2 = Inr (g2, o2)" "emit_batch L w1 b2 g2 o2 = (s2, Inr ())"
      "w2 = after_batch w1 b2 s2" "out2 = out1 @ stream s2" by blast
  note both = assms(2-4) c1(1,2) c2(1) [unfolded c1(3)]
  obtain g where g: "check_batch w ?b = Inr (g, o1 @ o2)" "graph_of ?b (set (bedges ?b)) g"
    using join_accepted [OF both] by blast
  obtain s where s: "emit_batch L w ?b g (o1 @ o2) = (s, Inr ())"
      "same_emission w w1 (stream s1) (s\<lparr>group_cycle := group_cycle s2\<rparr>) s2"
    using join_emitted [OF both c2(2) [unfolded c1(3)] g(2)] c1(3) by blast
  have same: "stream s = stream s1 @ stream s2" "formatting s = formatting s2" "next_stalls s = next_stalls s2"
      "same_interns (interns s) (interns s2)" "om_wf (additions s)" "om_wf (additions s2)"
      "recorded w s r = recorded w1 s2 r" for r
    using s(2) by (auto simp: same_emission_def same_sent_def recorded_def)
  have wf1: "writer_wf w1"
    unfolding c1(3) by (rule after_batch_wf [OF assms(2) emitted_same [OF assms(2,3) c1(1,2)]])
  have "om_merge (known w) (additions s) = om_merge (known w1) (additions s2)"
  proof (rule om_ext)
    have k: "om_wf (known w)" "om_wf (known w1)" using assms(2) wf1 by (simp_all add: writer_wf_def)
    note merged = om_merge_known [OF k(1), of "additions s"] om_merge_known [OF k(2), of "additions s2"]
    show "om_wf (om_merge (known w) (additions s))" "om_wf (om_merge (known w1) (additions s2))"
      using merged by blast+
    fix r
    have "om_find (known w) r = None \<or> om_find (additions s) r = None"
      by (rule after_batch_known(2) [OF assms(2) join_wf [OF assms(3,4)] g(1) s(1)])
    moreover have "om_find (known w1) r = None \<or> om_find (additions s2) r = None"
      by (rule after_batch_known(2) [OF wf1 assms(4) c2(1,2)])
    ultimately show "om_find (om_merge (known w) (additions s)) r = om_find (om_merge (known w1) (additions s2)) r"
      using merged same(7) [of r] by (auto simp: recorded_def split: option.splits)
  qed
  then have "after_batch w ?b s = w2"
    using same(2,3) same_commit [OF same(4)]
    unfolding c2(3) by (simp add: c1(3) after_batch_def join_batches_def)
  moreover have "int (length (stream s)) \<le> streamsize_max"
    using size by (simp add: c1(4) c2(4) same(1))
  ultimately show ?thesis
    unfolding plain_written [OF assms(1)] using g(1) s(1) by (auto simp: c1(4) c2(4) same(1))
qed

end
