(* ===== verification/Rheg_Replay.thy ===== *)
theory Rheg_Replay
  imports Rheg_Bridge Perfetto_Replay Rheg_Stream
begin

text \<open>
  Live traces and replay: the bytes a simulation streams while it runs are the bytes that exporting
  the snapshot of its collector writes afterwards.
\<close>

section \<open>A list of batches as one\<close>

lemma plain_extends:
  assumes "\<not> gzip w"
  shows "write_batches L memory_sink bs w out = (w', out', Inr ()) \<Longrightarrow> \<not> gzip w' \<and> (\<exists>data. out' = out @ data)"
  using assms
proof (induction bs arbitrary: w out)
  case (Cons b bs)
  then obtain w1 out1 where w1: "write_batch L memory_sink w b out = (w1, out1, Inr ())"
      "write_batches L memory_sink bs w1 out1 = (w', out', Inr ())"
    by (auto split: prod.splits sum.splits)
  from w1(1) [unfolded plain_written [OF Cons.prems(2)]] obtain s where
    s: "out1 = out @ stream s" "w1 = after_batch w b s" by blast
  then have "\<not> gzip w1" using Cons.prems(2) by (simp add: after_batch_def)
  from Cons.IH [OF w1(2) this] s(1) show ?case by auto
qed simp

lemma batches_joined:
  assumes "\<not> gzip w" "writer_wf w"
  shows "write_batches L memory_sink (b # bs) w out = (w', out', Inr ()) \<Longrightarrow> \<forall>b \<in> set (b # bs). batch_wf b \<Longrightarrow>
    int (length out') \<le> streamsize_max \<Longrightarrow>
    write_batch L memory_sink w (foldl join_batches b bs) out = (w', out', Inr ())"
proof (induction bs arbitrary: b)
  case Nil
  then show ?case by (auto split: prod.splits sum.splits)
next
  case (Cons c cs)
  from Cons.prems(1) obtain w1 out1 where w1: "write_batch L memory_sink w b out = (w1, out1, Inr ())"
    and "write_batches L memory_sink (c # cs) w1 out1 = (w', out', Inr ())"
    by (auto split: prod.splits sum.splits)
  then obtain w2 out2 where w2: "write_batch L memory_sink w1 c out1 = (w2, out2, Inr ())"
      "write_batches L memory_sink cs w2 out2 = (w', out', Inr ())"
    by (auto split: prod.splits sum.splits)
  have g: "\<not> gzip w1" "\<not> gzip w2"
  proof -
    show "\<not> gzip w1" using w1 assms(1) unfolding plain_written [OF assms(1)] by (auto simp: after_batch_def)
    then show "\<not> gzip w2" using w2(1) unfolding plain_written [OF \<open>\<not> gzip w1\<close>] by (auto simp: after_batch_def)
  qed
  obtain data where "out' = out2 @ data" using plain_extends [OF g(2) w2(2)] by blast
  then have "int (length out2) \<le> streamsize_max" using Cons.prems(3) by simp
  then have "write_batch L memory_sink w (join_batches b c) out = (w2, out2, Inr ())"
    using join_written [OF assms _ _ w1 w2(1)] Cons.prems(2) by simp
  with w2(2) have "write_batches L memory_sink (join_batches b c # cs) w out = (w', out', Inr ())" by simp
  from Cons.IH [OF this] Cons.prems(2,3) join_wf show ?case by simp
qed

text \<open>What the joined batch holds.\<close>

lemma merge_set:
  assumes "om_wf m" "om_wf n" "fst ` set m \<inter> fst ` set n = {}"
  shows "set (om_merge m n) = set m \<union> set n"
proof -
  note merged = om_merge_known [OF assms(1), of n]
  have disjoint: "om_find m k = None \<or> om_find n k = None" for k using assms(3) by (auto simp: om_find_None)
  have "(k, v) \<in> set (om_merge m n) \<longleftrightarrow> (k, v) \<in> set m \<union> set n" for k v
    using disjoint [of k] merged om_find_iff [OF assms(1), of k v] om_find_iff [OF assms(2), of k v]
      om_find_iff [of "om_merge m n" k v]
    by (auto split: option.splits)
  then show ?thesis by auto
qed

lemma joined_batches:
  "\<forall>b \<in> set (b # bs). batch_wf b \<Longrightarrow> distinct (map fst (batches_nodes (b # bs))) \<Longrightarrow>
    batch_wf (foldl join_batches b bs) \<and> set (bnodes (foldl join_batches b bs)) = set (batches_nodes (b # bs))
    \<and> set (bedges (foldl join_batches b bs)) = set (batches_edges (b # bs))"
proof (induction bs arbitrary: b)
  case (Cons c cs)
  have wf: "batch_wf b" "batch_wf c" using Cons.prems(1) by simp_all
  have "fst ` set (bnodes b) \<inter> fst ` set (bnodes c) = {}"
    using Cons.prems(2) by (simp add: batches_nodes_def) blast
  with wf have "set (bnodes (join_batches b c)) = set (bnodes b) \<union> set (bnodes c)"
    by (simp add: join_batches_def batch_wf_def merge_set)
  moreover have "distinct (map fst (batches_nodes (join_batches b c # cs)))"
  proof -
    have "distinct (map fst (bnodes (join_batches b c)))"
      using join_wf [OF wf] by (simp add: batch_wf_def om_wf_def strict_sorted_iff)
    with calculation Cons.prems(2) show ?thesis
      by (simp add: batches_nodes_def image_Un Int_Un_distrib Int_Un_distrib2)
  qed
  moreover note Cons.IH [of "join_batches b c"] join_wf [OF wf] join_edges [OF wf(1), of c] Cons.prems(1)
  ultimately show ?case by (simp add: batches_nodes_def batches_edges_def Un_assoc)
qed (simp add: batches_nodes_def batches_edges_def)

section \<open>Finishing\<close>

lemma plain_finish:
  assumes "\<not> gzip w" "\<not> write_failed w" "\<not> finished w"
  shows "snd (finish memory_sink w out) = (out', Inr ()) \<longleftrightarrow>
    (\<exists>data ps runs. close_stalls w (\<lambda>_. True) ([], new_pending (strings w), stalls w) = Inr (data, ps, runs)
       \<and> int (length data) \<le> streamsize_max \<and> out' = out @ data)"
proof (cases "close_stalls w (\<lambda>_. True) ([], new_pending (strings w), stalls w)")
  case (Inr x)
  obtain data ps runs where x: "x = (data, ps, runs)" by (cases x)
  have "flush memory_sink (w\<lparr>stalls := runs\<rparr>) data out =
      (if int (length data) > streamsize_max then (w\<lparr>stalls := runs\<rparr>, out, Inl Batch_too_large)
       else (w\<lparr>stalls := runs\<rparr>, out @ data, Inr ()))"
    using assms by (simp add: flush_def sink_result_def memory_sink_def Let_def)
  then show ?thesis
    using assms by (auto simp: finish_def finish_open_def Inr x Let_def sink_result_def memory_sink_good)
qed (use assms in \<open>simp add: finish_def finish_open_def\<close>)

lemma finish_extends:
  assumes "\<not> gzip w" "snd (finish memory_sink w out) = (out', Inr ())"
  shows "\<exists>data. out' = out @ data"
proof (cases "write_failed w \<or> finished w")
  case True
  with assms(2) show ?thesis by (auto simp: finish_def split: if_splits)
next
  case False
  with assms show ?thesis using plain_finish [of w out out'] by auto
qed

text \<open>Finishing after a batch closes what is open, as a last step of the batch would.\<close>

lemma finish_after:
  assumes "\<not> gzip w" "\<not> write_failed w" "\<not> finished w" and s: "same_emission w w [] s s"
  shows "snd (finish memory_sink (after_batch w b s) out) = (out', Inr ()) \<longleftrightarrow>
    (\<exists>u data. close_step w (\<lambda>_. True) s = (u, Inr ()) \<and> stream u = stream s @ data
       \<and> int (length data) \<le> streamsize_max \<and> out' = out @ data)"
proof -
  let ?v = "after_batch w b s"
  have i: "interns_wf (interns s)" "pending (interns s) = []"
    using s by (auto simp: same_emission_def same_sent_def same_interns_def)
  have "sent_slices (stream s) (stream s, interns s, next_stalls s) ([], new_pending (strings ?v), stalls ?v)"
    using same_committed [OF i] i(2) by (simp add: same_sent_def after_batch_def)
  note same = same_close_stalls [OF this, of w "\<lambda>_. True"]
  have f: "\<not> gzip ?v" "\<not> write_failed ?v" "\<not> finished ?v" using assms(1-3) by (simp_all add: after_batch_def)
  note finish = plain_finish [OF f, folded session_functions(5) [OF after_batch_session]]
  from same show ?thesis
  proof cases
    case (1 e)
    then show ?thesis by (simp add: finish close_step_slices)
  next
    case (2 x y)
    then obtain bs ps cs qs runs where "x = (bs, ps, runs)" "y = (cs, qs, runs)" "bs = stream s @ cs"
      by (cases x, cases y) auto
    with 2 show ?thesis by (auto simp: finish close_step_slices)
  qed
qed

lemma close_extends:
  assumes "same_emission w w [] s s" "close_step w P s = (u, Inr ())"
  shows "\<exists>data. stream u = stream s @ data"
proof -
  have "sent_slices (stream s) (stream s, interns s, next_stalls s) ([], interns s, next_stalls s)"
    using assms(1) by (simp add: same_emission_def)
  from same_close_stalls [OF this, of w P] show ?thesis
  proof cases
    case (2 x y)
    then show ?thesis using assms(2) by (auto simp: close_step_slices elim!: rel_prod.cases)
  qed (use assms(2) in \<open>auto simp: close_step_slices\<close>)
qed

section \<open>The end of the last batch\<close>

lemma emit_node_bcycle: "emit_node L w (b\<lparr>bcycle := m\<rparr>) g r = emit_node L w b g r"
proof -
  have ends: "stall_ends (b\<lparr>bcycle := m\<rparr>) g = stall_ends b g"
    by (simp add: stall_ends_def fun_eq_iff)
  have enter: "enter_cycle w (b\<lparr>bcycle := m\<rparr>) g = enter_cycle w b g"
    unfolding enter_cycle_def [abs_def] ends by (rule refl)
  show ?thesis unfolding emit_node_def [abs_def] enter by simp
qed

lemma check_bcycle:
  assumes "batch_wf b" "check_batch w b = Inr (g, order)" "\<forall>e \<in> set (bnodes b). cycle (snd e) \<le> m"
    "later (watermark w) m"
  shows "check_batch w (b\<lparr>bcycle := m\<rparr>) = Inr (g, order)"
proof -
  let ?b = "b\<lparr>bcycle := m\<rparr>"
  note steps = assms(2) [unfolded check_batch_steps]
  have "list_all (node_acceptable w b) (bnodes b) \<and> slots_apart w (bnodes b)"
    using check_nodes_ok [where w = w and b = b and ns = "bnodes b" and occ = "[]"] steps by blast
  then have "list_all (node_acceptable w ?b) (bnodes ?b) \<and> slots_apart w (bnodes ?b)"
    using assms(3) by (auto simp: list_all_iff node_acceptable_def)
  then have "\<exists>occ. emit_all (check_batch_node w (bcycle ?b)) (bnodes ?b) [] = Inr occ"
    using check_nodes_ok [where w = w and b = ?b and ns = "bnodes ?b" and occ = "[]"] by simp
  moreover have "check_batch_edge w ?b = check_batch_edge w b"
    by (simp add: check_batch_edge_def fun_eq_iff)
  moreover have "batch_order ?b g = batch_order b g" by (simp add: batch_order_def)
  ultimately show ?thesis using steps assms(4) by (auto simp: check_batch_steps)
qed

text \<open>Where the last batch ends makes no difference once the trace is finished.\<close>

lemma finish_bcycle:
  assumes "\<not> gzip w" "writer_wf w" "batch_wf b"
    and "write_batch L memory_sink w b out = (w1, out1, Inr ())"
    and "snd (finish memory_sink w1 out1) = (out2, Inr ())"
    and size: "int (length out2) \<le> streamsize_max"
    and "\<forall>e \<in> set (bnodes b). cycle (snd e) \<le> m" "later (watermark w) m"
  shows "\<exists>w1' out1'. write_batch L memory_sink w (b\<lparr>bcycle := m\<rparr>) out = (w1', out1', Inr ())
    \<and> snd (finish memory_sink w1' out1') = (out2, Inr ())"
proof -
  let ?b = "b\<lparr>bcycle := m\<rparr>"
  obtain g order s where c: "check_batch w b = Inr (g, order)" "emit_batch L w b g order = (s, Inr ())"
      "w1 = after_batch w b s" "out1 = out @ stream s"
    using assms(4) unfolding plain_written [OF assms(1)] by blast
  have w: "\<not> write_failed w" "\<not> finished w" using c(1) by (auto simp: check_batch_steps)
  have c': "check_batch w ?b = Inr (g, order)" by (rule check_bcycle [OF assms(3) c(1) assms(7,8)])
  obtain t where t: "emit_each (emit_node L w b g) order (start_emission w) = (t, Inr ())"
      "close_step w (stalled_before (bcycle b)) t = (s, Inr ())"
    using c(2) unfolding emit_batch_steps then_emit_Inr by blast
  have "emit_node L w ?b g = emit_node L w b g" by (rule ext) (rule emit_node_bcycle)
  with t(1) have t': "emit_each (emit_node L w ?b g) order (start_emission w) = (t, Inr ())" by simp
  have stalls: "om_wf (next_stalls t)"
    using emitted_nodes [OF assms(2,3) c(1) t(1)] by (simp add: same_emission_def)
  obtain u data where u: "close_step w (\<lambda>_. True) s = (u, Inr ())" "stream u = stream s @ data"
      "out2 = out1 @ data"
    using assms(5) unfolding c(3) finish_after [OF assms(1) w emitted_same [OF assms(2,3) c(1,2)]] by blast
  have "close_step w (\<lambda>_. True) t = (u, Inr ())"
    using close_twice [OF stalls, of "bcycle b" "\<lambda>_. True"] t(2) u(1) by blast
  then obtain s' where s': "close_step w (stalled_before m) t = (s', Inr ())" "close_step w (\<lambda>_. True) s' = (u, Inr ())"
    using close_twice [OF stalls, of m "\<lambda>_. True"] by blast
  have e': "emit_batch L w ?b g order = (s', Inr ())"
    using t' s'(1) by (auto simp: emit_batch_steps then_emit_Inr)
  have wf: "batch_wf ?b" using assms(3) by (simp add: batch_wf_def)
  note same' = emitted_same [OF assms(2) wf c' e']
  obtain data' where data': "stream u = stream s' @ data'"
    using close_extends [OF same' s'(2)] by blast
  have out2: "out2 = (out @ stream s') @ data'" using u(2,3) c(4) data' by simp
  with size have "int (length (stream s')) \<le> streamsize_max" "int (length data') \<le> streamsize_max" by simp_all
  then have "write_batch L memory_sink w ?b out = (after_batch w ?b s', out @ stream s', Inr ())"
    "snd (finish memory_sink (after_batch w ?b s') (out @ stream s')) = (out2, Inr ())"
    unfolding plain_written [OF assms(1)] finish_after [OF assms(1) w same'] using c' e' s'(2) data' out2 by auto
  then show ?thesis by blast
qed

section \<open>The stream of a collector and its snapshot\<close>

lemma stream_batches_wf: "stream_run g bs \<Longrightarrow> \<forall>b \<in> set bs. batch_wf b"
proof (induction rule: stream_run.induct)
  case (finish g bs c g' b)
  then have "graph_inv g" using stream_run_inv by (auto simp: stream_inv_def)
  with finish show ?case using pending_batch_wf by (auto simp: finish_cycle_ok)
qed simp_all

text \<open>After the end of the stream the batches together are the occurrences of the snapshot.\<close>

lemma stream_snapshot:
  assumes "stream_run g (b # bs)" "end_stream g = (g', Inr ())"
  shows "bnodes (foldl join_batches b bs) = nodes g'" "bedges (foldl join_batches b bs) = edges g'"
    and "bcycle (foldl join_batches b bs) = bcycle (last (b # bs))"
proof -
  have g: "pending_nodes g = []" "pending_edges g = []" "nodes g' = nodes g" "edges g' = edges g"
    using assms(2) by (auto simp: end_stream_def split: if_splits)
  have inv: "stream_inv g (b # bs)" by (rule stream_run_inv [OF assms(1)])
  then have wf: "om_wf (nodes g)" "os_wf (edges g)"
    and sets: "set (batches_nodes (b # bs)) = set (nodes g)" "set (batches_edges (b # bs)) = set (edges g)"
    and dist: "distinct (map fst (batches_nodes (b # bs)))"
    using g by (auto simp: stream_inv_def graph_inv_def maps_wf_def emitted_nodes_def emitted_edges_def)
  note j = joined_batches [OF stream_batches_wf [OF assms(1)] dist]
  then have w: "om_wf (bnodes (foldl join_batches b bs))" by (simp add: batch_wf_def)
  have "om_find (bnodes (foldl join_batches b bs)) r = om_find (nodes g) r" for r
    using j sets(1) om_find_iff [OF w, of r] om_find_iff [OF wf(1), of r]
    by (metis not_None_eq)
  then show "bnodes (foldl join_batches b bs) = nodes g'" by (simp add: om_ext [OF w wf(1)] g)
  show "bedges (foldl join_batches b bs) = edges g'"
    using j sets(2) wf(2) g(4) by (metis batch_wf_def os_ext)
  show "bcycle (foldl join_batches b bs) = bcycle (last (b # bs))"
    by (induction bs arbitrary: b) (simp_all add: join_batches_def)
qed

lemma snapshot_valid:
  assumes "graph_inv g" "end_stream g = (g', Inr ())"
  shows "graph_snapshot g' = Inr g'"
proof -
  have g: "streaming g" "pending_nodes g = []" "pending_edges g = []"
      "nodes g' = nodes g" "edges g' = edges g" "gmanifest g' = gmanifest g"
    using assms(2) by (auto simp: end_stream_def split: if_splits)
  then have "gmanifest g \<noteq> None"
    "settled (nodes g) (edges g) (gmanifest g) (finished_cycle g) [] []"
    using assms(1) by (auto simp: graph_inv_def)
  then have "validate g' = Inr ()"
    by (auto simp: validate_def validate_entries_ok settled_def g)
  with \<open>gmanifest g \<noteq> None\<close> show ?thesis by (simp add: snapshot_ok g)
qed

lemma max_cycle: "(\<forall>e \<in> set ns. cycle (snd e) \<le> fold (\<lambda>e c. max c (cycle (snd e))) ns m)
    \<and> m \<le> fold (\<lambda>e c. max c (cycle (snd e))) ns m"
  by (induction ns arbitrary: m) (auto intro: order_trans simp: max.coboundedI2, (metis max.bounded_iff)+)

text \<open>Writing the batches of a stream and finishing, against writing the snapshot as one batch.\<close>

lemma stream_replayed:
  assumes w: "\<not> gzip w" "writer_wf w" "\<not> write_failed w" "\<not> finished w" "stalls w = []" "watermark w = None"
    and run: "stream_run g bs" "end_stream g = (g', Inr ())"
    and live: "write_batches L memory_sink bs w out = (w1, out1, Inr ())"
      "snd (finish memory_sink w1 out1) = (out2, Inr ())"
    and size: "int (length out2) \<le> streamsize_max"
  shows "\<exists>w2 out'. write_batch L memory_sink w (snapshot_batch g') out = (w2, out', Inr ())
    \<and> snd (finish memory_sink w2 out') = (out2, Inr ())"
proof (cases bs)
  case Nil
  have inv: "stream_inv g []" using stream_run_inv [OF run(1)] Nil by simp
  then have e: "emitted_nodes g = {}" "emitted_edges g = {}"
    by (simp_all add: stream_inv_def batches_nodes_def batches_edges_def)
  have g: "pending_nodes g = []" "pending_edges g = []" "nodes g' = nodes g" "edges g' = edges g"
    using run(2) by (auto simp: end_stream_def split: if_splits)
  have "emitted_nodes g = set (nodes g)" "emitted_edges g = set (edges g)"
    by (simp_all add: emitted_nodes_def emitted_edges_def g)
  then have "nodes g' = []" "edges g' = []" using e g by simp_all
  then have b: "snapshot_batch g' = \<lparr>bcycle = 0, bnodes = [], bedges = []\<rparr>" by (simp add: snapshot_batch_def)
  have c: "check_batch w (snapshot_batch g') = Inr (no_graph [], [])"
    using w by (simp add: b check_batch_def batch_order_def no_graph_def first_ready_def)
  have none: "close_step w P (start_emission w) = (start_emission w, Inr ())" for P
    using w(5) by (simp add: close_step_def close_stalls_def endings_def start_emission_def)
  then have e: "emit_batch L w (snapshot_batch g') (no_graph []) [] = (start_emission w, Inr ())"
    by (simp add: emit_batch_steps then_emit_def)
  have same: "same_emission w w [] (start_emission w) (start_emission w)" by (rule start_same [OF w(2)])
  have "out2 = out"
  proof -
    have "w1 = w" "out1 = out" using live(1) Nil by simp_all
    with live(2) show ?thesis unfolding plain_finish [OF w(1,3,4)]
      by (auto simp: plain_finish [OF w(1,3,4)] w(5) close_stalls_def endings_def)
  qed
  moreover have "stream (start_emission w) = []" by (simp add: start_emission_def)
  ultimately show ?thesis
    unfolding plain_written [OF w(1)] using c e none
    by (auto simp: finish_after [OF w(1,3,4) same] streamsize_max_def intro!: exI)
next
  case (Cons b cs)
  let ?b = "foldl join_batches b cs"
  note snap = stream_snapshot [OF run(1) [unfolded Cons] run(2)]
  note wf = stream_batches_wf [OF run(1)]
  have "\<not> gzip w1" using plain_extends [OF w(1) live(1)] by simp
  from finish_extends [OF this live(2)] size have "int (length out1) \<le> streamsize_max" by auto
  note joined = batches_joined [OF w(1,2) live(1) [unfolded Cons] wf [unfolded Cons] this]
  have bw: "batch_wf ?b"
    using joined_batches [of b cs] wf stream_run_inv [OF run(1)] by (auto simp: Cons stream_inv_def)
  have m: "snapshot_batch g' = ?b\<lparr>bcycle := bcycle (snapshot_batch g')\<rparr>"
    using snap by (simp add: snapshot_batch_def)
  have "\<forall>e \<in> set (bnodes ?b). cycle (snd e) \<le> bcycle (snapshot_batch g')"
    using max_cycle [of "nodes g'" 0] by (simp add: snap snapshot_batch_def)
  from finish_bcycle [OF w(1,2) bw joined live(2) size this] w(6) m show ?thesis
    by (simp add: later_def)
qed

section \<open>Simulations with an output in memory\<close>

text \<open>What the bridge relies on: opening truncates the file, and closing writes nothing more.\<close>

definition in_memory :: "('j, u8 list) sim_env \<Rightarrow> bool" where
  "in_memory env \<longleftrightarrow> out_sink (exporter env) = memory_sink
     \<and> (\<forall>out path. open_output env out path = []) \<and> (\<forall>out. close_output env out = out)"

lemma write_batches_snoc:
  "write_batches L k bs w out = (w1, out1, Inr ()) \<Longrightarrow>
    write_batches L k (bs @ [b]) w out = write_batches L k [b] w1 out1"
proof (induction bs arbitrary: w out)
  case (Cons a bs)
  then obtain w2 out2 where "write_batch L k w a out = (w2, out2, Inr ())"
      "write_batches L k bs w2 out2 = (w1, out1, Inr ())"
    by (auto split: prod.splits sum.splits)
  with Cons.IH show ?case by simp
qed simp

lemma new_writer_members:
  assumes "new_writer env m t z out = (out', Inr w)"
  shows "stalls w = []" "strings w = no_strings" "known w = []" "watermark w = None"
    and "\<not> write_failed w" "\<not> finished w" "gzip w \<longleftrightarrow> z = Gzip"
  using assms by (auto simp: new_writer_def Let_def dest!: flush_ok split: sum.splits prod.splits if_splits)

lemma write_batch_gzip: "write_batch L k w b out = (w', out', Inr ()) \<Longrightarrow> gzip w' = gzip w"
  by (auto elim!: written_batch)

text \<open>The bindings of a collector do not change while it streams.\<close>

lemma callback_bindings:
  assumes "graph_inv g" "streaming g" "op \<notin> {Op_begin_stream, Op_end_stream} \<union> range Op_finish_cycle"
  shows "gmanifest (fst (graph_step g op)) = gmanifest g \<and> gtiming (fst (graph_step g op)) = gtiming g"
proof -
  have "gmanifest g \<noteq> None" "gtiming g \<noteq> None" using assms(1,2) by (auto simp: graph_inv_def)
  with assms(2,3) show ?thesis
    by (cases op) (auto simp: clear_def bind_timing_def bind_manifest_def record_node_def record_payload_def
        record_edge_def reset_def Let_def split: option.splits)
qed

text \<open>The output of a simulation so far is that of a session that has written the batches streamed.\<close>

definition sim_session :: "('j, u8 list) sim_env \<Rightarrow> u8 list sim \<Rightarrow> writer \<Rightarrow> bool" where
  "sim_session env s w \<longleftrightarrow> (\<exists>bs m t w0 out0. stream_run (sim_graph s) bs
     \<and> gmanifest (sim_graph s) = Some m \<and> gtiming (sim_graph s) = Some t
     \<and> new_writer (exporter env) m t No_compression [] = (out0, Inr w0)
     \<and> write_batches (lib (exporter env)) memory_sink bs w0 out0 = (w, sim_output s, Inr ()))"

lemma sim_open_session:
  assumes "in_memory env" "graph_reachable (sim_graph s)" "rheg_sim_open env path s = (s', 0)"
    "sim_writer s' = Some w" "\<not> gzip w"
  shows "sim_session env s' w"
proof -
  obtain g1 g2 g3 h where g: "bind_manifest (sim_graph s) (generated_manifest env) = (g1, Inr ())"
      "bind_timing g1 \<lparr>clock_frequency_hz = generated_frequency env, epoch_id = 0\<rparr> = (g2, Inr ())"
      "begin_stream g2 = (g3, Inr h)"
    and w: "start_writer env path h
      (s\<lparr>sim_output := open_output env (sim_output s) path, sim_graph := g3\<rparr>) = (s', 0)"
    using assms(3) by (auto simp: rheg_sim_open_def on_graph_def Let_def split: if_splits prod.splits sum.splits)
  obtain m t out0 where n: "gmanifest h = Some m" "gtiming h = Some t"
      "new_writer (exporter env) m t (file_compression path) [] = (out0, Inr w)"
      "sim_graph s' = g3" "sim_output s' = out0"
    using w assms(1,4) by (auto simp: start_writer_def in_memory_def split: option.splits prod.splits sum.splits)
  have "file_compression path = No_compression"
    using new_writer_members(7) [OF n(3)] assms(5) by (auto simp: file_compression_def split: if_splits)
  moreover have "graph_reachable g2"
    using graph_reachable.step [OF graph_reachable.step [OF assms(2), of "Op_bind_manifest (generated_manifest env)"],
        of "Op_bind_timing \<lparr>clock_frequency_hz = generated_frequency env, epoch_id = 0\<rparr>"] g(1,2) by simp
  then have "stream_run g3 []" using g(3) by (rule stream_run.start)
  moreover have "gmanifest g3 = gmanifest h" "gtiming g3 = gtiming h"
    using g(3) by (auto simp: begin_stream_def snapshot_ok split: if_splits sum.splits)
  ultimately show ?thesis
    using n unfolding sim_session_def by (intro exI [of _ "[]"] exI [of _ m] exI [of _ t]) auto
qed

lemma sim_run_session:
  assumes "in_memory env"
  shows "sim_run env s \<Longrightarrow> sim_writer s = Some w \<Longrightarrow> \<not> gzip w \<Longrightarrow> sim_session env s w"
proof (induction arbitrary: w rule: sim_run.induct)
  case (opened s path s')
  then show ?case using sim_open_session [OF assms] by blast
next
  case (callback s op)
  then have sess: "sim_session env s w" by simp
  then obtain bs where bs: "stream_run (sim_graph s) bs" by (auto simp: sim_session_def)
  then have "graph_inv (sim_graph s)" "streaming (sim_graph s)"
    using stream_run_inv by (auto simp: stream_inv_def)
  note same = callback_bindings [OF this callback(2)]
  have "stream_run (fst (graph_step (sim_graph s) op)) bs'" if "stream_run (sim_graph s) bs'" for bs'
    using that callback(2) by (rule stream_run.callback)
  with sess same show ?case unfolding sim_session_def by fastforce
next
  case (cycle_written s c s')
  obtain w1 g b w2 out r where w1: "sim_writer s = Some w1" "finish_cycle (sim_graph s) c = (g, Inr b)"
      "write_batch (lib (exporter env)) memory_sink w1 b (sim_output s) = (w2, out, Inr ())"
      "s' = s\<lparr>sim_graph := g, sim_writer := Some w2, sim_output := out\<rparr>"
    using cycle_written(2) assms
    by (auto simp: rheg_sim_cycle_def on_graph_def in_memory_def split: option.splits prod.splits sum.splits)
  have "w2 = w" using w1(4) cycle_written(4) by simp
  then have "\<not> gzip w1" using write_batch_gzip [OF w1(3)] cycle_written(5) by simp
  from cycle_written.IH [OF w1(1) this] obtain bs m t w0 out0 where s: "stream_run (sim_graph s) bs"
      "gmanifest (sim_graph s) = Some m" "gtiming (sim_graph s) = Some t"
      "new_writer (exporter env) m t No_compression [] = (out0, Inr w0)"
      "write_batches (lib (exporter env)) memory_sink bs w0 out0 = (w1, sim_output s, Inr ())"
    by (auto simp: sim_session_def)
  have "stream_run g (bs @ [b])" by (rule stream_run.finish [OF s(1) w1(2)])
  moreover have "write_batches (lib (exporter env)) memory_sink (bs @ [b]) w0 out0 = (w, out, Inr ())"
    using write_batches_snoc [OF s(5)] w1(3) \<open>w2 = w\<close> by simp
  moreover have "gmanifest g = gmanifest (sim_graph s)" "gtiming g = gtiming (sim_graph s)"
    using w1(2) by (auto simp: finish_cycle_ok)
  ultimately show ?case using s(2-4) w1(4) unfolding sim_session_def by fastforce
qed

section \<open>The property\<close>

text \<open>C1: live tracing and replay agree: when a simulation without errors is closed, the snapshot of its
  collector is valid, and exporting that snapshot as one batch succeeds and writes byte for byte the
  uncompressed trace that was streamed cycle by cycle, whatever the cycles at which it was settled.\<close>

theorem simulation_replay:
  assumes "in_memory env" "sim_run env s" "sim_writer s = Some w" "\<not> gzip w"
    and "rheg_sim_close env s = (s', 0)" "int (length (sim_output s')) \<le> streamsize_max"
  shows "graph_snapshot (sim_graph s') = Inr (sim_graph s')
    \<and> write_perfetto (exporter env) (sim_graph s') No_compression [] = (sim_output s', Inr ())"
proof -
  obtain bs m t w0 out0 where s: "stream_run (sim_graph s) bs"
      "gmanifest (sim_graph s) = Some m" "gtiming (sim_graph s) = Some t"
      "new_writer (exporter env) m t No_compression [] = (out0, Inr w0)"
      "write_batches (lib (exporter env)) memory_sink bs w0 out0 = (w, sim_output s, Inr ())"
    using sim_run_session [OF assms(1-4)] by (auto simp: sim_session_def)
  obtain g w' out where c: "end_stream (sim_graph s) = (g, Inr ())"
      "finish memory_sink w (sim_output s) = (w', out, Inr ())" "sim_graph s' = g" "sim_output s' = out"
    using assms(1,3,5) by (auto simp: rheg_sim_close_def on_graph_def in_memory_def Let_def
        split: option.splits prod.splits sum.splits if_splits)
  note n = new_writer_members [OF s(4)]
  have wf: "writer_wf w0" using n(1-3) by (simp add: writer_wf_def no_strings_def)
  have "\<not> gzip w0" "snd (finish memory_sink w (sim_output s)) = (sim_output s', Inr ())" using n(7) c by simp_all
  from stream_replayed [OF this(1) wf n(5,6,1,4) s(1) c(1) s(5) this(2) assms(6)]
  obtain w2 out' where "write_batch (lib (exporter env)) memory_sink w0 (snapshot_batch g) out0 = (w2, out', Inr ())"
      "snd (finish memory_sink w2 out') = (sim_output s', Inr ())" by blast
  moreover have "gmanifest g = Some m" "gtiming g = Some t"
    using c(1) s(2,3) by (auto simp: end_stream_def split: if_splits)
  moreover have "out_sink (exporter env) = memory_sink" using assms(1) by (simp add: in_memory_def)
  moreover have "graph_inv (sim_graph s)" using stream_run_inv [OF s(1)] by (simp add: stream_inv_def)
  ultimately show ?thesis
    using snapshot_valid [OF _ c(1)] s(4) by (simp add: write_perfetto_def c(3))
qed

text \<open>A script of callbacks and settled cycles.\<close>

fun sim_script :: "('j, 'o) sim_env \<Rightarrow> (graph_op + u64) list \<Rightarrow> 'o sim \<Rightarrow> 'o sim option" where
  "sim_script env [] s = Some s"
| "sim_script env (Inl op # xs) s = sim_script env xs (s\<lparr>sim_graph := fst (graph_step (sim_graph s) op)\<rparr>)"
| "sim_script env (Inr c # xs) s = (case rheg_sim_cycle env c s of (s, n) \<Rightarrow>
     if n = 0 then sim_script env xs s else None)"

lemma sim_script_run:
  "sim_run env s \<Longrightarrow> sim_script env xs s = Some s' \<Longrightarrow>
    \<forall>op. Inl op \<in> set xs \<longrightarrow> op \<notin> {Op_begin_stream, Op_end_stream} \<union> range Op_finish_cycle \<Longrightarrow> sim_run env s'"
proof (induction env xs s rule: sim_script.induct)
  case (2 env op xs s)
  then have "sim_run env (s\<lparr>sim_graph := fst (graph_step (sim_graph s) op)\<rparr>)"
    by (intro sim_run.callback) auto
  with 2 show ?case by simp
next
  case (3 env c xs s)
  obtain s1 n where s1: "rheg_sim_cycle env c s = (s1, n)" by fastforce
  with 3 have n: "n = 0" "sim_script env xs s1 = Some s'" by (auto split: if_splits)
  have "sim_run env s1" using 3(2) s1 n(1) by (auto intro: sim_run.cycle_written)
  with 3(1) [OF s1 [symmetric] n(1) _ n(2)] 3(4) show ?case by simp
qed simp

text \<open>The limits of the dictionaries as integers, which are evaluated in binary.\<close>

lemma reference_code [code]: "reference iid_field inline_field k v ps =
     (let prior = known_strings ps k; fresh = added_strings ps k
      in case om_find (ids prior) v of
           Some i \<Rightarrow> (ps, integer iid_field i)
         | None \<Rightarrow> (case om_find (ids fresh) v of
             Some i \<Rightarrow> (ps, integer iid_field i)
           | None \<Rightarrow>
               if int (length (ids prior) + length (ids fresh)) \<ge> 4096 \<or> int (length v) > 1024
                  \<or> int (dict_bytes prior + dict_bytes fresh + length v) > 1048576
               then (ps, bytes_field inline_field (octets v))
               else let iid = of_nat (length (ids prior) + length (ids fresh) + 1)
                 in (ps\<lparr>added_strings := (added_strings ps)(k :=
                        \<lparr>ids = om_put v iid (ids fresh), dict_bytes = dict_bytes fresh + length v\<rparr>),
                      pending := pending ps @ bytes_field (intern_table k) (intern_entry iid v)\<rparr>,
                    integer iid_field iid)))"
proof -
  have bounds: "4096 \<le> int a \<longleftrightarrow> 4096 \<le> a" "1024 < int a \<longleftrightarrow> 1024 < a" "1048576 < int a \<longleftrightarrow> 1024 * 1024 < a" for a
    by (simp_all add: nat_less_iff [symmetric] nat_le_iff [symmetric])
  show ?thesis unfolding reference_def bounds by (rule refl)
qed

text \<open>A simulation of three cycles, each its own batch, with a stall that goes on from the second to the
  third and is still open when the simulation is closed.\<close>

definition example_script :: "(graph_op + u64) list" where
  "example_script = [Inl (Op_node (Ref 0 0) 1 0), Inr 1,
     Inl (Op_node (Ref 1 0) 2 4), Inl (Op_payload (Ref 1 0) 0 5), Inr 2,
     Inl (Op_node (Ref 1 1) 3 4), Inl (Op_payload (Ref 1 1) 0 5), Inr 3]"

lemma example_script_ok:
  "case rheg_sim_open example_sim ''t'' (new_sim []) of (s, n) \<Rightarrow> n = 0 \<and>
     (case sim_script example_sim example_script s of None \<Rightarrow> False | Some s1 \<Rightarrow>
       (case sim_writer s1 of None \<Rightarrow> False | Some w \<Rightarrow> \<not> gzip w \<and> length (stalls w) = 1) \<and>
       (case rheg_sim_close example_sim s1 of (s2, n) \<Rightarrow>
          n = 0 \<and> length (sim_output s2) \<le> 1000 \<and> length (nodes (sim_graph s2)) = 3))"
  by code_simp

theorem simulation_replay_witness:
  "\<exists>s s'. sim_run example_sim s \<and> rheg_sim_close example_sim s = (s', 0) \<and> length (nodes (sim_graph s')) = 3
    \<and> write_perfetto (exporter example_sim) (sim_graph s') No_compression [] = (sim_output s', Inr ())"
proof -
  obtain s0 n where o: "rheg_sim_open example_sim ''t'' (new_sim []) = (s0, n)" by fastforce
  note run = example_script_ok [unfolded o prod.case]
  then obtain s where s: "sim_script example_sim example_script s0 = Some s" by (auto split: option.splits)
  note rest = run [unfolded s option.case, THEN conjunct2]
  obtain w where w: "sim_writer s = Some w" "\<not> gzip w" using rest by (auto split: option.splits)
  obtain s' where s': "rheg_sim_close example_sim s = (s', 0)" "length (sim_output s') \<le> 1000"
      "length (nodes (sim_graph s')) = 3"
    using rest by (cases "rheg_sim_close example_sim s") auto
  have "graph_reachable (sim_graph (new_sim ([] :: u8 list)))"
    by (simp add: new_sim_def graph_reachable.initial)
  then have "sim_run example_sim s0" using o run by (intro sim_run.opened) auto
  from sim_script_run [OF this s] have r: "sim_run example_sim s"
    by (auto simp: example_script_def)
  have m: "in_memory example_sim" by (simp add: in_memory_def example_sim_def example_env_def)
  have "int (length (sim_output s')) \<le> streamsize_max" using s'(2) by (simp add: streamsize_max_def)
  from simulation_replay [OF m r w s'(1) this] r s' show ?thesis by blast
qed

end
