(* ===== verification/Spec2Isabelle.thy ===== *)
theory Spec2Isabelle
  imports Chi_Image Rheg_Json Uart_Dpi Htif_Dpi Perfetto_Failure Rheg_Sim Memory_Scope Rheg_Replay
begin

text \<open>
  A verification development for the C++ of the Rhodium repository: the code that runs beside a
  simulated design. The hardware description language, its libraries and cores are Racket, Rhombus
  and Rhodium sources and are not part of it.

  \<^bold>\<open>The program and the theories.\<close> Paths are relative to \<open>src/\<close>.

  \<^item> Memories. A simulated CHI subordinate keeps its bytes in a sparse store
    (\<open>chi/subordinate/dpi/chi_memory.cc\<close>): \<open>Byte_Store\<close> states the contract of a bounded byte store,
    \<open>Chi_Memory\<close> the class \<open>Memory\<close> with its pages and that it meets the contract, \<open>Chi_Registry\<close> the
    process-wide table of registrations, \<open>Chi_Dpi\<close> the two DPI functions
    (\<open>chi_dpi_memory_dpi.cc\<close>). \<open>Image_Memory\<close> is the map of loadable regions
    (\<open>sims/fesvr/image_memory.h\<close>) and \<open>Chi_Image\<close> the adapter from registrations to regions
    (\<open>sims/verilator/chi_image_memory.h\<close>, \<open>image_memory_map.cc\<close>).
  \<^item> Program loading. \<open>Htif\<close> and \<open>Htif_Chunks\<close> model \<open>sims/fesvr/direct_mem_htif.cc\<close>: the handshake
    of one memory request and the chunk operations, which reach memory through image regions or by
    requests; \<open>Htif_Dpi\<close> the clocked entry point \<open>sims/verilator/direct_mem_htif_dpi.cc\<close>.
  \<^item> The terminal. \<open>Uart_Dpi\<close> is \<open>devices/dpi/uart_dpi.cc\<close>.
  \<^item> The event collector \<open>rheg/runtime/rheg.cc\<close>: \<open>Ordered\<close> (\<open>std::map\<close> and \<open>std::set\<close> as ordered
    lists), \<open>Rheg_Types\<close> (the data), \<open>Rheg_Capture\<close> and \<open>Rheg_Values\<close> (captured fields and what
    they read as), \<open>Rheg_Schema\<close> (\<open>validate_capture_schema\<close>), \<open>Rheg_Graph\<close> (every operation of
    \<open>Graph\<close>), \<open>Rheg_Invariant\<close>, \<open>Rheg_Stream\<close>, \<open>Rheg_Collector\<close> and \<open>Rheg_Order\<close> (what they keep and
    promise), \<open>Rheg_Json\<close> (the JSON texts).
  \<^item> The trace exporter \<open>rheg/perfetto/rheg_perfetto.cc\<close>: \<open>Perfetto_Wire\<close> (protobuf encoding),
    \<open>Perfetto_Intern\<close> (string dictionaries and annotations), \<open>Perfetto_Riscv\<close> (instruction text and
    its cache), \<open>Perfetto_Describe\<close> (reading the manifest), \<open>Topo_Order\<close> (Kahn's algorithm),
    \<open>Perfetto_Writer\<close> (state, timestamps, slices, flows, stall merging, validation of a batch),
    \<open>Perfetto_Emit\<close> (\<open>write\<close>, \<open>flush\<close>, \<open>finish\<close>), \<open>Perfetto_Order\<close> and \<open>Perfetto_Failure\<close> (what a batch
    must satisfy, in which order it is written, what a failure leaves), \<open>Perfetto_Export\<close> (the
    constructor, \<open>read_event_trace\<close>, \<open>write_perfetto\<close> and \<open>main.cc\<close>), \<open>Perfetto_Gzip\<close> and
    \<open>Perfetto_Compressed\<close> (the gzip encoder, and that compression is transparent). \<open>Rheg_Sim\<close> is the bridge
    \<open>sims/verilator/rheg_dpi.cc\<close> that joins collector and exporter, and \<open>Rheg_Bridge\<close> proves what the
    two guarantee together. Live tracing against replay: \<open>Perfetto_Additions\<close> (what a batch adds to the
    writer), \<open>Perfetto_Same\<close> and \<open>Perfetto_Continue\<close> (emission does not depend on where a batch begins),
    \<open>Topo_Split\<close> and \<open>Perfetto_Join\<close> (order and acceptance of two batches joined), \<open>Perfetto_Replay\<close>
    (writing them) and \<open>Rheg_Replay\<close> (whole simulations).
  \<^item> The memory passes \<open>sram/circt/MemorySitePass.cpp\<close>: \<open>Memory_Sites\<close> (policies, names, the walk, the
    mapping, the inventory), \<open>Memory_Mapping\<close> (its specification) and \<open>Memory_Scope\<close> (the selection of
    the top, the independence of the scope).

  \<^bold>\<open>How code becomes definitions.\<close> A struct or class is a record with its members' names where HOL
  leaves them free, an integer of fixed width a machine word (\<open>u8\<close>, \<open>u32\<close>, \<open>u64\<close>, so that \<open>+\<close>
  wraps), a \<open>std::map\<close> an association list in increasing key order, a \<open>std::string\<close> a \<open>string\<close>. A
  function that throws returns a sum, \<open>Inl\<close> the exception; one that also changes an object returns the
  object beside it, because what is assigned before a \<open>throw\<close> stays assigned. Exceptions are
  constructors; their texts are not modelled, except where an error text is part of the state
  (the sticky error of the registrations). A pointer into a table is the key of its entry.
  Process-wide variables are passed along.

  \<^bold>\<open>Loops, bounds and fuel.\<close> Loops over a range of addresses recurse on the bytes left, and each round
  takes at least one: \<open>Chi_Memory\<close> and \<open>Htif\<close> prove it for pages and for segments. The varint
  encoder recurses on the value, the word splitter on the text. Kahn's algorithm is given as many
  rounds as the batch has nodes; \<open>Topo_Order\<close> proves that this is enough, an acyclic graph
  being ordered completely. The I/O loops of the UART may run as long as the system answers; they
  take the list of its answers and have the value \<open>None\<close> when it is used up, and
  \<open>uart_read_terminates\<close> and \<open>uart_drains\<close> say when they return. The loops of the gzip encoder are
  partial functions; \<open>gzip_returns\<close> shows that they return when zlib makes progress.

  \<^bold>\<open>Interfaces.\<close> Locales state what a component relies on and are interpreted on the model itself: the
  byte store under the DPI functions and the image loader, the finite map behind \<open>std::map\<close>, the
  callbacks that commute, printed texts that can be read back.

  \<^bold>\<open>Parameters.\<close> Code that is not in the repository is an argument: what the operating system answers
  to the calls of the UART, FESVR and its host thread, the bus that answers the transport, the JSON
  library (\<open>json_api\<close>), Spike's decoder and disassembler, zlib behind the output, the
  output stream, the manifest generated with the RTL, CIRCT's port lists and external modules, LLVM's
  YAML reader and file system. What a theorem needs of such a parameter is
  a named hypothesis (\<open>bus_memory\<close>, for instance) with a concrete instance in the witness.

  \<^bold>\<open>What the groups of lemmas show.\<close> Memories: the paged store refines a flat byte array, registrations
  stay disjoint, errors are sticky, beats move exactly the enabled lanes. Loading: chunk operations
  refine one flat memory whichever way a byte is reached, a transaction is its handshake. Terminal: no
  descriptor leaks, no byte is lost, duplicated or reordered. Collector: the schema check is its
  specification, captured fields carry exactly the payload, incremental validation equals full
  validation, a stream is exactly its graph, the order of callbacks does not matter, texts determine
  the data. Exporter: what is written can be read back, dictionaries are unique and bounded, the
  cache is transparent, timestamps are exact, batches are accepted by a declarative contract and
  written causes first, and a failed write leaves a writer that is unchanged or closed. In a
  simulation the writer knows exactly what the collector has streamed, and the trace it streams is byte
  for byte the one that exporting the final snapshot writes. Memory passes:
  exactly the selected memories are retargeted, to modules with their ports, whatever the scope.

  \<^bold>\<open>Not modelled.\<close> Diagnostics on standard error and the texts of exceptions; memory allocation
  failures; the threads of FESVR beyond the switches the transport makes. The macros of
  \<open>sims/arch-test/rvmodel_macros.h\<close> are assembly. The vendored, generated and test sources and every
  other language of the repository are outside its scope.
\<close>

end
